(* ===== verification/Prelude.thy ===== *)
theory Prelude
  imports Main "HOL-Library.Word" "HOL-Library.Monad_Syntax"
begin

unbundle bit_operations_syntax

text \<open>
  Shared vocabulary of the development: the machine integer types of the Rust sources,
  byte strings and their big-endian reading, the partial operations of the Rust standard
  library (checked addition, slicing, indexing), and the list lemmas that the components use.

  A Rust panic (a failed slice, an index out of range, an arithmetic overflow of a build with
  overflow checks, \<open>unreachable!()\<close>) is \<open>None\<close> of an \<open>option\<close>; an \<open>Option\<close> or \<open>Result\<close> of
  the source is an \<open>option\<close> or a sum inside it.  A result \<open>Some r\<close> therefore also says that no
  arithmetic overflow happened on the way, so it holds for builds that wrap, too.
\<close>

section \<open>Machine integers\<close>

type_synonym u8 = "8 word"
type_synonym u16 = "16 word"
type_synonym u32 = "32 word"
type_synonym u64 = "64 word"
type_synonym usize = "64 word"
type_synonym bytes = "u8 list"

text \<open>
  Lengths of slices and positions in them are natural numbers.  Rust bounds the length of every
  slice by \<open>isize::MAX\<close>; \<open>fits_slice\<close> is that bound for byte slices.
\<close>

definition usize_bound :: nat where
  "usize_bound = 2 ^ 64"

definition fits_slice :: "bytes \<Rightarrow> bool" where
  "fits_slice buf \<longleftrightarrow> length buf < 2 ^ 63"

definition checked_add :: "nat \<Rightarrow> nat \<Rightarrow> nat option" where
  "checked_add a b = (if a + b < usize_bound then Some (a + b) else None)"

definition checked_sub :: "nat \<Rightarrow> nat \<Rightarrow> nat option" where
  "checked_sub a b = (if b \<le> a then Some (a - b) else None)"

definition add_u32 :: "u32 \<Rightarrow> u32 \<Rightarrow> u32 option" where
  "add_u32 a b = (if unat a + unat b < 2 ^ 32 then Some (a + b) else None)"

definition sub_u32 :: "u32 \<Rightarrow> u32 \<Rightarrow> u32 option" where
  "sub_u32 a b = (if b \<le> a then Some (a - b) else None)"

text \<open>Conversion of a \<open>u64\<close> into a possibly narrower type, Rust's \<open>try_from\<close>.\<close>

definition try_from_u64 :: "u64 \<Rightarrow> 'a::len word option" where
  "try_from_u64 v = (if unat v < 2 ^ LENGTH('a) then Some (ucast v) else None)"

section \<open>Slices\<close>

definition slice :: "'a list \<Rightarrow> nat \<Rightarrow> nat \<Rightarrow> 'a list option" where
  "slice xs a b = (if a \<le> b \<and> b \<le> length xs then Some (take (b - a) (drop a xs)) else None)"

definition get_idx :: "'a list \<Rightarrow> nat \<Rightarrow> 'a option" where
  "get_idx xs i = (if i < length xs then Some (xs ! i) else None)"

definition set_idx :: "'a list \<Rightarrow> nat \<Rightarrow> 'a \<Rightarrow> 'a list option" where
  "set_idx xs i v = (if i < length xs then Some (xs[i := v]) else None)"

text \<open>\<open>dst[a..b].copy_from_slice(src)\<close>: panics unless the range fits and has the length of \<open>src\<close>.\<close>

definition copy_range :: "'a list \<Rightarrow> nat \<Rightarrow> nat \<Rightarrow> 'a list \<Rightarrow> 'a list option" where
  "copy_range dst a b src =
     (if a \<le> b \<and> b \<le> length dst \<and> length src = b - a
      then Some (take a dst @ src @ drop b dst) else None)"

section \<open>Big-endian byte strings\<close>

primrec nat_be :: "nat \<Rightarrow> nat \<Rightarrow> bytes" where
  "nat_be 0 v = []"
| "nat_be (Suc n) v = nat_be n (v div 256) @ [word_of_nat (v mod 256)]"

definition be_nat :: "bytes \<Rightarrow> nat" where
  "be_nat bs = foldl (\<lambda>a b. a * 256 + unat b) 0 bs"

definition to_be_bytes :: "'a::len word \<Rightarrow> bytes" where
  "to_be_bytes w = nat_be (LENGTH('a) div 8) (unat w)"

definition from_be_bytes :: "bytes \<Rightarrow> 'a::len word" where
  "from_be_bytes bs = word_of_nat (be_nat bs)"

section \<open>Collections\<close>

named_theorems codec_simps \<open>reading back what was written\<close>
named_theorems panic_free \<open>partial operations that do not panic under their side condition\<close>

section \<open>Lemmas on bytes\<close>

lemma u8_less [simp]: "unat (b :: u8) < 256"
  using unsigned_less [of b, where ?'a = nat] by simp

lemma length_nat_be [simp]: "length (nat_be n v) = n"
  by (induction n arbitrary: v) auto

lemma be_nat_Nil [simp]: "be_nat [] = 0"
  by (simp add: be_nat_def)

lemma be_nat_snoc [simp]: "be_nat (bs @ [b]) = be_nat bs * 256 + unat b"
  by (simp add: be_nat_def)

lemma be_nat_nat_be [simp]: "be_nat (nat_be n v) = v mod 256 ^ n"
proof (induction n arbitrary: v)
  case (Suc n)
  have "v mod 256 ^ Suc n = 256 * (v div 256 mod 256 ^ n) + v mod 256"
    by (simp add: mod_mult2_eq)
  then show ?case using Suc by (simp add: unat_of_nat)
qed simp

lemma be_nat_less: "be_nat bs < 256 ^ length bs"
proof (induction bs rule: rev_induct)
  case (snoc b bs)
  with u8_less [of b] show ?case by (simp del: u8_less)
qed simp

lemma be_nat_Cons: "be_nat (b # bs) = unat b * 256 ^ length bs + be_nat bs"
proof (induction bs rule: rev_induct)
  case Nil
  then show ?case by (simp add: be_nat_def)
next
  case (snoc c bs)
  have "be_nat (b # bs @ [c]) = be_nat (b # bs) * 256 + unat c"
    using be_nat_snoc [of "b # bs" c] by simp
  then show ?case using snoc by (simp add: algebra_simps)
qed

lemma nat_be_be_nat [simp]: "nat_be (length bs) (be_nat bs) = bs"
proof (induction bs rule: rev_induct)
  case (snoc b bs)
  then show ?case using u8_less [of b] by simp
qed simp

lemma nat_be_4:
  "nat_be 4 v = [word_of_nat (v div 16777216 mod 256), word_of_nat (v div 65536 mod 256),
                 word_of_nat (v div 256 mod 256), word_of_nat (v mod 256)]"
proof -
  have "(4 :: nat) = Suc (Suc (Suc (Suc 0)))" by simp
  then show ?thesis by (simp only: nat_be.simps div_mult2_eq [symmetric]) simp
qed

lemma nat_be_first: "nat_be (Suc n) v ! 0 = word_of_nat (v div 256 ^ n mod 256)"
proof (induction n arbitrary: v)
  case (Suc n)
  have "nat_be (Suc (Suc n)) v ! 0 = nat_be (Suc n) (v div 256) ! 0"
    by (simp add: nth_append)
  also have "\<dots> = word_of_nat (v div 256 div 256 ^ n mod 256)"
    by (rule Suc)
  finally show ?case by (simp add: div_mult2_eq)
qed simp

lemma unat_nat_be_first: "unat (nat_be (Suc n) v ! 0) = v div 256 ^ n mod 256"
  by (simp only: nat_be_first unat_of_nat) simp

lemma length_to_be_bytes [simp]: "length (to_be_bytes (w :: 'a::len word)) = LENGTH('a) div 8"
  by (simp add: to_be_bytes_def)

lemma be_nat_to_be_bytes:
  assumes "8 dvd LENGTH('a::len)"
  shows "be_nat (to_be_bytes (w :: 'a word)) = unat w"
proof -
  have "(256::nat) ^ (LENGTH('a) div 8) = 2 ^ (8 * (LENGTH('a) div 8))"
    by (simp add: power_mult)
  also have "\<dots> = 2 ^ LENGTH('a)" using assms by simp
  finally show ?thesis by (simp add: to_be_bytes_def)
qed

lemma from_be_to_be [codec_simps]:
  "8 dvd LENGTH('a::len) \<Longrightarrow> from_be_bytes (to_be_bytes (w :: 'a word)) = w"
  by (simp add: from_be_bytes_def be_nat_to_be_bytes)

lemma unat_from_be:
  "256 ^ length bs \<le> (2::nat) ^ LENGTH('a::len) \<Longrightarrow> unat (from_be_bytes bs :: 'a word) = be_nat bs"
  using be_nat_less [of bs] by (simp add: from_be_bytes_def unat_of_nat)

section \<open>Lemmas on bit operations\<close>

lemma nat_or_push_bit: "(a :: nat) < 2 ^ n \<Longrightarrow> a OR push_bit n t = a + t * 2 ^ n"
proof -
  assume "a < 2 ^ n"
  then have a: "take_bit n a = a" by (simp add: take_bit_nat_eq_self_iff)
  have "take_bit n a AND push_bit n t = 0"
    by (rule bit_eqI) (auto simp: bit_simps)
  then have "a + push_bit n t = a OR push_bit n t"
    using a disjunctive_add_eq_or by metis
  then show ?thesis by (simp add: push_bit_eq_mult)
qed

lemma unat_push_bit:
  fixes w :: "'a::len word"
  assumes "unat w * 2 ^ n < 2 ^ LENGTH('a)"
  shows "unat (push_bit n w) = unat w * 2 ^ n"
proof -
  have "unat (push_bit n w) = take_bit LENGTH('a) (push_bit n (unat w))"
    by (rule unsigned_push_bit_eq)
  then show ?thesis
    using assms by (simp add: push_bit_eq_mult take_bit_nat_eq_self_iff)
qed

lemma unat_or_push_bit:
  fixes w :: "'a::len word"
  assumes "unat w < 2 ^ n" and "unat w + t * 2 ^ n < 2 ^ LENGTH('a)" and "unat u = t"
  shows "unat (w OR push_bit n u) = unat w + t * 2 ^ n"
proof -
  have "unat (push_bit n u) = unat u * 2 ^ n"
    by (rule unat_push_bit) (use assms in simp)
  then have "unat (push_bit n u) = push_bit n t"
    using assms(3) by (simp only: push_bit_eq_mult)
  then show ?thesis
    using nat_or_push_bit [OF assms(1)] by (simp add: unsigned_or_eq)
qed

lemma unat_take_bit: "unat (take_bit n (w :: 'a::len word)) = unat w mod 2 ^ n"
  by (subst unsigned_take_bit_eq) (rule take_bit_eq_mod)

lemma unat_and_mask: "unat (w AND mask n :: 'a::len word) = unat w mod 2 ^ n"
  by (simp only: take_bit_eq_mask [symmetric] unat_take_bit)

lemma unat_drop_bit: "unat (drop_bit n (w :: 'a::len word)) = unat w div 2 ^ n"
proof -
  have "take_bit LENGTH('a) (unat w) = unat w"
    by (rule take_bit_nat_eq_self) simp
  then have "unat (drop_bit n w) = drop_bit n (unat w)"
    by (simp only: unsigned_drop_bit_eq)
  then show ?thesis by (simp only: drop_bit_eq_div)
qed

lemma ucast_eqI: "unat (a :: 'b::len word) = unat (b :: 'c::len word) \<Longrightarrow> ucast a = (ucast b :: 'a::len word)"
  by (metis of_nat_unat)

lemma unat_ucast_le:
  "unat (w :: 'a::len word) < 2 ^ LENGTH('b::len) \<Longrightarrow> unat (ucast w :: 'b word) = unat w"
  by (simp add: unsigned_ucast_eq take_bit_nat_eq_self_iff)

lemma ucast_u64_u32 [simp]: "ucast (ucast (v :: u32) :: u64) = v"
  by (rule word_unat_eq_iff [THEN iffD2])
     (simp add: unat_ucast_le order.strict_trans2 [OF unsigned_less])

section \<open>Lemmas on partial operations\<close>

lemma checked_add_small [panic_free]: "a + b < 2 ^ 64 \<Longrightarrow> checked_add a b = Some (a + b)"
  by (simp add: checked_add_def usize_bound_def)

lemma checked_sub_le [panic_free]: "b \<le> a \<Longrightarrow> checked_sub a b = Some (a - b)"
  by (simp add: checked_sub_def)

lemma unat_add_u32: "add_u32 a b = Some c \<Longrightarrow> unat c = unat a + unat b"
  by (auto simp: add_u32_def unat_word_ariths split: if_splits)

lemma unat_sub_u32: "sub_u32 a b = Some c \<Longrightarrow> unat c = unat a - unat b \<and> unat b \<le> unat a"
  by (auto simp: sub_u32_def word_le_nat_alt unat_sub split: if_splits)

lemma slice_middle [codec_simps]:
  "slice (xs @ ys @ zs) (length xs) (length xs + length ys) = Some ys"
  by (simp add: slice_def)

lemma length_copy_range: "copy_range dst a b src = Some r \<Longrightarrow> length r = length dst"
  by (auto simp: copy_range_def split: if_splits)

end
