(* ===== verification/Varint.thy ===== *)
theory Varint
  imports Prelude
begin

text \<open>
  The variable-length integers of \<open>session/src/varint.rs\<close>: the length functions, the writers
  and the readers.  The two high bits of the first byte select a width of 1, 2, 4 or 8 bytes.
  The macro \<open>impl_try_read\<close> is one function that is polymorphic in the width of the result; its
  three instances are the readers of the source.
\<close>

section \<open>Constants\<close>

definition VARINT_U8_MAX :: u8 where
  "VARINT_U8_MAX = drop_bit 2 0xFF"

definition VARINT_U16_MAX :: u16 where
  "VARINT_U16_MAX = drop_bit 2 0xFFFF"

definition VARINT_U32_MAX :: u32 where
  "VARINT_U32_MAX = drop_bit 2 0xFFFFFFFF"

definition VARINT_MAX :: u64 where
  "VARINT_MAX = drop_bit 2 0xFFFFFFFFFFFFFFFF"

section \<open>Lengths\<close>

definition varu64_len :: "u64 \<Rightarrow> nat" where
  "varu64_len value =
     (if value \<le> ucast VARINT_U16_MAX
      then (if value \<le> ucast VARINT_U8_MAX then 1 else 2)
      else (if value \<le> ucast VARINT_U32_MAX then 4 else 8))"

definition varusize_len :: "usize \<Rightarrow> nat" where
  "varusize_len value =
     (if value \<le> ucast VARINT_U16_MAX
      then (if value \<le> ucast VARINT_U8_MAX then 1 else 2)
      else (if value \<le> ucast VARINT_U32_MAX then 4 else 8))"

definition varu32_len :: "u32 \<Rightarrow> nat" where
  "varu32_len value = varusize_len (ucast value)"

section \<open>Writers\<close>

definition varu64_write :: "bytes \<Rightarrow> u64 \<Rightarrow> bytes" where
  "varu64_write buf value =
     (if value \<le> ucast VARINT_U16_MAX
      then (if value \<le> ucast VARINT_U8_MAX
            then buf @ to_be_bytes (ucast value :: u8)
            else buf @ to_be_bytes (ucast value OR push_bit 14 1 :: u16))
      else (if value \<le> ucast VARINT_U32_MAX
            then buf @ to_be_bytes (ucast value OR push_bit 30 2 :: u32)
            else buf @ to_be_bytes (value OR push_bit 62 3)))"

definition varusize_write :: "bytes \<Rightarrow> usize \<Rightarrow> bytes" where
  "varusize_write buf value =
     (if value \<le> ucast VARINT_U16_MAX
      then (if value \<le> ucast VARINT_U8_MAX
            then buf @ to_be_bytes (ucast value :: u8)
            else buf @ to_be_bytes (ucast value OR push_bit 14 1 :: u16))
      else (if value \<le> ucast VARINT_U32_MAX
            then buf @ to_be_bytes (ucast value OR push_bit 30 2 :: u32)
            else buf @ to_be_bytes ((ucast value :: u64) OR push_bit 62 3)))"

definition varu32_write :: "bytes \<Rightarrow> u32 \<Rightarrow> bytes" where
  "varu32_write buf value = varusize_write buf (ucast value)"

section \<open>Readers\<close>

text \<open>
  A reader gets the buffer and the index and returns the value read, if any, and the index it
  leaves behind.  The index is written before the conversion of an eight byte value is tried, so
  it moves even when that conversion fails.
\<close>

definition impl_try_read :: "bytes \<Rightarrow> nat \<Rightarrow> 'a::len word option \<times> nat" where
  "impl_try_read buf idx =
     (if idx \<ge> length buf then (None, idx)
      else let tag = drop_bit 6 (buf ! idx) in
        if tag = 0 then
          (case checked_add idx 1 of
             None \<Rightarrow> (None, idx)
           | Some j \<Rightarrow> (Some (ucast (buf ! idx)), j))
        else if tag = 1 then
          (case checked_add idx 2 of
             None \<Rightarrow> (None, idx)
           | Some j \<Rightarrow>
               if j > length buf then (None, idx)
               else (Some (ucast ((from_be_bytes (take 2 (drop idx buf)) :: u16) AND VARINT_U16_MAX)), j))
        else if tag = 2 then
          (case checked_add idx 4 of
             None \<Rightarrow> (None, idx)
           | Some j \<Rightarrow>
               if j > length buf then (None, idx)
               else (Some (ucast ((from_be_bytes (take 4 (drop idx buf)) :: u32) AND VARINT_U32_MAX)), j))
        else
          (case checked_add idx 8 of
             None \<Rightarrow> (None, idx)
           | Some j \<Rightarrow>
               if j > length buf then (None, idx)
               else (try_from_u64 (from_be_bytes (take 8 (drop idx buf))), j)))"

definition varu64_try_read :: "bytes \<Rightarrow> nat \<Rightarrow> u64 option \<times> nat" where
  "varu64_try_read = impl_try_read"

definition varusize_try_read :: "bytes \<Rightarrow> nat \<Rightarrow> usize option \<times> nat" where
  "varusize_try_read = impl_try_read"

definition varu32_try_read :: "bytes \<Rightarrow> nat \<Rightarrow> u32 option \<times> nat" where
  "varu32_try_read = impl_try_read"

definition varu30_try_read :: "bytes \<Rightarrow> nat \<Rightarrow> u32 option \<times> nat" where
  "varu30_try_read buf idx =
     (if idx \<ge> length buf then (None, idx)
      else let tag = drop_bit 6 (buf ! idx) in
        if tag = 0 then
          (case checked_add idx 1 of
             None \<Rightarrow> (None, idx)
           | Some j \<Rightarrow> (Some (ucast (buf ! idx)), j))
        else if tag = 1 then
          (case checked_add idx 2 of
             None \<Rightarrow> (None, idx)
           | Some j \<Rightarrow>
               if j > length buf then (None, idx)
               else (Some (ucast ((from_be_bytes (take 2 (drop idx buf)) :: u16) AND VARINT_U16_MAX)), j))
        else if tag = 2 then
          (case checked_add idx 4 of
             None \<Rightarrow> (None, idx)
           | Some j \<Rightarrow>
               if j > length buf then (None, idx)
               else (Some ((from_be_bytes (take 4 (drop idx buf))) AND VARINT_U32_MAX), j))
        else (None, idx))"

section \<open>The constants as numbers\<close>

lemma unat_varint_max:
  "unat VARINT_U8_MAX = 2 ^ 6 - 1"
  "unat VARINT_U16_MAX = 2 ^ 14 - 1"
  "unat VARINT_U32_MAX = 2 ^ 30 - 1"
  "unat VARINT_MAX = 2 ^ 62 - 1"
  by (simp_all add: VARINT_U8_MAX_def VARINT_U16_MAX_def VARINT_U32_MAX_def VARINT_MAX_def unat_drop_bit)

lemma varint_max_mask:
  "VARINT_U16_MAX = mask 14" "VARINT_U32_MAX = mask 30"
  by (simp_all add: VARINT_U16_MAX_def VARINT_U32_MAX_def mask_eq_exp_minus_1)

lemma le_varint_max:
  "value \<le> ucast VARINT_U8_MAX \<longleftrightarrow> unat (value :: u64) < 2 ^ 6"
  "value \<le> ucast VARINT_U16_MAX \<longleftrightarrow> unat (value :: u64) < 2 ^ 14"
  "value \<le> ucast VARINT_U32_MAX \<longleftrightarrow> unat (value :: u64) < 2 ^ 30"
  by (auto simp: word_le_nat_alt unat_ucast_le unat_varint_max)

lemma varusize_len_eq: "varusize_len = varu64_len"
  by (rule ext) (simp add: varusize_len_def varu64_len_def)

lemma varusize_write_eq: "varusize_write = varu64_write"
  by (intro ext) (simp add: varusize_write_def varu64_write_def)

section \<open>What the writers append\<close>

lemma varu64_write_append: "varu64_write buf value = buf @ varu64_write [] value"
  by (simp add: varu64_write_def)

lemma length_varu64_write: "length (varu64_write [] value) = varu64_len value"
  by (simp add: varu64_write_def varu64_len_def)

text \<open>A value of at most 62 bits is written as its width tag followed by its big-endian bits.\<close>

lemma varu64_write_tagged:
  fixes v :: u64
  shows "unat v < 2 ^ 6 \<Longrightarrow> varu64_write [] v = nat_be 1 (unat v)"
    and "2 ^ 6 \<le> unat v \<Longrightarrow> unat v < 2 ^ 14 \<Longrightarrow>
      varu64_write [] v = nat_be 2 (1 * 2 ^ 14 + unat v)"
    and "2 ^ 14 \<le> unat v \<Longrightarrow> unat v < 2 ^ 30 \<Longrightarrow>
      varu64_write [] v = nat_be 4 (2 * 2 ^ 30 + unat v)"
    and "2 ^ 30 \<le> unat v \<Longrightarrow> unat v < 2 ^ 62 \<Longrightarrow>
      varu64_write [] v = nat_be 8 (3 * 2 ^ 62 + unat v)"
proof -
  assume "unat v < 2 ^ 6"
  then show "varu64_write [] v = nat_be 1 (unat v)"
    by (simp add: varu64_write_def le_varint_max to_be_bytes_def unat_ucast_le)
next
  assume *: "2 ^ 6 \<le> unat v" "unat v < 2 ^ 14"
  then have "unat (ucast v OR push_bit 14 1 :: u16) = unat v + 1 * 2 ^ 14"
    using unat_or_push_bit [of "ucast v :: u16" 14 1 1] by (simp add: unat_ucast_le)
  with * show "varu64_write [] v = nat_be 2 (1 * 2 ^ 14 + unat v)"
    by (simp add: varu64_write_def le_varint_max to_be_bytes_def add.commute)
next
  assume *: "2 ^ 14 \<le> unat v" "unat v < 2 ^ 30"
  then have "unat (ucast v OR push_bit 30 2 :: u32) = unat v + 2 * 2 ^ 30"
    using unat_or_push_bit [of "ucast v :: u32" 30 2 2] by (simp add: unat_ucast_le)
  with * show "varu64_write [] v = nat_be 4 (2 * 2 ^ 30 + unat v)"
    by (simp add: varu64_write_def le_varint_max to_be_bytes_def add.commute)
next
  assume *: "2 ^ 30 \<le> unat v" "unat v < 2 ^ 62"
  then have "unat (v OR push_bit 62 3) = unat v + 3 * 2 ^ 62"
    using unat_or_push_bit [of v 62 3 3] by simp
  with * show "varu64_write [] v = nat_be 8 (3 * 2 ^ 62 + unat v)"
    by (simp add: varu64_write_def le_varint_max to_be_bytes_def add.commute)
qed

lemma tag_of_first_byte:
  assumes "v < 2 ^ (8 * n + 6)" and "t < 4"
  shows "drop_bit 6 (nat_be (Suc n) (t * 2 ^ (8 * n + 6) + v) ! 0) = word_of_nat t"
proof (rule word_unat_eq_iff [THEN iffD2])
  let ?x = "t * 2 ^ (8 * n + 6) + v" and ?r = "v div 2 ^ (8 * n)"
  have p: "(256::nat) ^ n = 2 ^ (8 * n)" by (simp add: power_mult)
  have q: "?x div 256 ^ n = t * 64 + ?r"
    using div_mult_self3 [of "2 ^ (8 * n)" "t * 64" v] by (simp add: p power_add ac_simps)
  have r: "?r < 64"
    using assms(1) by (simp add: power_add less_mult_imp_div_less mult.commute)
  have "unat (drop_bit 6 (nat_be (Suc n) ?x ! 0)) = (t * 64 + ?r) mod 256 div 64"
    by (simp only: unat_drop_bit unat_nat_be_first q) simp
  also have "\<dots> = t" using assms(2) r by simp
  also have "\<dots> = unat (word_of_nat t :: u8)" using assms(2) by (simp add: unat_of_nat)
  finally show "unat (drop_bit 6 (nat_be (Suc n) ?x ! 0)) = unat (word_of_nat t :: u8)" .
qed

section \<open>What the readers see\<close>

text \<open>Reading at the position where a byte string starts, by the tag of its first byte.\<close>

lemma try_read_by_tag:
  assumes "fits_slice (pre @ bs @ post)"
  shows "length bs = 1 \<Longrightarrow> drop_bit 6 (bs ! 0) = 0 \<Longrightarrow>
      impl_try_read (pre @ bs @ post) (length pre) = (Some (ucast (bs ! 0)), length pre + 1)"
    and "length bs = 2 \<Longrightarrow> drop_bit 6 (bs ! 0) = 1 \<Longrightarrow>
      impl_try_read (pre @ bs @ post) (length pre) =
        (Some (ucast ((from_be_bytes bs :: u16) AND VARINT_U16_MAX)), length pre + 2)"
    and "length bs = 4 \<Longrightarrow> drop_bit 6 (bs ! 0) = 2 \<Longrightarrow>
      impl_try_read (pre @ bs @ post) (length pre) =
        (Some (ucast ((from_be_bytes bs :: u32) AND VARINT_U32_MAX)), length pre + 4)"
    and "length bs = 8 \<Longrightarrow> drop_bit 6 (bs ! 0) = 3 \<Longrightarrow>
      impl_try_read (pre @ bs @ post) (length pre) = (try_from_u64 (from_be_bytes bs), length pre + 8)"
proof -
  have small: "checked_add (length pre) k = Some (length pre + k)" if "k \<le> 8" for k
    using assms that by (simp add: fits_slice_def checked_add_small)
  have first: "(pre @ bs @ post) ! length pre = bs ! 0" if "0 < length bs"
    using that by (simp add: nth_append)
  note unfold = impl_try_read_def first small Let_def
  show "length bs = 1 \<Longrightarrow> drop_bit 6 (bs ! 0) = 0 \<Longrightarrow>
      impl_try_read (pre @ bs @ post) (length pre) = (Some (ucast (bs ! 0)), length pre + 1)"
    by (simp add: unfold)
  show "length bs = 2 \<Longrightarrow> drop_bit 6 (bs ! 0) = 1 \<Longrightarrow>
      impl_try_read (pre @ bs @ post) (length pre) =
        (Some (ucast ((from_be_bytes bs :: u16) AND VARINT_U16_MAX)), length pre + 2)"
    by (simp add: unfold)
  show "length bs = 4 \<Longrightarrow> drop_bit 6 (bs ! 0) = 2 \<Longrightarrow>
      impl_try_read (pre @ bs @ post) (length pre) =
        (Some (ucast ((from_be_bytes bs :: u32) AND VARINT_U32_MAX)), length pre + 4)"
    by (simp add: unfold)
  show "length bs = 8 \<Longrightarrow> drop_bit 6 (bs ! 0) = 3 \<Longrightarrow>
      impl_try_read (pre @ bs @ post) (length pre) = (try_from_u64 (from_be_bytes bs), length pre + 8)"
    by (simp add: unfold)
qed

lemma be_value_masked:
  "unat ((from_be_bytes (nat_be 2 m) :: u16) AND VARINT_U16_MAX) = m mod 2 ^ 14"
  "unat ((from_be_bytes (nat_be 4 m) :: u32) AND VARINT_U32_MAX) = m mod 2 ^ 30"
  "m < 2 ^ 64 \<Longrightarrow> unat (from_be_bytes (nat_be 8 m) :: u64) = m"
  by (simp_all only: varint_max_mask unat_and_mask)
     (simp_all add: unat_from_be mod_mod_cancel)

text \<open>
  The law of the codec: any value below \<open>2 ^ 30\<close> that fits the reader's type is read back.
\<close>

lemma try_read_varu64_write:
  fixes v :: u64
  assumes fits: "fits_slice (pre @ varu64_write [] v @ post)" and small: "unat v < 2 ^ 30"
  shows "impl_try_read (pre @ varu64_write [] v @ post) (length pre) =
           (Some (ucast v :: 'a::len word), length pre + varu64_len v)"
proof -
  consider "unat v < 2 ^ 6" | "2 ^ 6 \<le> unat v" "unat v < 2 ^ 14" | "2 ^ 14 \<le> unat v"
    using small by linarith
  then show ?thesis
  proof cases
    case 1
    define bs where "bs = nat_be 1 (unat v)"
    have w: "varu64_write [] v = bs" using 1 by (simp add: varu64_write_tagged bs_def)
    have l: "length bs = 1" by (simp add: bs_def)
    have "unat (bs ! 0) = unat v" using 1 unat_nat_be_first [of 0 "unat v"] by (simp add: bs_def)
    then have "ucast (bs ! 0) = (ucast v :: 'a word)" by (rule ucast_eqI)
    moreover have "drop_bit 6 (bs ! 0) = 0"
      using 1 tag_of_first_byte [of "unat v" 0 0] by (simp add: bs_def)
    ultimately show ?thesis
      using fits 1 l by (simp add: w try_read_by_tag(1) varu64_len_def le_varint_max)
  next
    case 2
    define bs where "bs = nat_be 2 (1 * 2 ^ 14 + unat v)"
    have w: "varu64_write [] v = bs" using 2 by (simp only: varu64_write_tagged bs_def)
    have "drop_bit 6 (bs ! 0) = 1"
      using 2 tag_of_first_byte [of "unat v" 1 1] by (simp add: bs_def numeral_2_eq_2)
    moreover have "unat ((from_be_bytes bs :: u16) AND VARINT_U16_MAX) = unat v"
      using 2 by (simp add: bs_def be_value_masked)
    then have "ucast ((from_be_bytes bs :: u16) AND VARINT_U16_MAX) = (ucast v :: 'a word)"
      by (rule ucast_eqI)
    moreover have "length bs = 2" by (simp add: bs_def)
    ultimately show ?thesis
      using fits 2 by (simp add: w try_read_by_tag(2) varu64_len_def le_varint_max)
  next
    case 3
    define bs where "bs = nat_be 4 (2 * 2 ^ 30 + unat v)"
    have w: "varu64_write [] v = bs" using 3 small by (simp only: varu64_write_tagged bs_def)
    have "drop_bit 6 (bs ! 0) = 2"
      using small tag_of_first_byte [of "unat v" 3 2] by (simp add: bs_def)
    moreover have "unat ((from_be_bytes bs :: u32) AND VARINT_U32_MAX) = unat v"
      using small by (simp only: bs_def be_value_masked mod_mult_self3 mod_less)
    then have "ucast ((from_be_bytes bs :: u32) AND VARINT_U32_MAX) = (ucast v :: 'a word)"
      by (rule ucast_eqI)
    moreover have "length bs = 4" by (simp add: bs_def)
    ultimately show ?thesis
      using fits 3 small
      by (simp add: w try_read_by_tag(3) varu64_len_def le_varint_max)
  qed
qed

lemma try_read_wide:
  fixes v :: u64
  assumes fits: "fits_slice (pre @ varu64_write [] v @ post)"
    and wide: "2 ^ 30 \<le> unat v" "unat v < 2 ^ 62"
  shows "impl_try_read (pre @ varu64_write [] v @ post) (length pre) =
           (try_from_u64 (v + 3 * 2 ^ 62) :: 'a::len word option, length pre + varu64_len v)"
proof -
  define bs where "bs = nat_be 8 (3 * 2 ^ 62 + unat v)"
  have w: "varu64_write [] v = bs" using wide by (simp only: varu64_write_tagged bs_def)
  have "drop_bit 6 (bs ! 0) = 3"
    using wide tag_of_first_byte [of "unat v" 7 3] by (simp add: bs_def)
  moreover have "length bs = 8" by (simp add: bs_def)
  moreover have "from_be_bytes bs = v + 3 * 2 ^ 62"
    using wide by (simp add: bs_def from_be_bytes_def)
  ultimately show ?thesis
    using fits wide by (simp add: w try_read_by_tag(4) varu64_len_def le_varint_max)
qed

lemma impl_try_read_index:
  "idx \<le> length buf \<Longrightarrow> impl_try_read buf idx = (r, idx') \<Longrightarrow>
     idx \<le> idx' \<and> idx' \<le> length buf \<and> (r \<noteq> None \<longrightarrow> idx < idx')"
  by (auto simp: impl_try_read_def Let_def checked_add_def split: if_splits option.splits)

text \<open>An eight byte form never holds a 32-bit value, because its tag bits are not masked.\<close>

lemma tag_three:
  assumes "drop_bit 6 (b :: u8) \<notin> {0, 1, 2}"
  shows "192 \<le> unat b"
proof -
  have "unat (drop_bit 6 b) \<noteq> unat (k :: u8)" if "k \<in> {0, 1, 2}" for k
    using assms that by (simp only: word_unat_eq_iff [symmetric]) auto
  from this [of 0] this [of 1] this [of 2] have "unat b div 64 \<notin> {0, 1, 2}"
    by (simp add: unat_drop_bit)
  then show ?thesis by auto
qed

lemma try_from_eight_bytes:
  assumes "8 + idx \<le> length buf" and "drop_bit 6 (buf ! idx :: u8) \<notin> {0, 1, 2}"
  shows "(try_from_u64 (from_be_bytes (take 8 (drop idx buf))) :: u32 option) = None"
proof -
  have "take 8 (drop idx buf) = buf ! idx # take 7 (drop (Suc idx) buf)"
    using assms(1) by (simp add: Cons_nth_drop_Suc [symmetric] take_Cons')
  then have "be_nat (take 8 (drop idx buf)) \<ge> unat (buf ! idx) * 256 ^ 7"
    using assms(1) by (simp add: be_nat_Cons)
  then have "be_nat (take 8 (drop idx buf)) \<ge> 192 * 256 ^ 7"
    using tag_three [OF assms(2)] by (simp add: order_trans [OF mult_le_mono1])
  moreover have "unat (from_be_bytes (take 8 (drop idx buf)) :: u64) = be_nat (take 8 (drop idx buf))"
    using assms(1) by (intro unat_from_be) simp
  ultimately show ?thesis by (simp add: try_from_u64_def)
qed

section \<open>The codec interface\<close>

text \<open>
  What the packet formats need of an integer format: a writer that only appends, a length
  function that is exact, and a reader that returns every encodable value from where it was
  written and leaves the index right behind it.
\<close>

locale byte_codec =
  fixes put :: "bytes \<Rightarrow> 'v \<Rightarrow> bytes"
    and len :: "'v \<Rightarrow> nat"
    and get :: "bytes \<Rightarrow> nat \<Rightarrow> 'v option \<times> nat"
    and encodable :: "'v \<Rightarrow> bool"
  assumes write_append: "put buf v = buf @ put [] v"
    and length_written: "length (put [] v) = len v"
    and read_written: "encodable v \<Longrightarrow> fits_slice (pre @ put [] v @ post) \<Longrightarrow>
      get (pre @ put [] v @ post) (length pre) = (Some v, length pre + len v)"
begin

lemma length_write: "length (put buf v) = length buf + len v"
  by (subst write_append) (simp add: length_written)

lemma take_write: "take (length buf) (put buf v) = buf"
  by (subst write_append) simp

lemma read_at:
  assumes "encodable v" and "fits_slice (pre @ put [] v @ post)" and "i = length pre"
  shows "get (pre @ put [] v @ post) i = (Some v, i + len v)"
  using assms read_written by simp

lemma read_after_write:
  assumes "encodable v" and "fits_slice (put buf v @ post)"
  shows "get (put buf v @ post) (length buf) = (Some v, length buf + len v)"
  using assms read_written [of v buf post] by (subst write_append) (simp add: write_append [of buf v])

text \<open>Two values written one after the other are read back in order.\<close>

lemma read_two:
  assumes "encodable v" "encodable w" and fits: "fits_slice (put (put buf v) w @ post)"
  shows "get (put (put buf v) w @ post) (length buf) = (Some v, length (put buf v))"
    and "get (put (put buf v) w @ post) (length (put buf v)) =
           (Some w, length (put (put buf v) w))"
proof -
  have e: "put (put buf v) w @ post = buf @ put [] v @ (put [] w @ post)"
    by (metis write_append append_assoc)
  show "get (put (put buf v) w @ post) (length buf) = (Some v, length (put buf v))"
    using assms read_at [of v buf "put [] w @ post"] by (simp add: e length_write)
  show "get (put (put buf v) w @ post) (length (put buf v)) =
           (Some w, length (put (put buf v) w))"
    using assms read_after_write [of w "put buf v" post] by (simp add: length_write)
qed

end

interpretation v64: byte_codec varu64_write varu64_len varu64_try_read "\<lambda>v. unat v < 2 ^ 30"
  by unfold_locales
     (simp_all add: varu64_write_append [symmetric] length_varu64_write varu64_try_read_def
        try_read_varu64_write)

interpretation vusize: byte_codec varusize_write varusize_len varusize_try_read "\<lambda>v. unat v < 2 ^ 30"
  by unfold_locales
     (simp_all add: varusize_write_eq varusize_len_eq varu64_write_append [symmetric]
        length_varu64_write varusize_try_read_def try_read_varu64_write)

interpretation v32: byte_codec varu32_write varu32_len varu32_try_read "\<lambda>v. unat v < 2 ^ 30"
proof unfold_locales
  fix buf pre post :: bytes and v :: u32
  show "varu32_write buf v = buf @ varu32_write [] v"
    by (simp add: varu32_write_def varusize_write_eq varu64_write_append [symmetric])
  show "length (varu32_write [] v) = varu32_len v"
    by (simp add: varu32_write_def varu32_len_def varusize_write_eq varusize_len_eq length_varu64_write)
  assume "unat v < 2 ^ 30" and "fits_slice (pre @ varu32_write [] v @ post)"
  then show "varu32_try_read (pre @ varu32_write [] v @ post) (length pre) =
      (Some v, length pre + varu32_len v)"
    using try_read_varu64_write [of pre "ucast v" post, where ?'a = 32]
    by (simp add: varu32_write_def varu32_len_def varusize_write_eq varusize_len_eq
        varu32_try_read_def unat_ucast_le)
qed

section \<open>Properties\<close>

text \<open>
  C31. Round trip of the 64-bit varints: a value below \<open>2 ^ 30\<close> that \<open>varu64_write\<close> appended to a
  buffer is what \<open>varu64_try_read\<close> returns at that position, and the index it leaves is the end of
  the encoding, which is \<open>varu64_len\<close> bytes further.
\<close>

theorem varu64_roundtrip:
  assumes "unat v < 2 ^ 30" and "fits_slice (varu64_write buf v @ post)"
  shows "varu64_try_read (varu64_write buf v @ post) (length buf) = (Some v, length buf + varu64_len v)
       \<and> length (varu64_write buf v) = length buf + varu64_len v"
  using v64.read_after_write [OF assms] v64.length_write by simp

theorem varu64_roundtrip_witness:
  "varu64_try_read (varu64_write [7] 16384 @ [9]) 1 = (Some 16384, 5)"
  using varu64_roundtrip [of 16384 "[7]" "[9]"]
  by (simp add: v64.length_write fits_slice_def varu64_len_def le_varint_max)

text \<open>
  The eight byte form is not read back: for every value from \<open>2 ^ 30\<close> up to \<open>VARINT_MAX\<close> the
  64-bit reader returns the value with its two tag bits still set, and the 32-bit reader fails.
\<close>

theorem varint_wide_not_read_back:
  assumes "2 ^ 30 \<le> unat v" and "v \<le> VARINT_MAX" and "fits_slice (varu64_write buf v @ post)"
  shows "fst (varu64_try_read (varu64_write buf v @ post) (length buf)) = Some (v + 3 * 2 ^ 62)
       \<and> v + 3 * 2 ^ 62 \<noteq> v
       \<and> fst (varu32_try_read (varu64_write buf v @ post) (length buf)) = None"
proof -
  have v: "unat v < 2 ^ 62" using assms(2) by (simp add: word_le_nat_alt unat_varint_max)
  then have "unat (v + 3 * 2 ^ 62) = unat v + 3 * 2 ^ 62"
    by (simp add: unat_word_ariths)
  then have "v + 3 * 2 ^ 62 \<noteq> v" and "\<not> unat (v + 3 * 2 ^ 62) < 2 ^ 32"
    by (metis add_eq_self_zero zero_neq_numeral mult_eq_0_iff power_not_zero, simp)
  moreover have "varu64_write buf v @ post = buf @ varu64_write [] v @ post"
    by (subst varu64_write_append) simp
  ultimately show ?thesis
    using try_read_wide [of buf v post, where ?'a = 64] try_read_wide [of buf v post, where ?'a = 32]
      assms v unsigned_less [of "v + 3 * 2 ^ 62", where ?'a = nat]
    by (simp add: varu64_try_read_def varu32_try_read_def try_from_u64_def)
qed

theorem varint_wide_not_read_back_witness:
  "fst (varu64_try_read (varu64_write [] (2 ^ 30)) 0) = Some (2 ^ 30 + 3 * 2 ^ 62)"
  using varint_wide_not_read_back [of "2 ^ 30" "[]" "[]"]
  by (simp add: VARINT_MAX_def fits_slice_def length_varu64_write varu64_len_def le_varint_max)

text \<open>
  No reader leaves the buffer: started inside the buffer, a reader moves the index forward and
  never past the end, and it moves it at all when it returns a value.
\<close>

theorem try_read_index_in_buffer:
  assumes "idx \<le> length buf" and "(impl_try_read buf idx :: 'a::len word option \<times> nat) = (r, idx')"
  shows "idx \<le> idx' \<and> idx' \<le> length buf \<and> (r \<noteq> None \<longrightarrow> idx < idx')"
  using impl_try_read_index [OF assms] .

theorem try_read_index_in_buffer_witness:
  "(impl_try_read [0x40, 5] 0 :: u64 option \<times> nat) = (Some 5, 2) \<and> (2::nat) \<le> length [0x40, 5 :: u8]"
proof -
  have r: "(impl_try_read [0x40, 5] 0 :: u64 option \<times> nat) = (Some 5, 2)"
    by (simp add: impl_try_read_def checked_add_def usize_bound_def from_be_bytes_def be_nat_def
        VARINT_U16_MAX_def)
  show ?thesis using r try_read_index_in_buffer [OF _ r] by simp
qed

text \<open>
  C32. The 30-bit reader returns what the 32-bit reader returns on every input: the eight byte
  form, which it refuses, never holds a 32-bit value because its tag bits are not masked.
\<close>

theorem varu30_equals_varu32:
  "fst (varu30_try_read buf idx) = fst (varu32_try_read buf idx)"
  using try_from_eight_bytes [of idx buf]
  by (auto simp: varu30_try_read_def varu32_try_read_def impl_try_read_def Let_def checked_add_def
      split: option.splits if_splits)

end
