(* ===== verification/Doc_No.thy ===== *)
theory Doc_No
  imports Varint
begin

text \<open>
  Document numbers and channel variants of \<open>session/src/doc_no.rs\<close>.  A document number packs a
  counter, a slot index and, in its two low bits, a channel variant.
\<close>

section \<open>Channel variants\<close>

datatype channel_variants = Variant_None | Variant_Forward | Variant_Backward | Variant_Unbound

definition variant_code :: "channel_variants \<Rightarrow> u8" where
  "variant_code v = (case v of
     Variant_None \<Rightarrow> 0 | Variant_Forward \<Rightarrow> 1 | Variant_Backward \<Rightarrow> 2 | Variant_Unbound \<Rightarrow> 3)"

definition variant_is_none :: "channel_variants \<Rightarrow> bool" where
  "variant_is_none v \<longleftrightarrow> v = Variant_None"

definition variant_is_some :: "channel_variants \<Rightarrow> bool" where
  "variant_is_some v \<longleftrightarrow> v \<noteq> Variant_None"

definition is_forward :: "channel_variants \<Rightarrow> bool" where
  "is_forward v \<longleftrightarrow> v = Variant_Forward"

definition is_backward :: "channel_variants \<Rightarrow> bool" where
  "is_backward v \<longleftrightarrow> v = Variant_Backward"

definition is_unbound :: "channel_variants \<Rightarrow> bool" where
  "is_unbound v \<longleftrightarrow> v = Variant_Unbound"

definition is_reply :: "channel_variants \<Rightarrow> bool" where
  "is_reply v \<longleftrightarrow> variant_code v \<ge> variant_code Variant_Backward"

section \<open>Document numbers\<close>

datatype doc_no = DocNo (raw: u64)

definition DOC_NO_MAX :: u64 where
  "DOC_NO_MAX = VARINT_MAX"

definition try_new :: "u64 \<Rightarrow> doc_no option" where
  "try_new no = (if no \<le> DOC_NO_MAX then Some (DocNo no) else None)"

text \<open>
  \<open>new\<close> asserts that the index is a slot; the product and the sum are checked, the shift is not.
\<close>

definition doc_no_new :: "u64 \<Rightarrow> usize \<Rightarrow> channel_variants \<Rightarrow> usize \<Rightarrow> doc_no option" where
  "doc_no_new counter index variant max_docs =
     (if \<not> index < max_docs then None
      else if unat counter * unat max_docs \<ge> 2 ^ 64 then None
      else if unat (counter * max_docs) + unat index \<ge> 2 ^ 64 then None
      else Some (DocNo (push_bit 2 (counter * max_docs + index) OR ucast (variant_code variant))))"

definition counter :: "doc_no \<Rightarrow> usize \<Rightarrow> u64 option" where
  "counter d max_docs = (if max_docs = 0 then None else Some (drop_bit 2 (raw d) mod max_docs))"

definition index :: "doc_no \<Rightarrow> usize \<Rightarrow> usize option" where
  "index d max_docs = (if max_docs = 0 then None else Some (drop_bit 2 (raw d) div max_docs))"

definition variant_no :: "doc_no \<Rightarrow> u8" where
  "variant_no d = ucast (raw d AND 3)"

definition variant :: "doc_no \<Rightarrow> channel_variants option" where
  "variant d =
     (if variant_no d = 0 then Some Variant_None
      else if variant_no d = 1 then Some Variant_Forward
      else if variant_no d = 2 then Some Variant_Backward
      else if variant_no d = 3 then Some Variant_Unbound
      else None)"

section \<open>Lemmas\<close>

lemma variant_code_less: "unat (variant_code v) < 4"
  by (cases v) (simp_all add: variant_code_def)

lemma unat_variant_no: "unat (variant_no d) = unat (raw d) mod 4"
proof -
  have "unat (raw d AND mask 2) = unat (raw d) mod 4" by (simp only: unat_and_mask) simp
  then show ?thesis by (simp add: variant_no_def unat_ucast_le mask_eq_exp_minus_1)
qed

lemma variant_total: "\<exists>v. variant d = Some v"
proof -
  have "unat (variant_no d) < 4" by (simp add: unat_variant_no)
  then have "unat (variant_no d) \<in> {0, 1, 2, 3}" by auto
  then show ?thesis by (auto simp: variant_def word_unat_eq_iff)
qed

text \<open>The order of the codes is the one of the tests: the replies are the last two variants.\<close>

lemma is_reply_cases: "is_reply v \<longleftrightarrow> is_backward v \<or> is_unbound v"
  by (cases v) (simp_all add: is_reply_def is_backward_def is_unbound_def variant_code_def word_le_nat_alt)

lemma variant_is_some_cases: "variant_is_some v \<longleftrightarrow> is_forward v \<or> is_reply v"
  by (cases v) (simp_all add: variant_is_some_def is_forward_def is_reply_cases is_backward_def is_unbound_def)

text \<open>The number that \<open>new\<close> packs, when nothing is shifted out.\<close>

lemma unat_doc_no_new:
  assumes "unat c * unat m + unat i < 2 ^ 62" and "i < m"
  shows "\<exists>d. doc_no_new c i v m = Some d
           \<and> unat (raw d) = (unat c * unat m + unat i) * 4 + unat (variant_code v)"
proof -
  let ?k = "unat c * unat m + unat i"
  have prod: "unat (c * m) = unat c * unat m"
    using assms(1) by (simp add: unat_word_ariths)
  then have sum: "unat (c * m + i) = ?k"
    using assms(1) by (simp add: unat_word_ariths)
  have "unat (push_bit 2 (c * m + i)) = ?k * 4"
    using assms(1) sum unat_push_bit [of "c * m + i" 2] by (simp del: push_bit_numeral)
  then have "unat (push_bit 2 (c * m + i) OR ucast (variant_code v)) = unat (variant_code v) OR push_bit 2 ?k"
    using variant_code_less [of v]
    by (simp add: unsigned_or_eq unat_ucast_le push_bit_eq_mult or.commute)
  also have "\<dots> = unat (variant_code v) + ?k * 4"
    using nat_or_push_bit [of "unat (variant_code v)" 2 ?k] variant_code_less [of v] by simp
  finally show ?thesis
    using assms prod sum by (simp add: doc_no_new_def)
qed

lemma variant_of_code: "unat (variant_no d) = unat (variant_code v) \<Longrightarrow> variant d = Some v"
  by (cases v) (simp_all add: variant_def variant_code_def word_unat_eq_iff)

section \<open>Properties\<close>

text \<open>
  The variant survives packing, but the two other accessors are exchanged: for a number that
  fits, \<open>counter\<close> returns the index and \<open>index\<close> returns the counter that \<open>new\<close> was given.
\<close>

theorem doc_no_accessors_exchanged:
  assumes "i < m" and "unat c * unat m + unat i < 2 ^ 62"
  shows "\<exists>d. doc_no_new c i v m = Some d \<and> variant d = Some v
           \<and> counter d m = Some i \<and> index d m = Some c"
proof -
  obtain d where d: "doc_no_new c i v m = Some d"
    and r: "unat (raw d) = (unat c * unat m + unat i) * 4 + unat (variant_code v)"
    using unat_doc_no_new assms by blast
  have im: "unat i < unat m" using assms(1) by (simp add: word_less_nat_alt)
  have q: "unat (drop_bit 2 (raw d)) = unat c * unat m + unat i"
    using r variant_code_less [of v] by (simp add: unat_drop_bit)
  have "drop_bit 2 (raw d) mod m = i" and "drop_bit 2 (raw d) div m = c"
    using q im by (simp_all only: word_unat_eq_iff unat_mod unat_div) simp_all
  moreover have "variant d = Some v"
    using variant_code_less [of v]
    by (intro variant_of_code) (simp only: unat_variant_no r mod_mult_self3 mod_less)
  moreover have "m \<noteq> 0" using im by auto
  ultimately show ?thesis using d by (simp add: counter_def index_def)
qed

theorem doc_no_accessors_exchanged_witness:
  "\<exists>d. doc_no_new 5 2 Variant_Backward 8 = Some d \<and> counter d 8 = Some 2 \<and> index d 8 = Some 5"
  using doc_no_accessors_exchanged [of 2 8 5 Variant_Backward] by auto

end
