(* ===== verification/Antireplay.thy ===== *)
theory Antireplay
  imports Prelude
begin

text \<open>
  The replay filter of \<open>session/src/antireplay.rs\<close>: an array of \<open>L\<close> atomic counters.  Every
  operation is one atomic access, so a concurrent execution is a sequence of operations on the
  array, and the properties quantify over all sequences.
\<close>

section \<open>Slots\<close>

fun ilog2 :: "nat \<Rightarrow> nat" where
  "ilog2 n = (if n \<le> 1 then 0 else Suc (ilog2 (n div 2)))"

declare ilog2.simps [simp del]

definition next_power_of_two :: "nat \<Rightarrow> nat" where
  "next_power_of_two n = (if n \<le> 1 then 1 else 2 ^ Suc (ilog2 (n - 1)))"

definition reverse_bits :: "u32 \<Rightarrow> u32" where
  "reverse_bits w = horner_sum of_bool 2 (map (\<lambda>k. bit w (31 - k)) [0..<32])"

text \<open>
  The slot of a counter: the top \<open>ilog2 L\<close> bits of the reversed counter.  The shift amount is
  \<open>32 - ilog2 L\<close>; a negative or a full-width shift panics, as does an index outside the array.
\<close>

definition slot :: "u32 list \<Rightarrow> u32 \<Rightarrow> nat option" where
  "slot st counter =
     (case checked_sub 32 (ilog2 (length st)) of
        None \<Rightarrow> None
      | Some shift \<Rightarrow>
          if shift \<ge> 32 then None
          else let i = unat (drop_bit shift (reverse_bits counter)) in
            if i < length st then Some i else None)"

section \<open>Operations\<close>

definition antireplay_default :: "u32 \<Rightarrow> nat \<Rightarrow> u32 list option" where
  "antireplay_default AES_GCM_INIT_COUNTER L =
     (if AES_GCM_INIT_COUNTER > 0 \<and> L > 0 \<and> next_power_of_two L = L
      then Some (replicate L 0) else None)"

definition check :: "u32 list \<Rightarrow> u32 \<Rightarrow> bool option" where
  "check st counter =
     (case slot st counter of None \<Rightarrow> None | Some i \<Rightarrow> Some (st ! i < counter))"

definition update :: "u32 list \<Rightarrow> u32 \<Rightarrow> (u32 list \<times> bool) option" where
  "update st counter =
     (case slot st counter of
        None \<Rightarrow> None
      | Some i \<Rightarrow> Some (st[i := max (st ! i) counter], st ! i < counter))"

text \<open>A sequence of operations; the answers in order.\<close>

fun run_updates :: "('s \<Rightarrow> 'c \<Rightarrow> ('s \<times> bool) option) \<Rightarrow> 's \<Rightarrow> 'c list \<Rightarrow> ('s \<times> bool list) option" where
  "run_updates upd s [] = Some (s, [])"
| "run_updates upd s (c # cs) =
     (case upd s c of
        None \<Rightarrow> None
      | Some (s', r) \<Rightarrow> (case run_updates upd s' cs of
            None \<Rightarrow> None
          | Some (s'', rs) \<Rightarrow> Some (s'', r # rs)))"

section \<open>The contract of a replay filter\<close>

text \<open>
  A filter knows of every counter whether it would refuse it.  An update answers accordingly,
  refuses its counter from then on and forgets no refusal.
\<close>

locale replay_filter =
  fixes inv :: "'s \<Rightarrow> bool" and upd :: "'s \<Rightarrow> 'c \<Rightarrow> ('s \<times> bool) option" and refuses :: "'s \<Rightarrow> 'c \<Rightarrow> bool"
  assumes upd_total: "inv s \<Longrightarrow> \<exists>s'. upd s c = Some (s', \<not> refuses s c) \<and> inv s'"
    and upd_refuses: "inv s \<Longrightarrow> upd s c = Some (s', r) \<Longrightarrow> refuses s' c"
    and upd_keeps: "inv s \<Longrightarrow> upd s c = Some (s', r) \<Longrightarrow> refuses s d \<Longrightarrow> refuses s' d"
begin

lemma run_total: "inv s \<Longrightarrow> \<exists>s' rs. run_updates upd s cs = Some (s', rs) \<and> inv s' \<and> length rs = length cs"
proof (induction cs arbitrary: s)
  case (Cons c cs)
  from upd_total [OF Cons.prems, of c] obtain s' where s': "upd s c = Some (s', \<not> refuses s c)" "inv s'"
    by blast
  from Cons.IH [OF s'(2)] obtain s'' rs where "run_updates upd s' cs = Some (s'', rs)" "inv s''" "length rs = length cs"
    by blast
  with s' show ?case by simp
qed simp

lemma run_refuses:
  "inv s \<Longrightarrow> run_updates upd s cs = Some (s', rs) \<Longrightarrow> refuses s d \<or> d \<in> set cs \<Longrightarrow> refuses s' d"
proof (induction cs arbitrary: s rs)
  case (Cons c cs)
  from upd_total [OF Cons.prems(1), of c] obtain t where t: "upd s c = Some (t, \<not> refuses s c)" "inv t"
    by blast
  with Cons.prems(2) obtain rs' where "run_updates upd t cs = Some (s', rs')"
    by (auto split: option.splits)
  moreover have "refuses t d \<or> d \<in> set cs"
    using Cons.prems t upd_refuses upd_keeps by auto
  ultimately show ?case using Cons.IH [OF t(2)] by blast
qed auto

lemma refused_never_accepted:
  "inv s \<Longrightarrow> run_updates upd s cs = Some (s', rs) \<Longrightarrow> refuses s d \<Longrightarrow> k < length cs \<Longrightarrow> cs ! k = d \<Longrightarrow> \<not> rs ! k"
proof (induction cs arbitrary: s rs k)
  case (Cons c cs)
  from upd_total [OF Cons.prems(1), of c] obtain t where t: "upd s c = Some (t, \<not> refuses s c)" "inv t"
    by blast
  with Cons.prems(2) obtain rs' where r: "run_updates upd t cs = Some (s', rs')" "rs = (\<not> refuses s c) # rs'"
    by (auto split: option.splits)
  have "refuses t d" using upd_keeps Cons.prems t by blast
  then show ?case
    using Cons.IH [OF t(2) r(1), of "k - 1"] Cons.prems r(2) by (cases k) auto
qed simp

text \<open>No counter is accepted twice in a run.\<close>

lemma accepted_once:
  assumes "inv s" and "run_updates upd s cs = Some (s', rs)"
    and "i < j" and "j < length cs" and "cs ! i = cs ! j"
  shows "\<not> rs ! j"
  using assms
proof (induction cs arbitrary: s rs i j)
  case (Cons c cs)
  from upd_total [OF Cons.prems(1), of c] obtain t where t: "upd s c = Some (t, \<not> refuses s c)" "inv t"
    by blast
  with Cons.prems(2) obtain rs' where r: "run_updates upd t cs = Some (s', rs')" "rs = (\<not> refuses s c) # rs'"
    by (auto split: option.splits)
  obtain j' where j: "j = Suc j'" using Cons.prems(3) by (cases j) auto
  show ?case
  proof (cases i)
    case 0
    have "refuses t c" using upd_refuses Cons.prems(1) t(1) by blast
    then show ?thesis
      using refused_never_accepted [OF t(2) r(1), of c j'] Cons.prems 0 j r(2) by simp
  next
    case (Suc i')
    then show ?thesis using Cons.IH [OF t(2) r(1), of i' j'] Cons.prems j r(2) by simp
  qed
qed simp

end

section \<open>Lemmas on slots\<close>

lemma ilog2_power: "ilog2 (2 ^ k) = k"
proof (induction k)
  case (Suc k)
  have "(2::nat) \<le> 2 ^ Suc k" by simp
  then have "\<not> (2::nat) ^ Suc k \<le> 1" by linarith
  then have "ilog2 (2 ^ Suc k) = Suc (ilog2 (2 ^ Suc k div 2))" by (subst ilog2.simps) simp
  then show ?case using Suc by simp
qed (simp add: ilog2.simps)

lemma bit_reverse_bits: "k < 32 \<Longrightarrow> bit (reverse_bits w) k = bit w (31 - k)"
  by (simp add: reverse_bits_def bit_horner_sum_bit_iff)

text \<open>With \<open>2 ^ k\<close> slots, bit \<open>i\<close> of the slot number is bit \<open>k - 1 - i\<close> of the counter.\<close>

lemma bit_slot_number:
  assumes "0 < k" and "k \<le> 32"
  shows "bit (drop_bit (32 - k) (reverse_bits c)) i \<longleftrightarrow> i < k \<and> bit c (k - 1 - i)"
proof (cases "i < k")
  case True
  then have "31 - (32 - k + i) = k - 1 - i" using assms by linarith
  then show ?thesis using True assms by (simp add: bit_drop_bit_eq bit_reverse_bits)
next
  case False
  then have "32 \<le> 32 - k + i" using assms by linarith
  then have "\<not> bit (reverse_bits c) (32 - k + i)"
    using bit_imp_le_length [of "reverse_bits c"] by fastforce
  then show ?thesis using False by (simp add: bit_drop_bit_eq)
qed

lemma slot_number_less:
  assumes "0 < k" and "k \<le> 32"
  shows "unat (drop_bit (32 - k) (reverse_bits c)) < 2 ^ k"
proof -
  have "take_bit k (drop_bit (32 - k) (reverse_bits c)) = drop_bit (32 - k) (reverse_bits c)"
    by (rule bit_word_eqI) (use bit_slot_number [OF assms] in \<open>auto simp: bit_take_bit_iff\<close>)
  then have "take_bit k (unat (drop_bit (32 - k) (reverse_bits c))) = unat (drop_bit (32 - k) (reverse_bits c))"
    by (metis unsigned_take_bit_eq)
  then show ?thesis by (simp add: take_bit_nat_eq_self_iff)
qed

lemma slot_number_eq_iff:
  assumes "0 < k" and "k \<le> 32"
  shows "drop_bit (32 - k) (reverse_bits c) = drop_bit (32 - k) (reverse_bits d)
     \<longleftrightarrow> unat c mod 2 ^ k = unat d mod 2 ^ k"
    (is "?n c = ?n d \<longleftrightarrow> _")
proof -
  have low: "bit c' i \<longleftrightarrow> bit (?n c') (k - 1 - i)" if "i < k" for c' i
    using that bit_slot_number [OF assms, of c' "k - 1 - i"] by simp
  have "?n c = ?n d \<longleftrightarrow> take_bit k c = take_bit k d"
  proof
    assume "?n c = ?n d"
    then have "bit c i = bit d i" if "i < k" for i
      using low [OF that, of c] low [OF that, of d] by simp
    then show "take_bit k c = take_bit k d"
      by (intro bit_word_eqI) (auto simp: bit_take_bit_iff)
  next
    assume t: "take_bit k c = take_bit k d"
    have "bit c i = bit d i" if "i < k" for i
      using that t by (metis bit_take_bit_iff)
    then show "?n c = ?n d"
      by (intro bit_word_eqI) (auto simp: bit_slot_number [OF assms])
  qed
  also have "\<dots> \<longleftrightarrow> unat c mod 2 ^ k = unat d mod 2 ^ k"
    by (simp only: word_unat_eq_iff unat_take_bit)
  finally show ?thesis .
qed

text \<open>An array of \<open>2 ^ k\<close> slots, at least two and at most as many as there are counters.\<close>

definition filter_len :: "u32 list \<Rightarrow> bool" where
  "filter_len st \<longleftrightarrow> (\<exists>k. 0 < k \<and> k \<le> 32 \<and> length st = 2 ^ k)"

lemma slot_total:
  assumes "filter_len st"
  obtains i where "slot st c = Some i" and "i < length st"
proof -
  from assms obtain k where k: "0 < k" "k \<le> 32" and l: "length st = 2 ^ k"
    by (auto simp: filter_len_def)
  have "slot st c = Some (unat (drop_bit (32 - k) (reverse_bits c)))"
    using k slot_number_less [OF k, of c] by (simp add: slot_def l ilog2_power checked_sub_def Let_def)
  then show thesis using that slot_number_less [OF k, of c] l by simp
qed

lemma slot_eq_iff:
  assumes "filter_len st"
  shows "slot st c = slot st d \<longleftrightarrow> unat c mod length st = unat d mod length st"
proof -
  from assms obtain k where k: "0 < k" "k \<le> 32" and l: "length st = 2 ^ k"
    by (auto simp: filter_len_def)
  have "slot st e = Some (unat (drop_bit (32 - k) (reverse_bits e)))" for e
    using k slot_number_less [OF k, of e] by (simp add: slot_def l ilog2_power checked_sub_def Let_def)
  then show ?thesis
    using slot_number_eq_iff [OF k, of c d] l by (simp add: word_unat_eq_iff)
qed

section \<open>The array implements the contract\<close>

definition stale :: "u32 list \<Rightarrow> u32 \<Rightarrow> bool" where
  "stale st c \<longleftrightarrow> (case slot st c of None \<Rightarrow> True | Some i \<Rightarrow> \<not> st ! i < c)"

lemma slot_list_update [simp]: "slot (st[i := v]) c = slot st c"
  by (simp add: slot_def Let_def split: option.split)

lemma filter_len_update [simp]: "filter_len (st[i := v]) = filter_len st"
  by (simp add: filter_len_def)

lemma update_total: "filter_len st \<Longrightarrow> \<exists>st'. update st c = Some (st', \<not> stale st c) \<and> filter_len st'"
  by (rule slot_total [of st c]) (auto simp: update_def stale_def)

lemma update_stale:
  assumes "filter_len st" and "update st c = Some (st', r)"
  shows "stale st' c" and "stale st d \<Longrightarrow> stale st' d"
proof -
  obtain i where i: "slot st c = Some i" "i < length st" using slot_total assms(1) by blast
  obtain j where j: "slot st d = Some j" "j < length st" using slot_total assms(1) by blast
  from assms(2) i have st': "st' = st[i := max (st ! i) c]" by (simp add: update_def)
  show "stale st' c" using i by (simp add: st' stale_def)
  show "stale st' d" if "stale st d"
    using that i j by (cases "i = j") (auto simp: st' stale_def not_less intro: order_trans max.coboundedI1)
qed

interpretation arf: replay_filter filter_len update stale
  by unfold_locales (auto simp: update_total dest: update_stale)

lemma check_eq: "filter_len st \<Longrightarrow> check st c = Some (\<not> stale st c)"
  by (rule slot_total [of st c]) (auto simp: check_def stale_def)

section \<open>The window\<close>

text \<open>
  From the default array, a counter that was not passed to \<open>update\<close> is accepted as long as no
  counter at least \<open>L\<close> ahead of it was: such a counter is the only kind that shares its slot and
  is greater.
\<close>

lemma run_updates_slot:
  assumes "filter_len st" and "run_updates update st cs = Some (st', rs)" and "slot st c = Some i"
  shows "filter_len st' \<and> length st' = length st \<and> slot st' c = Some i
    \<and> (st' ! i = st ! i \<or> (\<exists>d\<in>set cs. slot st d = Some i \<and> st' ! i = d))"
  using assms
proof (induction cs arbitrary: st rs)
  case (Cons d cs)
  obtain j where j: "slot st d = Some j" "j < length st" using slot_total Cons.prems(1) by blast
  define t where "t = st[j := max (st ! j) d]"
  have t: "update st d = Some (t, st ! j < d)" using j by (simp add: update_def t_def)
  then obtain rs' where r: "run_updates update t cs = Some (st', rs')"
    using Cons.prems(2) by (auto split: option.splits)
  have same: "slot t e = slot st e" "length t = length st" "filter_len t" for e
    using Cons.prems(1) by (simp_all add: t_def)
  have "t ! i = st ! i \<or> i = j \<and> t ! i = d"
    using j by (auto simp: t_def nth_list_update max_def)
  then show ?case
    using Cons.IH [OF same(3) r] Cons.prems(3) j(1) same by auto
qed simp

lemma window_accepts:
  assumes len: "filter_len (replicate L 0)"
    and run: "run_updates update (replicate L 0) cs = Some (st, rs)"
    and new: "c \<notin> set cs" "0 < c" and window: "\<And>d. d \<in> set cs \<Longrightarrow> unat d < unat c + L"
  shows "\<not> stale st c"
proof -
  let ?st = "replicate L (0::u32)"
  obtain i where i: "slot ?st c = Some i" "i < L" using slot_total [OF len, of c] by auto
  note fin = run_updates_slot [OF len run i(1)]
  have "st ! i < c"
  proof (cases "st ! i = 0")
    case True
    then show ?thesis using new(2) by simp
  next
    case False
    then obtain d where d: "d \<in> set cs" "slot ?st d = Some i" "st ! i = d" using fin i(2) by auto
    then have "slot ?st d = slot ?st c" using i by simp
    then have m: "unat d mod L = unat c mod L" using slot_eq_iff [OF len] by simp
    have "\<not> unat c \<le> unat d"
    proof
      assume "unat c \<le> unat d"
      then obtain q where q: "unat d = unat c + q * L"
        using m by (metis mod_eq_nat1E mult.commute)
      show False
      proof (cases q)
        case 0
        then have "d = c" using q by (simp add: word_unat_eq_iff)
        then show False using d(1) new(1) by simp
      next
        case (Suc q')
        then show False using q window [OF d(1)] by simp
      qed
    qed
    then show ?thesis using d(3) by (simp add: word_less_nat_alt)
  qed
  then show ?thesis using fin by (simp add: stale_def)
qed

lemma antireplay_default_filter:
  assumes "antireplay_default init L = Some st" and "2 \<le> L" and "L \<le> 2 ^ 32"
  shows "st = replicate L 0 \<and> filter_len st"
proof -
  have st: "st = replicate L 0" and "next_power_of_two L = L"
    using assms(1) by (auto simp: antireplay_default_def split: if_splits)
  then have "L = 2 ^ Suc (ilog2 (L - 1))"
    using assms(2) by (simp add: next_power_of_two_def split: if_splits)
  then obtain k where k: "L = 2 ^ Suc k" by blast
  then have "Suc k \<le> 32" using assms(3) by (metis power_le_imp_le_exp one_less_numeral_iff semiring_norm(76))
  then show ?thesis using st k by (auto simp: filter_len_def)
qed

text \<open>The example of the source: eight consecutive counters in eight slots.\<close>

lemma slot_example:
  "map (slot (replicate 8 0)) [0, 1, 2, 3, 4, 5, 6, 7] = map Some [0, 4, 2, 6, 1, 5, 3, 7]"
  by (simp add: slot_def ilog2.simps checked_sub_def reverse_bits_def upt_rec)

section \<open>Properties\<close>

text \<open>
  C17. No replay: in any sequence of updates on a filter with \<open>2 ^ k\<close> slots, a counter that was passed to
  \<open>update\<close> before is refused, whatever happened in between and in whatever order the updates
  of concurrent threads took effect; every update of the sequence returns.
\<close>

theorem antireplay_no_replay:
  assumes "filter_len st"
  shows "\<exists>st' rs. run_updates update st cs = Some (st', rs) \<and> length rs = length cs
     \<and> (\<forall>i j. i < j \<longrightarrow> j < length cs \<longrightarrow> cs ! i = cs ! j \<longrightarrow> \<not> rs ! j)
     \<and> (\<forall>c \<in> set cs. check st' c = Some False)"
proof -
  obtain st' rs where run: "run_updates update st cs = Some (st', rs)" "filter_len st'" "length rs = length cs"
    using arf.run_total assms by blast
  have "\<not> rs ! j" if "i < j" "j < length cs" "cs ! i = cs ! j" for i j
    using arf.accepted_once [OF assms run(1)] that by blast
  moreover have "check st' c = Some False" if "c \<in> set cs" for c
    using arf.run_refuses [OF assms run(1)] that run(2) by (simp add: check_eq)
  ultimately show ?thesis using run by blast
qed

theorem antireplay_no_replay_witness:
  "\<exists>st' rs. run_updates update (replicate 8 0) [3, 9, 3] = Some (st', rs) \<and> \<not> rs ! 2"
proof -
  have "filter_len (replicate 8 0)"
    unfolding filter_len_def by (rule exI [of _ 3]) simp
  from antireplay_no_replay [OF this, of "[3, 9, 3]"] obtain st' rs where
    run: "run_updates update (replicate 8 0) [3, 9, 3] = Some (st', rs)"
    and "\<forall>i j. i < j \<longrightarrow> j < length [3, 9, 3 :: u32] \<longrightarrow> [3, 9, 3 :: u32] ! i = [3, 9, 3] ! j \<longrightarrow> \<not> rs ! j"
    by blast
  then have "\<not> rs ! 2" by (auto dest: spec [of _ 0] spec [of _ 2])
  with run show ?thesis by blast
qed



text \<open>
  Slot mapping: with \<open>2 ^ k\<close> slots every counter has a slot inside the array, and two counters
  share a slot exactly when they agree modulo the number of slots; so any \<open>L\<close> consecutive
  counters use all \<open>L\<close> slots.
\<close>

theorem antireplay_slots:
  assumes "filter_len st"
  shows "(\<exists>i < length st. slot st c = Some i)
     \<and> (slot st c = slot st d \<longleftrightarrow> unat c mod length st = unat d mod length st)"
proof
  show "\<exists>i < length st. slot st c = Some i" by (rule slot_total [OF assms]) blast
  show "slot st c = slot st d \<longleftrightarrow> unat c mod length st = unat d mod length st"
    by (rule slot_eq_iff [OF assms])
qed

theorem antireplay_slots_witness:
  "slot (replicate 8 0) 1 = slot (replicate 8 0) 9 \<and> slot (replicate 8 0) 1 \<noteq> slot (replicate 8 0) 5"
proof -
  have f: "filter_len (replicate 8 0)"
    unfolding filter_len_def by (rule exI [of _ 3]) simp
  show ?thesis
    using antireplay_slots [OF f, of 1 9] antireplay_slots [OF f, of 1 5] by simp
qed

text \<open>
  A filter of one slot, which the compile-time assertion admits, panics on every access: its
  shift amount is the full width of the counter.
\<close>

theorem antireplay_single_slot_panics:
  assumes "0 < init"
  shows "antireplay_default init 1 = Some [0] \<and> check [0] c = None \<and> update [0] c = None"
  using assms
  by (simp add: antireplay_default_def next_power_of_two_def check_def update_def slot_def
      checked_sub_def ilog2.simps)

theorem antireplay_single_slot_panics_witness:
  "antireplay_default 1 1 = Some [0] \<and> update [0] 5 = None"
  using antireplay_single_slot_panics [of 1 5] by simp

end
