(* ===== verification/Session_Protocol.thy ===== *)
theory Session_Protocol
  imports Varint
begin

text \<open>
  The wire constants of \<open>session/src/protocol/mod.rs\<close>: frame variants and their flags, reserved
  socket ids, header and length limits.
\<close>

section \<open>Frame variants\<close>

definition VARIANT_NULL_TERMINATOR :: u8 where "VARIANT_NULL_TERMINATOR = 0x0"
definition VARIANT_PADDING :: u8 where "VARIANT_PADDING = 0xFF"

definition VARIANT_SEG_HAS_LEN :: u8 where "VARIANT_SEG_HAS_LEN = 0x01"
definition VARIANT_SEG_IS_TERMINATOR :: u8 where "VARIANT_SEG_IS_TERMINATOR = 0x02"
definition VARIANT_SEG_HAS_TERMINATOR :: u8 where "VARIANT_SEG_HAS_TERMINATOR = 0x03"
definition VARIANT_SEG_FLAG_IS_FIRST :: u8 where "VARIANT_SEG_FLAG_IS_FIRST = 0x04"
definition VARIANT_SEG_FLAG_HAS_SPECIAL_PARENT :: u8 where "VARIANT_SEG_FLAG_HAS_SPECIAL_PARENT = 0x08"
definition VARIANT_SEG_FLAG_HAS_DOC_LEN :: u8 where "VARIANT_SEG_FLAG_HAS_DOC_LEN = 0x10"
definition VARIANT_SEG_FLAG_IS_SINGLE_SEG :: u8 where "VARIANT_SEG_FLAG_IS_SINGLE_SEG = 0x20"
definition VARIANT_SEG_FLAG_IS_CLOSED :: u8 where "VARIANT_SEG_FLAG_IS_CLOSED = 0x40"

definition VARIANT_SEG_LEN_MASK :: u8 where "VARIANT_SEG_LEN_MASK = 0x03"
definition VARIANT_SEG_MIN :: u8 where "VARIANT_SEG_MIN = 0x01"
definition VARIANT_SEG_MAX :: u8 where "VARIANT_SEG_MAX = 0x7F"

definition VARIANT_CONTROL_FIN :: u8 where "VARIANT_CONTROL_FIN = 0x82"
definition VARIANT_CONTROL_FIN_PARENT_CLOSED :: u8 where "VARIANT_CONTROL_FIN_PARENT_CLOSED = 0x82"
definition VARIANT_CONTROL_CLOSE :: u8 where "VARIANT_CONTROL_CLOSE = 0x84"

definition VARIANT_ACK_SINGLE :: u8 where "VARIANT_ACK_SINGLE = 0x80"
definition VARIANT_ACK_RUN :: u8 where "VARIANT_ACK_RUN = 0x81"

section \<open>Lengths\<close>

definition MIN_FRAME_APPEND_LEN :: nat where "MIN_FRAME_APPEND_LEN = 16"
definition MAX_SEG_HEADER_LEN :: nat where "MAX_SEG_HEADER_LEN = 1 + 8 + 8 + 8 + 8 + 4"
definition MIN_SEG_DATA_LEN :: nat where "MIN_SEG_DATA_LEN = 16"
definition MIN_MTU :: nat where "MIN_MTU = MAX_SEG_HEADER_LEN + MIN_SEG_DATA_LEN"
definition HEADER_LEN :: nat where "HEADER_LEN = 8"
definition FOOTER_LEN :: nat where "FOOTER_LEN = 16"

end
