(* ===== verification/Ack_Runs.thy ===== *)
theory Ack_Runs
  imports Session_Protocol
begin

text \<open>
  The run-length encoding of acknowledgements of \<open>session/src/ack_runs.rs\<close>.  \<open>encode\<close> is a loop
  over runs (\<open>encode_loop\<close>) around a loop that fills one run (\<open>encode_run\<close>); \<open>decode\<close> reads one
  run and calls a function on every number of it, which the model collects in a list.
\<close>

section \<open>Encoding\<close>

definition set_run_code :: "u32 \<Rightarrow> u32" where
  "set_run_code cur_set_run_len = push_bit 1 (cur_set_run_len - 1) OR 1"

text \<open>The part of the inner loop that writes a run of absent numbers: the buffer, whether it was written and whether the run is full now.\<close>

definition encode_unset :: "nat \<Rightarrow> bytes \<Rightarrow> u32 \<Rightarrow> (bytes \<times> bool \<times> bool) option" where
  "encode_unset max_len buf diff =
     (case sub_u32 diff 2 of
        None \<Rightarrow> None
      | Some cur_unset_run_len \<Rightarrow>
          if cur_unset_run_len > drop_bit 1 VARINT_U32_MAX then Some (buf, False, True)
          else let n = push_bit 1 cur_unset_run_len; new_len = length buf + varu32_len n in
            if new_len > max_len then Some (buf, False, True)
            else Some (varu32_write buf n, True, new_len = max_len))"

text \<open>
  One iteration of the inner loop at index \<open>i\<close>: \<open>Continue\<close> goes on at \<open>i + 1\<close> with the given buffer
  and pending run, \<open>Break\<close> leaves the loop with the given index and no pending run.
\<close>

datatype run_step = Continue bytes u32 | Break bytes nat

definition finish_unset :: "nat \<Rightarrow> bytes \<Rightarrow> nat \<Rightarrow> u32 \<Rightarrow> run_step option" where
  "finish_unset max_len buf i diff =
     (case encode_unset max_len buf diff of
        None \<Rightarrow> None
      | Some (buf', written, full) \<Rightarrow>
          Some (if \<not> written then Break buf' i
                else if full then Break buf' (i + 1)
                else Continue buf' 0))"

definition encode_iter :: "u32 list \<Rightarrow> nat \<Rightarrow> bytes \<Rightarrow> nat \<Rightarrow> u32 \<Rightarrow> run_step option" where
  "encode_iter sorted_acks max_len buf i cur_set_run_len =
     (case sub_u32 (sorted_acks ! i) (sorted_acks ! (i - 1)) of
        None \<Rightarrow> None
      | Some diff \<Rightarrow>
          if diff \<le> 1 then
            (case add_u32 cur_set_run_len 1 of
               None \<Rightarrow> None
             | Some cur_set_run_len \<Rightarrow> Some (Continue buf cur_set_run_len))
          else if cur_set_run_len > 0 then
            (let n = set_run_code cur_set_run_len; new_len = length buf + varu32_len n in
             if new_len > max_len then
               (case checked_sub (i + 1) (unat cur_set_run_len + 1) of
                  None \<Rightarrow> None
                | Some i' \<Rightarrow> Some (Break buf i'))
             else let buf = varu32_write buf n in
               if new_len = max_len then Some (Break buf i)
               else if diff - 1 \<le> 1 then Some (Continue buf 1)
               else finish_unset max_len buf i (diff - 1))
          else finish_unset max_len buf i diff)"

function encode_run :: "u32 list \<Rightarrow> nat \<Rightarrow> bytes \<Rightarrow> nat \<Rightarrow> u32 \<Rightarrow> (bytes \<times> nat \<times> u32) option" where
  "encode_run sorted_acks max_len buf i cur_set_run_len =
     (if i < length sorted_acks then
        (case encode_iter sorted_acks max_len buf i cur_set_run_len of
           None \<Rightarrow> None
         | Some (Break buf' i') \<Rightarrow> Some (buf', i', 0)
         | Some (Continue buf' run') \<Rightarrow> encode_run sorted_acks max_len buf' (i + 1) run')
      else Some (buf, i, cur_set_run_len))"
  by pat_completeness auto
termination
  by (relation "measure (\<lambda>(acks, max_len, buf, i, run). length acks - i)") auto

declare encode_run.simps [simp del]

text \<open>The pending run of present numbers that the inner loop leaves behind.\<close>

definition encode_tail :: "nat \<Rightarrow> bytes \<Rightarrow> nat \<Rightarrow> u32 \<Rightarrow> (bytes \<times> nat) option" where
  "encode_tail max_len buf i cur_set_run_len =
     (if cur_set_run_len > 0 then
        (let n = set_run_code cur_set_run_len; new_len = length buf + varu32_len n in
         if new_len > max_len then
           (case checked_sub i (unat cur_set_run_len) of None \<Rightarrow> None | Some i' \<Rightarrow> Some (buf, i'))
         else Some (varu32_write buf n, i))
      else Some (buf, i))"

lemma encode_iter_progress:
  assumes "encode_iter acks max_len buf i run = Some r"
  shows "r = Break buf' i' \<Longrightarrow> i - unat run \<le> i'"
    and "r = Continue buf' run' \<Longrightarrow> unat run' \<le> unat run + 1"
  using assms
  by (auto simp: encode_iter_def finish_unset_def Let_def checked_sub_def
      split: option.splits if_splits prod.splits dest!: unat_add_u32)

lemma encode_run_progress:
  "encode_run acks max_len buf i run = Some (buf', i', run') \<Longrightarrow> unat run \<le> i \<Longrightarrow>
     unat run' \<le> i' \<and> i - unat run \<le> i' - unat run'"
proof (induction acks max_len buf i run rule: encode_run.induct)
  case (1 acks max_len buf i run)
  show ?case
  proof (cases "i < length acks")
    case False
    then show ?thesis using "1.prems" by (simp add: encode_run.simps [of acks max_len buf i run])
  next
    case True
    with "1.prems"(1) obtain r where r: "encode_iter acks max_len buf i run = Some r"
      by (auto simp: encode_run.simps [of acks max_len buf i run] split: option.splits)
    show ?thesis
    proof (cases r)
      case (Continue b run1)
      have run1: "unat run1 \<le> unat run + 1" by (rule encode_iter_progress(2) [OF r Continue])
      then have "i - unat run \<le> Suc i - unat run1" by linarith
      then show ?thesis
        using "1.IH" [OF True r Continue] "1.prems" True r run1 Continue
        by (simp add: encode_run.simps [of acks max_len buf i run])
    next
      case (Break b i1)
      then show ?thesis
        using "1.prems" True r encode_iter_progress(1) [OF r Break]
        by (simp add: encode_run.simps [of acks max_len buf i run])
    qed
  qed
qed

lemma encode_tail_progress:
  "encode_tail max_len buf i run = Some (buf', i') \<Longrightarrow> unat run \<le> i \<Longrightarrow> i - unat run \<le> i'"
  by (auto simp: encode_tail_def Let_def checked_sub_def split: if_splits)

lemma encode_step_progress:
  "encode_run acks max_len buf (Suc i) 0 = Some (buf', i', run) \<Longrightarrow>
     encode_tail max_len buf' i' run = Some (buf'', i'') \<Longrightarrow> i < i''"
  using encode_run_progress [of acks max_len buf "Suc i" 0 buf' i' run]
    encode_tail_progress [of max_len buf' i' run buf'' i''] by simp

function encode_loop :: "u32 list \<Rightarrow> nat \<Rightarrow> bytes \<Rightarrow> nat \<Rightarrow> (bytes \<times> nat) option" where
  "encode_loop sorted_acks capacity buf i =
     (if i < length sorted_acks then
        (let variant_idx = length buf; len_idx = variant_idx + 5 in
         if len_idx > capacity then Some (buf, i)
         else let buf = buf @ [VARIANT_ACK_RUN] @ to_be_bytes (sorted_acks ! i) in
           if len_idx + 1 > capacity then Some (buf[variant_idx := VARIANT_ACK_SINGLE], i + 1)
           else if len_idx \<noteq> length buf then None
           else let buf = buf @ [0]; max_len = min capacity (length buf + 255 + 1) in
             (case encode_run sorted_acks max_len buf (i + 1) 0 of
                None \<Rightarrow> None
              | Some (buf, i', cur_set_run_len) \<Rightarrow>
                  (case encode_tail max_len buf i' cur_set_run_len of
                     None \<Rightarrow> None
                   | Some (buf, i'') \<Rightarrow>
                       let run_total_len = length buf - len_idx in
                       if run_total_len \<le> 1
                       then encode_loop sorted_acks capacity ((butlast buf)[variant_idx := VARIANT_ACK_SINGLE]) i''
                       else encode_loop sorted_acks capacity (buf[len_idx := word_of_nat (run_total_len - 2)]) i'')))
      else Some (buf, i))"
  by pat_completeness auto
termination
proof (relation "measure (\<lambda>(acks, capacity, buf, i). length acks - i)", goal_cases)
  case 1
  then show ?case by simp
next
  case (2 acks capacity buf i)
  then show ?case by (auto dest!: encode_step_progress)
next
  case (3 acks capacity buf i)
  then show ?case by (auto dest!: encode_step_progress)
qed

declare encode_loop.simps [simp del]

definition encode :: "bytes \<Rightarrow> u32 list \<Rightarrow> nat \<Rightarrow> (bytes \<times> nat) option" where
  "encode buf sorted_acks capacity = encode_loop sorted_acks capacity buf 0"

section \<open>Decoding\<close>

text \<open>The loop over a run of present numbers; \<open>f\<close> is called on every number of the result.\<close>

fun decode_set_run :: "nat \<Rightarrow> u32 \<Rightarrow> (u32 \<times> u32 list) option" where
  "decode_set_run 0 cur_ack_no = Some (cur_ack_no, [])"
| "decode_set_run (Suc k) cur_ack_no =
     (case add_u32 cur_ack_no 1 of
        None \<Rightarrow> None
      | Some cur_ack_no \<Rightarrow>
          (case decode_set_run k cur_ack_no of
             None \<Rightarrow> None
           | Some (c, acks) \<Rightarrow> Some (c, cur_ack_no # acks)))"

text \<open>The body of the loop over the varints of a run: the next number and the numbers passed to \<open>f\<close>.\<close>

definition decode_item :: "u32 \<Rightarrow> u32 \<Rightarrow> (u32 \<times> u32 list) option" where
  "decode_item cur_run cur_ack_no =
     (let cur_run_len = drop_bit 1 cur_run in
      if cur_run AND 1 > 0 then
        (case decode_set_run (unat cur_run_len + 1) cur_ack_no of
           None \<Rightarrow> None
         | Some (c, acks) \<Rightarrow> (case add_u32 c 1 of None \<Rightarrow> None | Some c \<Rightarrow> Some (c, acks)))
      else
        (case add_u32 cur_run_len 2 of
           None \<Rightarrow> None
         | Some step \<Rightarrow> (case add_u32 cur_ack_no step of None \<Rightarrow> None | Some c \<Rightarrow> Some (c, [c]))))"

lemma varu32_try_read_advances:
  "i < length buf \<Longrightarrow> (r, j) = varu32_try_read buf i \<Longrightarrow> i \<le> j \<and> j \<le> length buf \<and> (r \<noteq> None \<longrightarrow> i < j)"
  by (rule impl_try_read_index) (simp_all add: varu32_try_read_def)

function decode_loop :: "bytes \<Rightarrow> nat \<Rightarrow> u32 \<Rightarrow> (bool \<times> nat \<times> u32 list) option" where
  "decode_loop buf i cur_ack_no =
     (if i < length buf then
        (case varu32_try_read buf i of
           (None, i') \<Rightarrow> Some (False, i', [])
         | (Some cur_run, i') \<Rightarrow>
             (case decode_item cur_run cur_ack_no of
                None \<Rightarrow> None
              | Some (c, acks) \<Rightarrow>
                  (case decode_loop buf i' c of
                     None \<Rightarrow> None
                   | Some (ok, j, rest) \<Rightarrow> Some (ok, j, acks @ rest))))
      else Some (True, i, []))"
  by pat_completeness auto
termination
proof (relation "measure (\<lambda>(buf, i, c). length buf - i)", goal_cases)
  case 1
  then show ?case by simp
next
  case (2 buf i)
  then show ?case by (auto dest!: varu32_try_read_advances)
qed

declare decode_loop.simps [simp del]

definition decode :: "bytes \<Rightarrow> bool \<Rightarrow> nat \<Rightarrow> (bool \<times> nat \<times> u32 list) option" where
  "decode buf is_run i =
     (if i + 4 + of_bool is_run > length buf then Some (False, i, [])
      else let first_ack_no = from_be_bytes (take 4 (drop i buf)); i = i + 4 in
        if \<not> is_run then Some (True, i, [first_ack_no])
        else let total_len = unat (buf ! i) + 1; i = i + 1 in
          if i + total_len > length buf then Some (False, i, [first_ack_no])
          else (case decode_loop (take (i + total_len) buf) i first_ack_no of
                  None \<Rightarrow> None
                | Some (ok, j, rest) \<Rightarrow> Some (ok, j, first_ack_no # rest)))"

text \<open>
  Reading a whole sequence of acknowledgement frames, as the tests of the source do: the frame
  variant says whether the frame is a run.
\<close>

function decode_frames :: "bytes \<Rightarrow> nat \<Rightarrow> u32 list option" where
  "decode_frames buf i =
     (if i < length buf then
        (case decode buf (buf ! i = VARIANT_ACK_RUN) (i + 1) of
           Some (True, j, acks) \<Rightarrow>
             if i < j then (case decode_frames buf j of None \<Rightarrow> None | Some rest \<Rightarrow> Some (acks @ rest))
             else None
         | _ \<Rightarrow> None)
      else Some [])"
  by pat_completeness auto
termination
  by (relation "measure (\<lambda>(buf, i). length buf - i)") auto

declare decode_frames.simps [simp del]

end
