(* ===== verification/Ack_Runs_Correct.thy ===== *)
theory Ack_Runs_Correct
  imports Ack_Runs
begin

text \<open>
  The acknowledgement encoding is faithful: what \<open>decode\<close> reports from the output of \<open>encode\<close> is the prefix of
  the numbers that \<open>encode\<close> says it wrote.  The proof gives a run its meaning as a list of items
  (\<open>ops_acks\<close>), shows that the decoder computes that meaning, and that the inner loop of the encoder
  keeps a description of what the items written so far stand for.
\<close>

section \<open>The meaning of a run\<close>

definition item_end :: "nat \<Rightarrow> u32 \<Rightarrow> nat" where
  "item_end c n = c + unat n div 2 + 2"

definition item_acks :: "nat \<Rightarrow> u32 \<Rightarrow> nat list" where
  "item_acks c n = (if odd (unat n) then [Suc c..<item_end c n] else [item_end c n])"

fun ops_acks :: "nat \<Rightarrow> u32 list \<Rightarrow> nat list" where
  "ops_acks c [] = []"
| "ops_acks c (n # ns) = item_acks c n @ ops_acks (item_end c n) ns"

definition ops_end :: "nat \<Rightarrow> u32 list \<Rightarrow> nat" where
  "ops_end = foldl item_end"

definition enc_ops :: "u32 list \<Rightarrow> bytes" where
  "enc_ops ns = concat (map (varu32_write []) ns)"

lemma ops_acks_snoc: "ops_acks c (ns @ [n]) = ops_acks c ns @ item_acks (ops_end c ns) n"
  by (induction ns arbitrary: c) (simp_all add: ops_end_def)

lemma ops_end_simps [simp]:
  "ops_end c [] = c" "ops_end c (n # ns) = ops_end (item_end c n) ns"
  "ops_end c (ns @ [n]) = item_end (ops_end c ns) n"
  by (simp_all add: ops_end_def)

lemma ops_end_ge: "c \<le> ops_end c ns"
proof (induction ns arbitrary: c)
  case (Cons n ns)
  have "c \<le> item_end c n" by (simp add: item_end_def)
  also have "\<dots> \<le> ops_end (item_end c n) ns" by (rule Cons.IH)
  finally show ?case by simp
qed simp

lemma enc_ops_simps [simp]:
  "enc_ops [] = []" "enc_ops (n # ns) = varu32_write [] n @ enc_ops ns"
  "enc_ops (ns @ [n]) = enc_ops ns @ varu32_write [] n"
  by (simp_all add: enc_ops_def)

section \<open>The decoder computes the meaning\<close>

lemma add_u32_nat: "a + b < 2 ^ 32 \<Longrightarrow> add_u32 (word_of_nat a) (word_of_nat b) = Some (word_of_nat (a + b))"
  by (simp add: add_u32_def unat_of_nat)

lemma add_u32_one: "Suc a < 2 ^ 32 \<Longrightarrow> add_u32 (word_of_nat a) 1 = Some (word_of_nat (Suc a))"
  using add_u32_nat [of a 1] by simp

lemma decode_set_run_spec:
  "c + k < 2 ^ 32 \<Longrightarrow>
     decode_set_run k (word_of_nat c) = Some (word_of_nat (c + k), map word_of_nat [Suc c..<Suc (c + k)])"
proof (induction k arbitrary: c)
  case (Suc k)
  have "add_u32 (word_of_nat c) 1 = Some (word_of_nat (Suc c))"
    using Suc.prems by (intro add_u32_one) simp
  then show ?case
    using Suc.IH [of "Suc c"] Suc.prems by (simp add: upt_conv_Cons del: upt_Suc)
qed simp

lemma odd_word_and_1: "n AND 1 > 0 \<longleftrightarrow> odd (unat (n :: u32))"
proof -
  have "unat (n AND mask 1) = unat n mod 2" by (simp only: unat_and_mask) simp
  then have "unat (n AND 1) = unat n mod 2" by (simp add: mask_eq_exp_minus_1)
  then show ?thesis by (simp add: word_less_nat_alt odd_iff_mod_2_eq_one)
qed

lemma decode_item_spec:
  assumes "item_end c n < 2 ^ 32"
  shows "decode_item n (word_of_nat c) = Some (word_of_nat (item_end c n), map word_of_nat (item_acks c n))"
proof -
  have l: "unat (drop_bit 1 n) = unat n div 2" by (simp only: unat_drop_bit) simp
  have c: "unat (word_of_nat c :: u32) = c" using assms by (simp add: item_end_def unat_of_nat)
  show ?thesis
  proof (cases "odd (unat n)")
    case True
    let ?k = "unat n div 2 + 1"
    have "decode_set_run ?k (word_of_nat c) = Some (word_of_nat (c + ?k), map word_of_nat [Suc c..<Suc (c + ?k)])"
      by (rule decode_set_run_spec) (use assms in \<open>simp add: item_end_def\<close>)
    moreover have e: "Suc (c + ?k) = item_end c n" by (simp add: item_end_def)
    moreover have "add_u32 (word_of_nat (c + ?k)) 1 = Some (word_of_nat (Suc (c + ?k)))"
      using assms e by (intro add_u32_one) simp
    ultimately show ?thesis
      using True by (simp only: decode_item_def Let_def odd_word_and_1 l item_acks_def) simp
  next
    case False
    have "drop_bit 1 n = word_of_nat (unat n div 2)"
      by (metis l of_nat_unat ucast_id)
    then have "add_u32 (drop_bit 1 n) 2 = Some (word_of_nat (unat n div 2 + 2))"
      using assms add_u32_nat [of "unat n div 2" 2] by (simp only: item_end_def of_nat_numeral)
    moreover have "add_u32 (word_of_nat c) (word_of_nat (unat n div 2 + 2)) = Some (word_of_nat (item_end c n))"
      using assms add_u32_nat [of c "unat n div 2 + 2"] by (simp only: item_end_def add.assoc)
    ultimately show ?thesis
      using False by (simp only: decode_item_def Let_def odd_word_and_1 item_acks_def) simp
  qed
qed

lemma varu32_written_nonempty: "0 < varu32_len n"
  by (simp add: varu32_len_def varusize_len_def)

lemma decode_loop_ops:
  assumes "\<forall>n\<in>set ns. unat n < 2 ^ 30" and "fits_slice (pre @ enc_ops ns)" and "ops_end c ns < 2 ^ 32"
  shows "decode_loop (pre @ enc_ops ns) (length pre) (word_of_nat c) =
           Some (True, length (pre @ enc_ops ns), map word_of_nat (ops_acks c ns))"
  using assms
proof (induction ns arbitrary: pre c)
  case Nil
  then show ?case by (simp add: decode_loop.simps)
next
  case (Cons n ns)
  let ?pre = "pre @ varu32_write [] n"
  have read: "varu32_try_read (pre @ enc_ops (n # ns)) (length pre) = (Some n, length ?pre)"
    using Cons.prems v32.read_at [of n pre "enc_ops ns" "length pre"] by (simp add: v32.length_written)
  have "item_end c n < 2 ^ 32"
    using Cons.prems(3) ops_end_ge [of "item_end c n" ns] by simp
  then have item: "decode_item n (word_of_nat c) = Some (word_of_nat (item_end c n), map word_of_nat (item_acks c n))"
    by (rule decode_item_spec)
  have rest: "decode_loop (?pre @ enc_ops ns) (length ?pre) (word_of_nat (item_end c n)) =
      Some (True, length (?pre @ enc_ops ns), map word_of_nat (ops_acks (item_end c n) ns))"
    using Cons.prems by (intro Cons.IH) simp_all
  have "length pre < length (pre @ enc_ops (n # ns))"
    using varu32_written_nonempty [of n] by (simp add: v32.length_written)
  then show ?case
    using read item rest
    by (subst decode_loop.simps) simp
qed

section \<open>What the encoder has written so far\<close>

text \<open>
  \<open>encoded acks s base buf j e\<close>: behind \<open>base\<close> the buffer holds items that stand for the numbers
  after index \<open>s\<close> and before index \<open>j\<close>, and a decoder is at number \<open>e\<close> afterwards.
\<close>

definition encoded :: "u32 list \<Rightarrow> nat \<Rightarrow> bytes \<Rightarrow> bytes \<Rightarrow> nat \<Rightarrow> nat \<Rightarrow> bool" where
  "encoded acks s base buf j e \<longleftrightarrow> s < j \<and> j \<le> length acks \<and>
     (\<exists>ns. buf = base @ enc_ops ns \<and> (\<forall>n\<in>set ns. unat n < 2 ^ 30) \<and>
           ops_acks (unat (acks ! s)) ns = map (\<lambda>k. unat (acks ! k)) [Suc s..<j] \<and>
           ops_end (unat (acks ! s)) ns = e)"

text \<open>The invariant of the inner loop at index \<open>i\<close> with \<open>run\<close> numbers pending.\<close>

definition run_inv :: "u32 list \<Rightarrow> nat \<Rightarrow> bytes \<Rightarrow> nat \<Rightarrow> bytes \<Rightarrow> nat \<Rightarrow> nat \<Rightarrow> bool" where
  "run_inv acks s base max_len buf i run \<longleftrightarrow> run < i \<and> i \<le> length acks \<and> length buf \<le> max_len \<and>
     (\<exists>e. encoded acks s base buf (i - run) e \<and> e \<le> unat (acks ! (i - run - 1)) + 1 \<and> e + run = unat (acks ! (i - 1)) \<and>
          (\<forall>k<run. unat (acks ! (i - run + k)) = e + 1 + k))"

text \<open>What the run has when its loop is left: everything before index \<open>i\<close> is written.\<close>

definition run_done :: "u32 list \<Rightarrow> nat \<Rightarrow> bytes \<Rightarrow> nat \<Rightarrow> bytes \<Rightarrow> nat \<Rightarrow> bool" where
  "run_done acks s base max_len buf i \<longleftrightarrow> length buf \<le> max_len \<and>
     (\<exists>e. encoded acks s base buf i e \<and> e \<le> unat (acks ! (i - 1)) + 1)"

lemma encoded_snoc:
  assumes "encoded acks s base buf j e" and "unat n < 2 ^ 30" and "j' \<le> length acks" and "j \<le> j'"
    and "item_acks e n = map (\<lambda>k. unat (acks ! k)) [j..<j']"
  shows "encoded acks s base (varu32_write buf n) j' (item_end e n)"
proof -
  from assms(1) obtain ns where ns: "buf = base @ enc_ops ns" "\<forall>n\<in>set ns. unat n < 2 ^ 30"
    "ops_acks (unat (acks ! s)) ns = map (\<lambda>k. unat (acks ! k)) [Suc s..<j]"
    "ops_end (unat (acks ! s)) ns = e" and s: "s < j"
    by (auto simp: encoded_def)
  have "[Suc s..<j'] = [Suc s..<j] @ [j..<j']"
    using s assms(4) upt_add_eq_append [of "Suc s" j "j' - j"] by simp
  then have "ops_acks (unat (acks ! s)) (ns @ [n]) = map (\<lambda>k. unat (acks ! k)) [Suc s..<j']"
    using ns assms(5) by (simp add: ops_acks_snoc)
  moreover have "varu32_write buf n = base @ enc_ops (ns @ [n])"
    by (simp add: ns v32.write_append [of buf n]) (metis ns(1) append_assoc v32.write_append)
  moreover have "\<forall>m\<in>set (ns @ [n]). unat m < 2 ^ 30" using ns assms(2) by simp
  moreover have "ops_end (unat (acks ! s)) (ns @ [n]) = item_end e n" by (simp add: ns)
  ultimately show ?thesis
    using s assms(3,4) unfolding encoded_def by (meson order_less_le_trans)
qed

lemma unat_set_run_code:
  assumes "0 < unat run" and "unat run \<le> 2 ^ 29"
  shows "unat (set_run_code run) = 2 * (unat run - 1) + 1"
proof -
  have r: "unat (run - 1) = unat run - 1"
    using assms(1) by (simp add: unat_sub word_le_nat_alt)
  have "unat (push_bit 1 (run - 1)) = unat (run - 1) * 2 ^ 1"
    by (rule unat_push_bit) (use assms r in simp)
  then have p: "unat (push_bit 1 (run - 1)) = 2 * (unat run - 1)" using r by simp
  have "unat (set_run_code run) = unat (push_bit 1 (run - 1)) OR 1"
    by (simp only: set_run_code_def unsigned_or_eq unsigned_1)
  also have "\<dots> = 2 * (unat run - 1) + 1"
    by (simp only: p or_one_eq) simp
  finally show ?thesis .
qed

lemma encoded_flush:
  assumes inv: "run_inv acks s base max_len buf i (unat run)" and "0 < unat run" and "unat run \<le> 2 ^ 29"
  shows "encoded acks s base (varu32_write buf (set_run_code run)) i (unat (acks ! (i - 1)) + 1)"
proof -
  let ?r = "unat run"
  from inv obtain e where e: "encoded acks s base buf (i - ?r) e" "e + ?r = unat (acks ! (i - 1))"
    "\<forall>k<?r. unat (acks ! (i - ?r + k)) = e + 1 + k" and i: "?r < i" "i \<le> length acks"
    by (auto simp: run_inv_def)
  have n: "unat (set_run_code run) = 2 * (?r - 1) + 1" by (rule unat_set_run_code) fact+
  then have "item_end e (set_run_code run) = unat (acks ! (i - 1)) + 1"
    using assms(2) e(2) by (simp add: item_end_def)
  moreover have "item_acks e (set_run_code run) = map (\<lambda>k. unat (acks ! k)) [i - ?r..<i]"
    using n e assms(2) i by (intro nth_equalityI) (auto simp: item_acks_def item_end_def simp del: upt_Suc)
  ultimately show ?thesis
    using encoded_snoc [OF e(1), of "set_run_code run" i] n assms(3) i by simp
qed

lemma encoded_unset:
  assumes "encoded acks s base buf i e" and "i < length acks" and "e + 2 \<le> unat (acks ! i)"
    and "unat n = 2 * (unat (acks ! i) - e - 2)" and "unat n < 2 ^ 30"
  shows "encoded acks s base (varu32_write buf n) (Suc i) (unat (acks ! i))"
  using encoded_snoc [OF assms(1,5), of "Suc i"] assms by (simp add: item_acks_def item_end_def)

definition iter_ok :: "u32 list \<Rightarrow> nat \<Rightarrow> bytes \<Rightarrow> nat \<Rightarrow> nat \<Rightarrow> run_step \<Rightarrow> bool" where
  "iter_ok acks s base max_len i r =
     (case r of Continue buf run \<Rightarrow> run_inv acks s base max_len buf (i + 1) (unat run)
              | Break buf i' \<Rightarrow> run_done acks s base max_len buf i')"

lemma run_inv_fresh:
  assumes "encoded acks s base buf (Suc i) (unat (acks ! i))" and "length buf \<le> max_len"
  shows "run_inv acks s base max_len buf (Suc i) 0"
  using assms by (auto simp: run_inv_def encoded_def)

lemma unat_half_max: "unat (drop_bit 1 VARINT_U32_MAX) = 2 ^ 29 - 1"
  by (simp add: VARINT_U32_MAX_def)

lemma finish_unset_ok:
  assumes enc: "encoded acks s base buf i e" and i: "i < length acks" and le: "e \<le> unat (acks ! (i - 1)) + 1"
    and diff: "unat diff = unat (acks ! i) - e" "2 \<le> unat diff" and buf: "length buf \<le> max_len"
  shows "\<exists>r. finish_unset max_len buf i diff = Some r \<and> iter_ok acks s base max_len i r"
proof -
  let ?n = "push_bit 1 (diff - 2)"
  have sub: "sub_u32 diff 2 = Some (diff - 2)" "unat (diff - 2) = unat diff - 2"
    using diff(2) by (simp_all add: sub_u32_def word_le_nat_alt unat_sub)
  have stop: "run_done acks s base max_len buf i"
    using enc le buf by (auto simp: run_done_def)
  show ?thesis
  proof (cases "diff - 2 > drop_bit 1 VARINT_U32_MAX \<or> length buf + varu32_len ?n > max_len")
    case True
    then show ?thesis
      using stop sub by (auto simp: finish_unset_def encode_unset_def iter_ok_def Let_def)
  next
    case False
    then have small: "unat (diff - 2) \<le> 2 ^ 29 - 1"
      by (simp only: word_less_nat_alt unat_half_max) simp
    have "unat ?n = unat (diff - 2) * 2 ^ 1"
      by (rule unat_push_bit) (use small in simp)
    then have n: "unat ?n = 2 * (unat (acks ! i) - e - 2)" "unat ?n < 2 ^ 30"
      using small sub diff by simp_all
    have enc': "encoded acks s base (varu32_write buf ?n) (Suc i) (unat (acks ! i))"
      by (rule encoded_unset [OF enc i _ n]) (use diff in simp)
    then have "run_done acks s base max_len (varu32_write buf ?n) (Suc i)"
      and "run_inv acks s base max_len (varu32_write buf ?n) (Suc i) 0"
      using False run_inv_fresh [OF enc'] by (auto simp: run_done_def v32.length_write)
    then show ?thesis
      using False sub by (simp add: finish_unset_def encode_unset_def iter_ok_def Let_def)
  qed
qed

text \<open>The next number continues the run.\<close>

lemma run_inv_extend:
  assumes inv: "run_inv acks s base max_len buf i (unat run)" and i: "i < length acks"
    and up: "unat (acks ! i) = Suc (unat (acks ! (i - 1)))" and less: "unat run < 2 ^ 29"
  shows "run_inv acks s base max_len buf (i + 1) (unat (run + 1)) \<and> add_u32 run 1 = Some (run + 1)"
proof -
  from inv obtain e where e: "encoded acks s base buf (i - unat run) e" "e + unat run = unat (acks ! (i - 1))"
    "\<forall>k<unat run. unat (acks ! (i - unat run + k)) = e + 1 + k"
    and ri: "unat run < i" and buf: "length buf \<le> max_len" and le: "e \<le> unat (acks ! (i - unat run - 1)) + 1"
    by (auto simp: run_inv_def)
  have a: "add_u32 run 1 = Some (run + 1)" "unat (run + 1) = Suc (unat run)"
    using less by (simp_all add: add_u32_def unat_word_ariths)
  have "unat (acks ! (i - unat run + k)) = e + 1 + k" if "k < Suc (unat run)" for k
    using that e(2,3) up ri by (cases "k = unat run") auto
  then show ?thesis using e up ri i buf le by (auto simp: run_inv_def a simp del: Suc_eq_plus1)
qed

text \<open>The run ends before a gap: its length is written.\<close>

lemma encode_iter_flush:
  assumes inv: "run_inv acks s base max_len buf i (unat run)" and i: "i < length acks" and r29: "unat run < 2 ^ 29"
    and up: "unat (acks ! (i - 1)) + 2 \<le> unat (acks ! i)" and run: "0 < unat run"
  shows "\<exists>r. encode_iter acks max_len buf i run = Some r \<and> iter_ok acks s base max_len i r"
proof -
  let ?d = "acks ! i - acks ! (i - 1)" and ?n = "set_run_code run"
  let ?b = "varu32_write buf ?n" and ?e = "unat (acks ! (i - 1)) + 1"
  have sub: "sub_u32 (acks ! i) (acks ! (i - 1)) = Some ?d" and d: "unat ?d = unat (acks ! i) - unat (acks ! (i - 1))"
    using up by (simp_all add: sub_u32_def word_le_nat_alt unat_sub)
  have d2: "2 \<le> unat ?d" using d up by linarith
  have fl: "encoded acks s base ?b i ?e" using inv run r29 by (intro encoded_flush) simp_all
  have d1: "unat (?d - 1) = unat ?d - 1" using d2 by (simp add: unat_sub word_le_nat_alt)
  have ri: "unat run < i" using inv by (auto simp: run_inv_def)
  note base = encode_iter_def iter_ok_def word_le_nat_alt word_less_nat_alt Let_def
  consider (full) "length buf + varu32_len ?n > max_len" | (exact) "length buf + varu32_len ?n = max_len"
    | (one) "length buf + varu32_len ?n < max_len" "unat ?d = 2" | (more) "length buf + varu32_len ?n < max_len" "2 < unat ?d"
    using d2 by linarith
  then show ?thesis
  proof cases
    case full
    have "run_done acks s base max_len buf (i - unat run)" using inv by (auto simp: run_inv_def run_done_def)
    then show ?thesis using full d2 run sub ri by (simp add: base checked_sub_def)
  next
    case exact
    then have "run_done acks s base max_len ?b i" using fl by (auto simp: run_done_def v32.length_write)
    then show ?thesis using exact d2 run sub by (simp add: base)
  next
    case one
    then have "run_inv acks s base max_len ?b (i + 1) 1" using fl d up i ri by (auto simp: run_inv_def v32.length_write)
    then show ?thesis using one run sub d1 by (simp add: base)
  next
    case more
    have "\<exists>r. finish_unset max_len ?b i (?d - 1) = Some r \<and> iter_ok acks s base max_len i r"
      using fl d d1 up i more by (intro finish_unset_ok [of _ _ _ _ _ ?e]) (simp_all add: v32.length_write, linarith?)
    moreover have "\<not> unat (?d - 1) \<le> 1" using more d1 by linarith
    ultimately show ?thesis using more run sub by (simp add: base)
  qed
qed

lemma encode_iter_ok:
  assumes inv: "run_inv acks s base max_len buf i (unat run)" and i: "i < length acks"
    and up: "unat (acks ! (i - 1)) < unat (acks ! i)" and len: "length acks \<le> 2 ^ 29"
  shows "\<exists>r. encode_iter acks max_len buf i run = Some r \<and> iter_ok acks s base max_len i r"
proof -
  let ?d = "acks ! i - acks ! (i - 1)"
  have sub: "sub_u32 (acks ! i) (acks ! (i - 1)) = Some ?d"
    and d: "unat ?d = unat (acks ! i) - unat (acks ! (i - 1))"
    using up by (simp_all add: sub_u32_def word_le_nat_alt unat_sub)
  have r29: "unat run < 2 ^ 29" using inv i len by (simp add: run_inv_def)
  consider (run) "unat ?d = 1" | (gap) "2 \<le> unat ?d" "unat run = 0" | (flush) "2 \<le> unat ?d" "0 < unat run"
    using d up by linarith
  then show ?thesis
  proof cases
    case run
    then have "unat (acks ! i) = Suc (unat (acks ! (i - 1)))" using d up by simp
    from run_inv_extend [OF inv i this r29] show ?thesis
      using run sub by (simp add: encode_iter_def iter_ok_def word_le_nat_alt)
  next
    case gap
    then have "\<exists>r. finish_unset max_len buf i ?d = Some r \<and> iter_ok acks s base max_len i r"
      using inv d i by (intro finish_unset_ok [of _ _ _ _ _ "unat (acks ! (i - 1))"]) (auto simp: run_inv_def)
    then show ?thesis
      using gap sub by (simp add: encode_iter_def word_le_nat_alt word_less_nat_alt)
  next
    case flush
    then show ?thesis using d up by (intro encode_iter_flush [OF inv i r29]) simp_all
  qed
qed

lemma encode_tail_ok:
  assumes inv: "run_inv acks s base max_len buf i (unat run)" and len: "length acks \<le> 2 ^ 29"
  shows "\<exists>buf' i'. encode_tail max_len buf i run = Some (buf', i') \<and> run_done acks s base max_len buf' i'"
proof -
  from inv obtain e where e: "encoded acks s base buf (i - unat run) e"
    "e \<le> unat (acks ! (i - unat run - 1)) + 1" "e + unat run = unat (acks ! (i - 1))"
    and ri: "unat run < i" "i \<le> length acks" and buf: "length buf \<le> max_len"
    by (auto simp: run_inv_def)
  have undo: "run_done acks s base max_len buf (i - unat run)"
    using e buf by (auto simp: run_done_def)
  show ?thesis
  proof (cases "unat run = 0")
    case True
    then show ?thesis using undo by (simp add: encode_tail_def word_less_nat_alt)
  next
    case False
    then have fl: "encoded acks s base (varu32_write buf (set_run_code run)) i (unat (acks ! (i - 1)) + 1)"
      using inv ri len by (intro encoded_flush) simp_all
    show ?thesis
      using False undo fl ri
      by (auto simp: encode_tail_def word_less_nat_alt Let_def checked_sub_def run_done_def v32.length_write)
  qed
qed

lemma sorted_acks_nth:
  assumes "sorted_wrt (<) acks" and "i < j" and "j < length acks"
  shows "unat (acks ! i) < unat (acks ! j :: u32)"
  using sorted_wrt_nth_less [OF assms] by (simp add: word_less_nat_alt)

text \<open>One whole run: the inner loop and the pending numbers it leaves.\<close>

lemma encode_run_ok:
  assumes sorted: "sorted_wrt (<) acks" and len: "length acks \<le> 2 ^ 29"
    and inv: "run_inv acks s base max_len buf i (unat run)"
  shows "\<exists>buf1 i1 run1 buf2 i2. encode_run acks max_len buf i run = Some (buf1, i1, run1) \<and>
       encode_tail max_len buf1 i1 run1 = Some (buf2, i2) \<and> run_done acks s base max_len buf2 i2"
  using inv
proof (induction "length acks - i" arbitrary: buf i run rule: less_induct)
  case less
  note unfold = encode_run.simps [of acks max_len buf i run]
  show ?case
  proof (cases "i < length acks")
    case False
    then show ?thesis using encode_tail_ok [OF less.prems len] by (simp add: unfold)
  next
    case True
    have "0 < i" using less.prems by (auto simp: run_inv_def)
    then have "unat (acks ! (i - 1)) < unat (acks ! i)"
      using True by (intro sorted_acks_nth [OF sorted]) simp_all
    then obtain r where r: "encode_iter acks max_len buf i run = Some r" "iter_ok acks s base max_len i r"
      using encode_iter_ok [OF less.prems True _ len] by auto
    show ?thesis
    proof (cases r)
      case (Continue b run1)
      then show ?thesis
        using less.hyps [of "i + 1" b run1] r True by (simp add: unfold iter_ok_def)
    next
      case (Break b i1)
      then show ?thesis
        using r True by (simp add: unfold iter_ok_def encode_tail_def)
    qed
  qed
qed

section \<open>Frames\<close>

definition run_frame :: "u32 \<Rightarrow> bytes \<Rightarrow> bytes" where
  "run_frame first items =
     (if items = [] then VARIANT_ACK_SINGLE # to_be_bytes first
      else VARIANT_ACK_RUN # to_be_bytes first @ word_of_nat (length items - 1) # items)"

lemma decode_run_step:
  assumes "i + 5 + l \<le> length buf" and "take 4 (drop i buf) = to_be_bytes a" and "unat (buf ! (i + 4)) + 1 = l"
    and "decode_loop (take (i + 5 + l) buf) (i + 5) a = Some (ok, j, rest)"
  shows "decode buf True i = Some (ok, j, a # rest)"
proof -
  have "i + 4 + 1 + l = i + 5 + l" "i + 4 + 1 = i + 5" by simp_all
  then show ?thesis
    using assms by (simp only: decode_def Let_def from_be_to_be of_bool_eq) (simp add: from_be_to_be)
qed

lemma decode_run_frame:
  assumes items: "\<forall>n\<in>set ns. unat n < 2 ^ 30" "length (enc_ops ns) \<le> 256" "ops_end (unat a) ns < 2 ^ 32"
    and fits: "fits_slice (pre @ run_frame a (enc_ops ns) @ post)"
  shows "decode (pre @ run_frame a (enc_ops ns) @ post)
           ((pre @ run_frame a (enc_ops ns) @ post) ! length pre = VARIANT_ACK_RUN) (length pre + 1) =
         Some (True, length pre + length (run_frame a (enc_ops ns)), a # map word_of_nat (ops_acks (unat a) ns))"
proof (cases "enc_ops ns = []")
  case True
  then have "ns = []"
    by (cases ns) (use varu32_written_nonempty in \<open>simp_all add: v32.length_written [symmetric]\<close>)
  then show ?thesis
    by (simp add: run_frame_def decode_def VARIANT_ACK_SINGLE_def VARIANT_ACK_RUN_def Let_def from_be_to_be)
next
  case False
  let ?l = "word_of_nat (length (enc_ops ns) - 1) :: u8"
  define hd where "hd = pre @ VARIANT_ACK_RUN # to_be_bytes a @ [?l]"
  define B where "B = hd @ enc_ops ns @ post"
  have lh: "length hd = length pre + 6" by (simp add: hd_def)
  have "length (enc_ops ns) > 0" using False by simp
  then have l: "unat ?l + 1 = length (enc_ops ns)"
    using items(2) by (simp add: unat_of_nat)
  have B: "pre @ run_frame a (enc_ops ns) @ post = B"
    using False by (simp add: run_frame_def hd_def B_def)
  have "decode_loop (hd @ enc_ops ns) (length hd) (word_of_nat (unat a)) =
      Some (True, length (hd @ enc_ops ns), map word_of_nat (ops_acks (unat a) ns))"
    by (rule decode_loop_ops) (use items fits B in \<open>simp_all add: fits_slice_def B_def\<close>)
  moreover have "take (length pre + 6 + length (enc_ops ns)) B = hd @ enc_ops ns"
    by (simp add: B_def lh)
  moreover have "take 4 (drop (length pre + 1) B) = to_be_bytes a" and v: "B ! length pre = VARIANT_ACK_RUN"
    by (simp_all add: B_def hd_def nth_append)
  moreover have "B ! (length pre + 1 + 4) = ?l" by (simp add: B_def hd_def nth_append)
  moreover have n: "length pre + 1 + 5 + length (enc_ops ns) = length pre + 6 + length (enc_ops ns)"
    "length pre + 1 + 5 = length pre + 6" by simp_all
  moreover have "length B = length pre + 6 + length (enc_ops ns) + length post" by (simp add: B_def lh)
  ultimately have "decode B True (length pre + 1) =
      Some (True, length (hd @ enc_ops ns), a # map word_of_nat (ops_acks (unat a) ns))"
    using l lh by (intro decode_run_step [of _ "length (enc_ops ns)"]) (simp_all only: n, simp_all)
  moreover have "length (hd @ enc_ops ns) = length pre + length (run_frame a (enc_ops ns))"
    using False by (simp add: run_frame_def lh)
  ultimately show ?thesis
    unfolding B using v by simp
qed

lemma decode_frames_Cons:
  assumes "decode buf (buf ! length pre = VARIANT_ACK_RUN) (length pre + 1) = Some (True, length pre + n, acks)"
    and "0 < n" and "length pre < length buf"
  shows "decode_frames buf (length pre) =
    (case decode_frames buf (length pre + n) of None \<Rightarrow> None | Some rest \<Rightarrow> Some (acks @ rest))"
  using assms by (subst decode_frames.simps) simp

text \<open>A finished run is a frame that stands for the numbers from its start to the index reached.\<close>

lemma run_done_frame:
  assumes fin: "run_done acks s base max_len buf j" and base: "length base + 256 \<ge> max_len"
    and last: "\<forall>a\<in>set acks. unat a < 2 ^ 32 - 1"
  obtains ns where "buf = base @ enc_ops ns" and "\<forall>n\<in>set ns. unat n < 2 ^ 30"
    and "length (enc_ops ns) \<le> 256" and "ops_end (unat (acks ! s)) ns < 2 ^ 32"
    and "acks ! s # map word_of_nat (ops_acks (unat (acks ! s)) ns) = map ((!) acks) [s..<j]"
    and "s < j" and "j \<le> length acks"
proof -
  from fin obtain e ns where e: "e \<le> unat (acks ! (j - 1)) + 1" "ops_end (unat (acks ! s)) ns = e"
    and ns: "buf = base @ enc_ops ns" "\<forall>n\<in>set ns. unat n < 2 ^ 30"
      "ops_acks (unat (acks ! s)) ns = map (\<lambda>k. unat (acks ! k)) [Suc s..<j]"
    and j: "s < j" "j \<le> length acks" and len: "length buf \<le> max_len"
    by (auto simp: run_done_def encoded_def)
  have "unat (acks ! (j - 1)) < 2 ^ 32 - 1" using last j by simp
  moreover have "acks ! s # map word_of_nat (ops_acks (unat (acks ! s)) ns) = map ((!) acks) [s..<j]"
    using j by (simp add: ns(3) comp_def upt_conv_Cons)
  ultimately show thesis
    using that [of ns] e ns j len base by simp
qed

lemma length_items: "length (enc_ops ns) \<le> 4 * length (ops_acks c ns)" if "\<forall>n\<in>set ns. unat n < 2 ^ 30"
  using that
proof (induction ns arbitrary: c)
  case (Cons n ns)
  have "length (varu32_write [] n) \<le> 4"
    using Cons.prems by (simp add: v32.length_written varu32_len_def varusize_len_def VARINT_U32_MAX_def
        word_le_nat_alt unat_ucast_le)
  moreover have "1 \<le> length (item_acks c n)" by (simp add: item_acks_def item_end_def)
  ultimately show ?case using Cons.IH [of "item_end c n"] Cons.prems by simp
qed simp

lemma finish_run_frame:
  fixes buf items :: bytes and a :: u32
  defines "full \<equiv> (buf @ [VARIANT_ACK_RUN] @ to_be_bytes a @ [0]) @ items"
  shows "items = [] \<Longrightarrow> (butlast full)[length buf := VARIANT_ACK_SINGLE] = buf @ run_frame a items"
    and "items \<noteq> [] \<Longrightarrow> full[length buf + 5 := word_of_nat (length full - (length buf + 5) - 2)] = buf @ run_frame a items"
  by (simp_all add: full_def run_frame_def butlast_append list_update_append)

lemma encode_loop_step:
  assumes sorted: "sorted_wrt (<) acks" and len: "length acks \<le> 2 ^ 29"
    and last: "\<forall>a\<in>set acks. unat a < 2 ^ 32 - 1"
    and i: "i < length acks" and cap: "length buf + 6 \<le> capacity"
  obtains ns j where "encode_loop acks capacity buf i =
        encode_loop acks capacity (buf @ run_frame (acks ! i) (enc_ops ns)) j"
    and "\<forall>n\<in>set ns. unat n < 2 ^ 30"
    and "length (enc_ops ns) \<le> 256" and "ops_end (unat (acks ! i)) ns < 2 ^ 32"
    and "acks ! i # map word_of_nat (ops_acks (unat (acks ! i)) ns) = map ((!) acks) [i..<j]"
    and "i < j" and "j \<le> length acks" and "length (buf @ run_frame (acks ! i) (enc_ops ns)) \<le> capacity"
    and "length (run_frame (acks ! i) (enc_ops ns)) \<le> 5 * (j - i)"
proof -
  define base where "base = buf @ [VARIANT_ACK_RUN] @ to_be_bytes (acks ! i) @ [0]"
  define max_len where "max_len = min capacity (length base + 255 + 1)"
  have lb: "length base = length buf + 6" by (simp add: base_def)
  have enc: "encoded acks i base base (Suc i) (unat (acks ! i))"
    using i by (auto simp: encoded_def intro!: exI [of _ "[]"])
  have "run_inv acks i base max_len base (Suc i) (unat (0 :: u32))"
    using run_inv_fresh [OF enc, of max_len] cap by (simp add: max_len_def lb)
  then obtain buf1 i1 run1 buf2 j where
    run: "encode_run acks max_len base (Suc i) 0 = Some (buf1, i1, run1)"
      "encode_tail max_len buf1 i1 run1 = Some (buf2, j)" and fin: "run_done acks i base max_len buf2 j"
    using encode_run_ok [OF sorted len] by blast
  obtain ns where ns: "buf2 = base @ enc_ops ns" "\<forall>n\<in>set ns. unat n < 2 ^ 30"
    "length (enc_ops ns) \<le> 256" "ops_end (unat (acks ! i)) ns < 2 ^ 32"
    "acks ! i # map word_of_nat (ops_acks (unat (acks ! i)) ns) = map ((!) acks) [i..<j]"
    "i < j" "j \<le> length acks"
    by (rule run_done_frame [OF fin _ last]) (simp_all add: max_len_def)
  have "length (ops_acks (unat (acks ! i)) ns) = j - i - 1"
    using arg_cong [OF ns(5), of length] by simp
  then have items: "length (enc_ops ns) \<le> 4 * (j - i - 1)"
    using length_items [OF ns(2), of "unat (acks ! i)"] by simp
  have "length buf2 \<le> capacity" using fin by (simp add: run_done_def max_len_def)
  then have "length (buf @ run_frame (acks ! i) (enc_ops ns)) \<le> capacity"
    using ns(1) lb by (simp add: run_frame_def)
  moreover have "length (run_frame (acks ! i) (enc_ops ns)) \<le> 5 * (j - i)"
  proof (cases "enc_ops ns = []")
    case True
    then show ?thesis using ns(6) by (simp add: run_frame_def)
  next
    case False
    then have "j - i - 1 \<noteq> 0" using items by (intro notI) simp
    then show ?thesis using False items by (simp add: run_frame_def)
  qed
  moreover have "encode_loop acks capacity buf i =
        encode_loop acks capacity (buf @ run_frame (acks ! i) (enc_ops ns)) j"
    using i cap run finish_run_frame [of "enc_ops ns" buf "acks ! i"]
    by (subst encode_loop.simps) (simp add: Let_def base_def max_len_def ns(1))
  ultimately show thesis by (intro that [of ns j] ns(2-7))
qed

text \<open>A number alone in the last five bytes.\<close>

lemma decode_single_frame:
  assumes "length buf + 5 < 2 ^ 63"
  shows "decode_frames (buf @ run_frame a (enc_ops [])) (length buf) = Some [a]"
proof -
  let ?fr = "run_frame a (enc_ops [])"
  have "decode (buf @ ?fr @ []) ((buf @ ?fr @ []) ! length buf = VARIANT_ACK_RUN) (length buf + 1) =
      Some (True, length buf + length ?fr, [a])"
    using decode_run_frame [of "[]" a buf "[]"] assms order.strict_trans2 [OF unsigned_less [of a], of "2 ^ 32"]
    by (simp add: fits_slice_def run_frame_def)
  then show ?thesis
    using decode_frames_Cons [of "buf @ ?fr" buf "length ?fr"]
    by (simp add: decode_frames.simps [of _ "length buf + length ?fr"]) (simp add: run_frame_def decode_frames.simps)
qed

lemma encode_loop_ok:
  assumes sorted: "sorted_wrt (<) acks" and len: "length acks \<le> 2 ^ 29"
    and last: "\<forall>a\<in>set acks. unat a < 2 ^ 32 - 1" and cap: "max (length buf) capacity < 2 ^ 63"
    and i: "i \<le> length acks"
  shows "\<exists>fr j. encode_loop acks capacity buf i = Some (buf @ fr, j) \<and> i \<le> j \<and> j \<le> length acks \<and>
           length (buf @ fr) \<le> max (length buf) capacity \<and>
           decode_frames (buf @ fr) (length buf) = Some (map ((!) acks) [i..<j]) \<and>
           (length buf + 5 * (length acks - i) + 1 \<le> capacity \<longrightarrow> j = length acks)"
  using i cap
proof (induction "length acks - i" arbitrary: buf i rule: less_induct)
  case less
  have none: "decode_frames buf (length buf) = Some []" by (simp add: decode_frames.simps)
  note unfold = encode_loop.simps [of acks capacity buf i]
  consider (fin) "i = length acks" | (short) "i < length acks" "length buf + 5 > capacity"
    | (single) "i < length acks" "length buf + 5 = capacity" | (run) "i < length acks" "length buf + 6 \<le> capacity"
    using less.prems by linarith
  then show ?case
  proof cases
    case fin
    have "encode_loop acks capacity buf i = Some (buf, i)" using fin by (subst unfold) simp
    then show ?thesis using none fin by (intro exI [of _ "[]"] exI [of _ i]) simp
  next
    case short
    then show ?thesis using none by (intro exI [of _ "[]"] exI [of _ i]) (simp add: unfold)
  next
    case single
    let ?fr = "run_frame (acks ! i) (enc_ops [])"
    have "decode_frames (buf @ ?fr) (length buf) = Some [acks ! i]" using single less.prems by (intro decode_single_frame) simp
    moreover have "\<not> length buf + 5 * (length acks - i) + 1 \<le> capacity" using single by linarith
    ultimately show ?thesis
      using single by (intro exI [of _ ?fr] exI [of _ "i + 1"])
        (simp add: unfold Let_def run_frame_def list_update_append)
  next
    case run
    obtain ns j where step: "encode_loop acks capacity buf i =
          encode_loop acks capacity (buf @ run_frame (acks ! i) (enc_ops ns)) j"
      and ns: "\<forall>n\<in>set ns. unat n < 2 ^ 30" "length (enc_ops ns) \<le> 256" "ops_end (unat (acks ! i)) ns < 2 ^ 32"
      and val: "acks ! i # map word_of_nat (ops_acks (unat (acks ! i)) ns) = map ((!) acks) [i..<j]"
      and j: "i < j" "j \<le> length acks" and room: "length (buf @ run_frame (acks ! i) (enc_ops ns)) \<le> capacity"
      and small: "length (run_frame (acks ! i) (enc_ops ns)) \<le> 5 * (j - i)"
      by (rule encode_loop_step [OF sorted len last run])
    let ?fr = "run_frame (acks ! i) (enc_ops ns)"
    obtain fr k where rest: "encode_loop acks capacity (buf @ ?fr) j = Some ((buf @ ?fr) @ fr, k)"
        "j \<le> k" "k \<le> length acks" "length ((buf @ ?fr) @ fr) \<le> max (length (buf @ ?fr)) capacity"
        "decode_frames ((buf @ ?fr) @ fr) (length (buf @ ?fr)) = Some (map ((!) acks) [j..<k])"
        "length (buf @ ?fr) + 5 * (length acks - j) + 1 \<le> capacity \<longrightarrow> k = length acks"
      using less.hyps [OF diff_less_mono2 [OF j(1) run(1)], of "buf @ ?fr"] j run less.prems room by auto
    have "decode (buf @ ?fr @ fr) ((buf @ ?fr @ fr) ! length buf = VARIANT_ACK_RUN) (length buf + 1) =
        Some (True, length buf + length ?fr, map ((!) acks) [i..<j])"
      using decode_run_frame [OF ns, of buf fr] less.prems rest(4) room by (simp add: val fits_slice_def)
    moreover have "0 < length ?fr" by (simp add: run_frame_def)
    moreover have "[i..<k] = [i..<j] @ [j..<k]"
      using j rest(2) upt_add_eq_append [of i j "k - j"] by simp
    ultimately have "decode_frames (buf @ ?fr @ fr) (length buf) = Some (map ((!) acks) [i..<k])"
      using decode_frames_Cons [of "buf @ ?fr @ fr" buf "length ?fr"] rest(5) by simp
    then show ?thesis
      using step rest j room small run
      by (intro exI [of _ "?fr @ fr"] exI [of _ k]) auto
  qed
qed

section \<open>Properties\<close>

text \<open>
  C18. Acknowledgements survive the wire.  For a strictly increasing list of packet numbers below
  \<open>u32::MAX\<close> that the 32-bit counters can index, \<open>encode\<close> appends frames to the buffer without a
  panic, stays within the capacity, and returns how many numbers it wrote; reading the frames back
  with \<open>decode\<close> reports exactly those numbers, in order, each once.  When the capacity leaves five bytes for
  every number and one more, all numbers are written.
\<close>

theorem encode_decode_acks:
  assumes "sorted_wrt (<) acks" and "length acks \<le> 2 ^ 29" and "\<forall>a\<in>set acks. unat a < 2 ^ 32 - 1"
    and "max (length buf) capacity < 2 ^ 63"
  shows "\<exists>frames n. encode buf acks capacity = Some (buf @ frames, n) \<and> n \<le> length acks \<and>
           length (buf @ frames) \<le> max (length buf) capacity \<and>
           decode_frames (buf @ frames) (length buf) = Some (take n acks) \<and>
           (length buf + 5 * length acks + 1 \<le> capacity \<longrightarrow> n = length acks)"
proof -
  have "map ((!) acks) [0..<n] = take n acks" if "n \<le> length acks" for n
    using that by (intro nth_equalityI) simp_all
  then show ?thesis
    using encode_loop_ok [OF assms, of 0] by (auto simp: encode_def)
qed

theorem encode_decode_acks_witness:
  "\<exists>frames. encode [] [3, 4, 9] 100 = Some (frames, 3) \<and> decode_frames frames 0 = Some [3, 4, 9]"
  using encode_decode_acks [of "[3, 4, 9]" "[]" 100] by auto

lemma decode_set_run_overflow: "2 ^ 32 \<le> unat c + k \<Longrightarrow> decode_set_run k c = None"
proof (induction k arbitrary: c)
  case 0
  then show ?case using unsigned_less [of c, where ?'a = nat] by simp
next
  case (Suc k)
  show ?case
  proof (cases "add_u32 c 1")
    case (Some d)
    then show ?thesis using Suc.IH [of d] Suc.prems unat_add_u32 [OF Some] by simp
  qed simp
qed

lemma decode_item_overflow:
  assumes "2 ^ 32 \<le> unat c + unat n div 2 + 2"
  shows "decode_item n c = None"
proof -
  have l: "unat (drop_bit 1 n) = unat n div 2" by (simp only: unat_drop_bit) simp
  show ?thesis
  proof (cases "odd (unat n)")
    case True
    show ?thesis
    proof (cases "decode_set_run (unat n div 2 + 1) c")
      case None
      then show ?thesis using True by (simp only: decode_item_def Let_def odd_word_and_1 l) simp
    next
      case (Some r)
      define m where "m = unat c + (unat n div 2 + 1)"
      have m: "m < 2 ^ 32"
        using Some m_def decode_set_run_overflow [of c "unat n div 2 + 1"] by fastforce
      have "r = (word_of_nat m, map word_of_nat [Suc (unat c)..<Suc m])"
        using decode_set_run_spec [of "unat c" "unat n div 2 + 1"] Some m by (simp add: m_def)
      moreover have "add_u32 (word_of_nat m) 1 = None"
        using assms m by (simp add: add_u32_def unat_of_nat) (simp add: m_def)
      ultimately show ?thesis
        using True Some by (simp only: decode_item_def Let_def odd_word_and_1 l) simp
    qed
  next
    case False
    show ?thesis
    proof (cases "add_u32 (drop_bit 1 n) 2")
      case (Some d)
      have "unat d = unat n div 2 + 2" using unat_add_u32 [OF Some] by (simp only: l) simp
      then have "add_u32 c d = None" using assms by (simp add: add_u32_def)
      then show ?thesis using False Some by (simp only: decode_item_def Let_def odd_word_and_1) simp
    qed (use False in \<open>simp only: decode_item_def Let_def odd_word_and_1, simp\<close>)
  qed
qed

text \<open>
  \<open>decode\<close> is not protected against its input: a frame of a few bytes whose first item leads past
  \<open>u32::MAX\<close> makes it panic, for the numbers of a run as well as for a gap.
\<close>

theorem decode_panics_on_overflow:
  fixes a n :: u32
  assumes "2 ^ 32 \<le> unat a + unat n div 2 + 2" and "unat n < 2 ^ 30"
    and "buf = pre @ to_be_bytes a @ word_of_nat (varu32_len n - 1) # varu32_write [] n @ post" and "fits_slice buf"
  shows "decode buf True (length pre) = None"
proof -
  let ?l = "varu32_len n"
  define hd :: bytes where "hd = pre @ to_be_bytes a @ [word_of_nat (?l - 1)]"
  have l: "0 < ?l" "?l \<le> 8" by (simp_all add: varu32_len_def varusize_len_def)
  have lh: "length hd = 5 + length pre" by (simp add: hd_def)
  have buf: "buf = hd @ varu32_write [] n @ post" by (simp add: hd_def assms(3))
  have "buf ! (length pre + 4) = word_of_nat (?l - 1)" by (simp add: buf hd_def nth_append)
  moreover have "unat (word_of_nat (?l - 1) :: u8) + 1 = ?l" using l by (simp only: unat_of_nat) simp
  ultimately have "unat (buf ! (length pre + 4)) + 1 = ?l" by (simp only:)
  moreover have "from_be_bytes (take 4 (drop (length pre) buf)) = a"
    by (simp add: buf hd_def from_be_to_be)
  moreover have "length pre + 5 + ?l \<le> length buf" by (simp add: buf lh v32.length_written)
  moreover have "decode_loop (take (5 + length pre + ?l) buf) (5 + length pre) a = None"
    using v32.read_at [of n hd "[]"] decode_item_overflow [OF assms(1)] assms(2,4) l lh
    by (subst decode_loop.simps) (simp add: buf v32.length_written fits_slice_def)
  ultimately show ?thesis
    by (simp add: decode_def Let_def)
qed

theorem decode_panics_on_overflow_witness: "decode [0xFF, 0xFF, 0xFF, 0xFF, 0, 1] True 0 = None"
  using decode_panics_on_overflow [of "0xFFFFFFFF" 1 _ "[]" "[]"]
  by (simp add: to_be_bytes_def nat_be_4 fits_slice_def varu32_write_def varusize_write_def
      varu32_len_def varusize_len_def VARINT_U16_MAX_def VARINT_U8_MAX_def)

end
