(* ===== verification/Desegmenter.thy ===== *)
theory Desegmenter
  imports Session_Protocol
begin

text \<open>
  The reassembly of segmented messages of \<open>session/src/desegmenter.rs\<close>.  A bit set with one bit per
  byte records what has arrived; \<open>run_over_unset_ranges\<close> finds the ranges of a segment that are new
  and \<open>recv_inner\<close> copies them.  The atomic operations are single steps of a sequential model: calls
  of different threads are calls in some order.
\<close>

section \<open>State\<close>

definition WIDTH :: nat where "WIDTH = 64"

type_synonym range = "nat \<times> nat"

record desegmenter =
  mem :: "bytes option"
  dlen :: nat
  total_set :: nat
  set_segs :: "u64 list"

datatype seg_error = Segmented | InvalidSeg

datatype new_result =
    NewSegmented desegmenter
  | SingleSeg range
  | MissingLen
  | AllocFailure
  | NewInvalid

section \<open>Finding the unset ranges\<close>

text \<open>\<open>usize::lowest_one\<close>: the position of the lowest set bit.\<close>

definition lowest_one :: "u64 \<Rightarrow> nat option" where
  "lowest_one w = find (bit w) [0..<64]"

lemma lowest_one_None: "lowest_one w = None \<longleftrightarrow> w = 0"
proof -
  have "(\<forall>k<64. \<not> bit w k) \<longleftrightarrow> w = 0" by (auto intro!: bit_word_eqI)
  then show ?thesis by (auto simp: lowest_one_def find_None_iff)
qed

lemma lowest_one_Some: "lowest_one w = Some i \<longleftrightarrow> i < 64 \<and> bit w i \<and> (\<forall>k<i. \<not> bit w k)"
  by (auto simp: lowest_one_def find_Some_iff)

lemma lowest_one_le: "lowest_one w = Some i \<Longrightarrow> bit w k \<Longrightarrow> i \<le> k"
  by (meson lowest_one_Some not_le)

text \<open>Adding the lowest set bit carries over the run of set bits that starts there.\<close>

lemma carry_above:
  assumes w: "lowest_one w = Some i" and j: "bit (w + push_bit i 1) j"
  shows "i < j"
proof (rule ccontr)
  assume "\<not> i < j"
  define x where "x = drop_bit i w"
  have "w = push_bit i x"
    using lowest_one_le [OF w] by (intro bit_word_eqI) (auto simp: x_def bit_simps)
  then have "w + push_bit i 1 = push_bit i (x + 1)" by (simp only: push_bit_add)
  moreover have "odd x"
    using w by (simp only: lowest_one_Some x_def bit_iff_odd_drop_bit) simp
  moreover have "bit (x + 1) 0 \<longleftrightarrow> odd (x + 1)" by (rule bit_0)
  ultimately show False
    using j \<open>\<not> i < j\<close> by (cases "i = j") (auto simp: bit_push_bit_iff)
qed

lemma carry_run:
  assumes w: "lowest_one w = Some i" and j: "lowest_one (w + push_bit i 1) = Some j"
  shows "\<forall>k. i \<le> k \<longrightarrow> k < j \<longrightarrow> bit w k" and "\<not> bit w j" and "i < j" and "j < 64"
proof -
  show ij: "i < j" using carry_above [OF w] j by (simp add: lowest_one_Some)
  show j64: "j < 64" using j by (simp add: lowest_one_Some)
  define c where "c = w + push_bit i 1"
  have jc: "bit c j" "\<And>k. bit c k \<Longrightarrow> j \<le> k"
    using j lowest_one_le [OF j] by (simp_all only: c_def lowest_one_Some)
  define p where "p = push_bit (Suc j) (drop_bit (Suc j) c)"
  have c: "c = p OR push_bit j 1"
  proof (rule bit_word_eqI)
    fix n assume "n < LENGTH(64)"
    moreover have "bit p n \<longleftrightarrow> Suc j \<le> n \<and> bit c n" if "n < 64"
      using that by (simp add: p_def bit_push_bit_iff bit_drop_bit_eq cong: conj_cong del: push_bit_Suc)
    moreover have "bit c n \<Longrightarrow> Suc j \<le> n \<or> n = j" using jc(2) [of n] by linarith
    ultimately show "bit c n \<longleftrightarrow> bit (p OR push_bit j 1) n"
      using jc(1) by (auto simp: bit_simps)
  qed
  have "p AND push_bit j 1 = 0" by (rule bit_word_eqI) (auto simp: p_def bit_simps simp del: push_bit_Suc)
  then have c': "c = p + push_bit j 1" using c disjunctive_add_eq_or by metis
  have "push_bit i (mask (j - i)) + push_bit i 1 = push_bit i (2 ^ (j - i) :: u64)"
    by (simp only: push_bit_add [symmetric] mask_eq_exp_minus_1) simp
  also have "\<dots> = push_bit j 1" using ij by (simp add: push_bit_eq_mult power_add [symmetric])
  finally have "w + push_bit i 1 = (p + push_bit i (mask (j - i))) + push_bit i 1"
    using c' unfolding c_def by (simp only: add.assoc)
  then have "w = p + push_bit i (mask (j - i))" by (rule add_right_imp_eq)
  moreover have "p AND push_bit i (mask (j - i)) = 0"
    using ij by (intro bit_word_eqI) (auto simp: p_def bit_simps simp del: push_bit_Suc)
  ultimately have "w = p OR push_bit i (mask (j - i))" using disjunctive_add_eq_or by metis
  then have bits: "bit w k \<longleftrightarrow> bit p k \<or> bit (push_bit i (mask (j - i) :: u64)) k" for k
    by (simp only: bit_or_iff)
  show "\<forall>k. i \<le> k \<longrightarrow> k < j \<longrightarrow> bit w k" and "\<not> bit w j"
    using ij j64 by (auto simp: bits p_def bit_simps simp del: push_bit_Suc)
qed

lemma carry_all:
  assumes "lowest_one (w + push_bit i 1) = None" and "i \<le> k" and "k < 64"
  shows "bit w k"
proof -
  have "w = - push_bit i 1" using assms(1) by (simp only: lowest_one_None eq_neg_iff_add_eq_0)
  then have "w = NOT (mask i)" by (simp add: push_bit_eq_mult minus_exp_eq_not_mask)
  then show ?thesis using assms(2,3) by (simp add: bit_simps)
qed

text \<open>
  The loop of \<open>check_and_set_bits\<close>; \<open>start\<close> is the pending range, the result is the new pending
  start and the ranges passed to \<open>f\<close>.
\<close>

definition flush :: "nat option \<Rightarrow> nat \<Rightarrow> range list" where
  "flush start base = (case start of None \<Rightarrow> [] | Some s \<Rightarrow> [(s, base)])"

function set_loop :: "nat \<Rightarrow> u64 \<Rightarrow> nat option \<Rightarrow> nat option \<times> range list" where
  "set_loop base set_bits start =
     (case lowest_one set_bits of
        None \<Rightarrow> (start, [])
      | Some i \<Rightarrow>
          (case lowest_one (set_bits + push_bit i 1) of
             Some j \<Rightarrow>
               let (start', rs) = set_loop base (set_bits AND push_bit j (- 1)) None in
               (start', (if i = 0 then [(case start of None \<Rightarrow> base | Some s \<Rightarrow> s, base + j)]
                         else flush start base @ [(base + i, base + j)]) @ rs)
           | None \<Rightarrow>
               if i = 0 then (Some (case start of None \<Rightarrow> base | Some s \<Rightarrow> s), [])
               else (Some (base + i), flush start base)))"
  by pat_completeness auto
termination
proof (relation "measure (\<lambda>(base, w, start). unat w)", goal_cases)
  case 1
  then show ?case by simp
next
  case (2 base w start i j)
  have "w AND push_bit j (- 1) \<noteq> w"
  proof
    assume eq: "w AND push_bit j (- 1) = w"
    have "bit w i" using 2(1) by (simp add: lowest_one_Some)
    then have "bit (w AND push_bit j (- 1)) i" by (simp only: eq)
    then show False using carry_run(3) [OF 2(1,2)] by (simp add: bit_simps)
  qed
  then have "w AND push_bit j (- 1) < w"
    using word_and_le2 [of w "push_bit j (- 1)"] by (simp add: order_less_le)
  then show ?case by (simp add: word_less_nat_alt)
qed

declare set_loop.simps [simp del]

text \<open>\<open>check_and_set_bits\<close>: the new bit set, the new pending start and the ranges passed to \<open>f\<close>.\<close>

definition check_and_set_bits ::
  "u64 list \<Rightarrow> nat \<Rightarrow> u64 \<Rightarrow> nat option \<Rightarrow> (u64 list \<times> nat option \<times> range list) option" where
  "check_and_set_bits segs idx seg_bits start =
     (case get_idx segs idx of
        None \<Rightarrow> None
      | Some pre_bits \<Rightarrow>
          Some (segs[idx := pre_bits OR seg_bits], set_loop (idx * WIDTH) (NOT pre_bits AND seg_bits) start))"

text \<open>The loop over the words between the first and the last one.\<close>

fun middle_words :: "nat list \<Rightarrow> u64 list \<Rightarrow> nat option \<Rightarrow> (u64 list \<times> nat option \<times> range list) option" where
  "middle_words [] segs start = Some (segs, start, [])"
| "middle_words (k # ks) segs start =
     (case check_and_set_bits segs k (- 1) start of
        None \<Rightarrow> None
      | Some (segs, start, rs) \<Rightarrow>
          (case middle_words ks segs start of
             None \<Rightarrow> None
           | Some (segs, start, rs') \<Rightarrow> Some (segs, start, rs @ rs')))"

definition run_over_unset_ranges :: "nat \<Rightarrow> u64 list \<Rightarrow> range \<Rightarrow> (u64 list \<times> range list) option" where
  "run_over_unset_ranges len segs r =
     (if snd r > len then None
      else case checked_sub (snd r) 1 of
        None \<Rightarrow> None
      | Some seg_last \<Rightarrow>
          let seg_off_idx = fst r div WIDTH; seg_off_rem = fst r mod WIDTH;
              seg_end_idx = seg_last div WIDTH; seg_end_rem = seg_last mod WIDTH;
              seg_off_set = push_bit seg_off_rem (- 1); seg_end_set = drop_bit (WIDTH - seg_end_rem - 1) (- 1) in
          map_option (\<lambda>(segs, start, rs). (segs, rs @ flush start (snd r)))
            (if seg_off_idx = seg_end_idx
             then check_and_set_bits segs seg_off_idx (seg_off_set AND seg_end_set) None
             else case check_and_set_bits segs seg_off_idx seg_off_set None of
                 None \<Rightarrow> None
               | Some (segs, start, rs) \<Rightarrow>
                   (case checked_sub seg_end_idx 1 of
                      None \<Rightarrow> None
                    | Some seg_end_idx' \<Rightarrow>
                        (case middle_words [seg_off_idx + 1..<seg_end_idx'] segs start of
                           None \<Rightarrow> None
                         | Some (segs, start, rs') \<Rightarrow>
                             map_option (\<lambda>(segs, start, rs''). (segs, start, rs @ rs' @ rs''))
                               (check_and_set_bits segs seg_end_idx seg_end_set start)))))"

section \<open>Receiving a segment\<close>

text \<open>The copies that \<open>recv_inner\<close> makes, one for every range, and the number of bytes they count.\<close>

fun copy_ranges :: "bytes \<Rightarrow> nat \<Rightarrow> nat \<Rightarrow> range list \<Rightarrow> bytes option \<Rightarrow> (bytes option \<times> nat) option" where
  "copy_ranges packet idx off [] mo = Some (mo, 0)"
| "copy_ranges packet idx off ((a, b) # rs) mo =
     (case (mo, slice packet (idx + a - off) (idx + b - off)) of
        (Some m, Some src) \<Rightarrow>
          (case copy_range m a b src of
             None \<Rightarrow> None
           | Some m \<Rightarrow>
               (case copy_ranges packet idx off rs (Some m) of
                  None \<Rightarrow> None
                | Some (mo, n) \<Rightarrow> Some (mo, (b - a) + n)))
      | _ \<Rightarrow> None)"

definition recv_inner ::
  "desegmenter \<Rightarrow> bytes \<Rightarrow> nat \<Rightarrow> nat \<Rightarrow> nat \<Rightarrow> (desegmenter \<times> nat \<times> bytes option) option" where
  "recv_inner d packet idx off seg_len =
     (case run_over_unset_ranges (dlen d) (set_segs d) (off, off + seg_len) of
        None \<Rightarrow> None
      | Some (segs, rs) \<Rightarrow>
          (case copy_ranges packet idx off rs (mem d) of
             None \<Rightarrow> None
           | Some (mo, cur_total_set) \<Rightarrow>
               let pre_total_set = total_set d;
                   d' = d\<lparr> set_segs := segs, total_set := pre_total_set + cur_total_set \<rparr> in
               if cur_total_set > 0 \<and> pre_total_set + cur_total_set = dlen d
               then (case mo of
                       None \<Rightarrow> None
                     | Some m \<Rightarrow> Some (d'\<lparr> mem := None \<rparr>, idx + seg_len, Some m))
               else Some (d'\<lparr> mem := mo \<rparr>, idx + seg_len, None)))"

definition recv_mut_inner ::
  "desegmenter \<Rightarrow> bytes \<Rightarrow> nat \<Rightarrow> nat \<Rightarrow> nat \<Rightarrow> (desegmenter \<times> nat \<times> bytes option) option" where
  "recv_mut_inner = recv_inner"

text \<open>
  The header of a segment.  The result is the parsed header, if it is valid, and the index that is
  left behind.
\<close>

definition read_opt :: "bool \<Rightarrow> bytes \<Rightarrow> nat \<Rightarrow> nat option option \<times> nat" where
  "read_opt present packet idx =
     (if present then (case varusize_try_read packet idx of (v, idx') \<Rightarrow> (map_option (\<lambda>n. Some (unat n)) v, idx'))
      else (Some None, idx))"

definition read_header ::
  "bytes \<Rightarrow> nat \<Rightarrow> bool \<Rightarrow> bool \<Rightarrow> bool \<Rightarrow> ((nat \<times> nat \<times> nat option) option \<times> nat) option" where
  "read_header packet idx has_len has_off is_terminator =
     (case read_opt has_len packet idx of
        (None, idx) \<Rightarrow> Some (None, idx)
      | (Some message_len, idx) \<Rightarrow>
          (case read_opt has_off packet idx of
             (None, idx) \<Rightarrow> Some (None, idx)
           | (Some off', idx) \<Rightarrow>
               (case checked_sub (length packet) idx of
                  None \<Rightarrow> None
                | Some rem_len \<Rightarrow>
                    let off = (case off' of None \<Rightarrow> 0 | Some off \<Rightarrow> off) in
                    (case read_opt (\<not> is_terminator) packet idx of
                       (None, idx) \<Rightarrow> Some (None, idx)
                     | (Some seg_len', idx) \<Rightarrow>
                         let seg_len = (case seg_len' of None \<Rightarrow> rem_len | Some n \<Rightarrow> n) in
                         if seg_len > rem_len then Some (None, idx)
                         else (case checked_add off seg_len of
                             None \<Rightarrow> Some (None, idx)
                           | Some seg_end \<Rightarrow>
                               if (case message_len of None \<Rightarrow> False | Some l \<Rightarrow> seg_end > l)
                               then Some (None, idx)
                               else Some (Some (off, seg_len, message_len), idx))))))"

definition recv ::
  "desegmenter \<Rightarrow> bytes \<Rightarrow> nat \<Rightarrow> bool \<Rightarrow> bool \<Rightarrow> bool \<Rightarrow> (desegmenter \<times> nat \<times> (seg_error + bytes)) option" where
  "recv d packet idx has_len has_off is_terminator =
     (case read_header packet idx has_len has_off is_terminator of
        None \<Rightarrow> None
      | Some (None, idx) \<Rightarrow> Some (d, idx, Inl InvalidSeg)
      | Some (Some (off, seg_len, message_len), idx) \<Rightarrow>
          if (case message_len of None \<Rightarrow> False | Some l \<Rightarrow> l \<noteq> dlen d) then Some (d, idx, Inl InvalidSeg)
          else map_option
            (\<lambda>(d, idx, r). (d, idx, case r of None \<Rightarrow> Inl Segmented | Some m \<Rightarrow> Inr m))
            (recv_inner d packet idx off seg_len))"

definition recv_mut ::
  "desegmenter \<Rightarrow> bytes \<Rightarrow> nat \<Rightarrow> bool \<Rightarrow> bool \<Rightarrow> bool \<Rightarrow> (desegmenter \<times> nat \<times> (seg_error + bytes)) option" where
  "recv_mut d packet idx has_len has_off is_terminator =
     (case read_header packet idx has_len has_off is_terminator of
        None \<Rightarrow> None
      | Some (None, idx) \<Rightarrow> Some (d, idx, Inl InvalidSeg)
      | Some (Some (off, seg_len, message_len), idx) \<Rightarrow>
          if (case message_len of None \<Rightarrow> False | Some l \<Rightarrow> l \<noteq> dlen d) then Some (d, idx, Inl InvalidSeg)
          else map_option
            (\<lambda>(d, idx, r). (d, idx, case r of None \<Rightarrow> Inl Segmented | Some m \<Rightarrow> Inr m))
            (recv_mut_inner d packet idx off seg_len))"

text \<open>\<open>M::malloc\<close> is a parameter: the memory for a message of the given length, or nothing.\<close>

definition try_new_seg ::
  "(nat \<Rightarrow> bytes option) \<Rightarrow> bytes \<Rightarrow> nat \<Rightarrow> bool \<Rightarrow> bool \<Rightarrow> bool \<Rightarrow> (new_result \<times> nat) option" where
  "try_new_seg malloc packet idx has_len has_off is_terminator =
     (case read_header packet idx has_len has_off is_terminator of
        None \<Rightarrow> None
      | Some (None, idx) \<Rightarrow> Some (NewInvalid, idx)
      | Some (Some (off, seg_len, None), idx) \<Rightarrow> Some (MissingLen, idx)
      | Some (Some (off, seg_len, Some message_len), idx) \<Rightarrow>
          if seg_len = message_len then Some (SingleSeg (idx, idx + seg_len), idx + seg_len)
          else (case malloc message_len of
              None \<Rightarrow> Some (AllocFailure, idx)
            | Some m \<Rightarrow>
                if length m \<noteq> message_len then None
                else let ret = \<lparr> mem = Some m, dlen = message_len, total_set = 0,
                        set_segs = replicate ((length m + WIDTH - 1) div WIDTH) 0 \<rparr> in
                  (case recv_mut_inner ret packet idx off seg_len of
                     Some (ret, idx, None) \<Rightarrow> Some (NewSegmented ret, idx)
                   | _ \<Rightarrow> None)))"

definition try_single_seg ::
  "bytes \<Rightarrow> nat \<Rightarrow> bool \<Rightarrow> bool \<Rightarrow> bool \<Rightarrow> ((seg_error + range) \<times> nat) option" where
  "try_single_seg packet idx has_len has_off is_terminator =
     (case read_header packet idx has_len has_off is_terminator of
        None \<Rightarrow> None
      | Some (None, idx) \<Rightarrow> Some (Inl InvalidSeg, idx)
      | Some (Some (off, seg_len, message_len), idx) \<Rightarrow>
          if message_len = Some seg_len then Some (Inr (idx, idx + seg_len), idx + seg_len)
          else Some (Inl Segmented, idx))"

end
