(* ===== verification/Desegmenter_Correct.thy ===== *)
theory Desegmenter_Correct
  imports Desegmenter
begin

text \<open>
  What the desegmenter guarantees.  \<open>marks\<close> reads the bit set as a set of byte positions.  For
  segments none of whose bytes arrived before, one range is found, the whole segment is copied, and
  the message is handed over exactly when its last byte is in.  For segments that overlap earlier
  ones the bookkeeping goes wrong in two ways, which the last section shows.
\<close>

section \<open>The bit set as a set of positions\<close>

definition marks :: "u64 list \<Rightarrow> nat set" where
  "marks segs = {p. p div 64 < length segs \<and> bit (segs ! (p div 64)) (p mod 64)}"

lemma word_positions:
  fixes idx i j :: nat
  assumes j: "j \<le> 64"
  shows "{p. p div 64 = idx \<and> i \<le> p mod 64 \<and> p mod 64 < j} = {idx * 64 + i..<idx * 64 + j}"
proof (intro set_eqI iffI)
  fix p assume "p \<in> {p. p div 64 = idx \<and> i \<le> p mod 64 \<and> p mod 64 < j}"
  then show "p \<in> {idx * 64 + i..<idx * 64 + j}" using div_mult_mod_eq [of p 64] by auto
next
  fix p assume p: "p \<in> {idx * 64 + i..<idx * 64 + j}"
  then obtain q where "p = idx * 64 + q" "i \<le> q" "q < j"
    by (metis atLeastLessThan_iff le_add_diff_inverse nat_add_left_cancel_le nat_add_left_cancel_less
        add_leD1)
  then show "p \<in> {p. p div 64 = idx \<and> i \<le> p mod 64 \<and> p mod 64 < j}" using j by simp
qed

lemma marks_update:
  assumes "idx < length segs"
  shows "marks (segs[idx := segs ! idx OR w]) = marks segs \<union> {p. p div 64 = idx \<and> bit w (p mod 64)}"
  using assms by (auto simp: marks_def nth_list_update bit_or_iff)

lemma marks_replicate_0 [simp]: "marks (replicate n 0) = {}"
  by (simp add: marks_def)

section \<open>A run of new bytes in one word\<close>

text \<open>The word has exactly the bits from \<open>i\<close> up to \<open>j\<close>.\<close>

definition bit_run :: "u64 \<Rightarrow> nat \<Rightarrow> nat \<Rightarrow> bool" where
  "bit_run w i j \<longleftrightarrow> i < j \<and> j \<le> 64 \<and> (\<forall>k. bit w k \<longleftrightarrow> i \<le> k \<and> k < j)"

definition resume :: "nat option \<Rightarrow> nat \<Rightarrow> nat" where
  "resume start base = (case start of None \<Rightarrow> base | Some s \<Rightarrow> s)"

lemma set_loop_run:
  assumes "bit_run w i j"
  shows "set_loop base w start =
    (if j = 64 then (if i = 0 then (Some (resume start base), []) else (Some (base + i), flush start base))
     else (None, if i = 0 then [(resume start base, base + j)] else flush start base @ [(base + i, base + j)]))"
proof -
  have ij: "i < j" "j \<le> 64" and bits: "\<And>k. bit w k \<longleftrightarrow> i \<le> k \<and> k < j"
    using assms by (simp_all add: bit_run_def)
  have low: "lowest_one w = Some i" using ij bits by (simp add: lowest_one_Some)
  show ?thesis
  proof (cases "lowest_one (w + push_bit i 1)")
    case None
    have "j = 64"
    proof (rule ccontr)
      assume "j \<noteq> 64"
      then have "bit w j" using carry_all [OF None, of j] ij by simp
      then show False using bits by simp
    qed
    then show ?thesis using low None by (subst set_loop.simps) (simp add: resume_def)
  next
    case (Some j')
    note run = carry_run [OF low Some]
    have "j' = j"
      using run bits ij by (metis le_less_linear less_le_not_le less_or_eq_imp_le nat_neq_iff)
    moreover have "w AND push_bit j (- 1) = 0"
      using bits by (intro bit_word_eqI) (auto simp: bit_simps)
    moreover have "set_loop base 0 None = (None, [])"
      by (subst set_loop.simps) (simp add: lowest_one_None [THEN iffD2])
    ultimately show ?thesis
      using low Some run(4) by (subst set_loop.simps) (simp add: resume_def Let_def)
  qed
qed

lemma check_and_set_fresh:
  assumes idx: "idx < length segs" and run: "bit_run w i j"
    and fresh: "{idx * 64 + i..<idx * 64 + j} \<inter> marks segs = {}"
    and res: "set_loop (idx * 64) w start = res"
  shows "\<exists>segs'. check_and_set_bits segs idx w start = Some (segs', res) \<and>
           length segs' = length segs \<and> marks segs' = marks segs \<union> {idx * 64 + i..<idx * 64 + j}"
proof -
  have bits: "\<And>k. bit w k \<longleftrightarrow> i \<le> k \<and> k < j" and j: "j \<le> 64" using run by (simp_all add: bit_run_def)
  have "\<not> bit (segs ! idx) k" if "i \<le> k" "k < j" for k
  proof -
    have "idx * 64 + k \<in> {idx * 64 + i..<idx * 64 + j}" using that by simp
    then have "idx * 64 + k \<notin> marks segs" using fresh by blast
    moreover have "(idx * 64 + k) div 64 = idx" "(idx * 64 + k) mod 64 = k" using that j by simp_all
    ultimately show ?thesis using idx by (simp add: marks_def)
  qed
  then have "NOT (segs ! idx) AND w = w"
    using bits by (intro bit_word_eqI) (auto simp: bit_simps)
  moreover have "marks (segs[idx := segs ! idx OR w]) = marks segs \<union> {idx * 64 + i..<idx * 64 + j}"
    using marks_update [OF idx] word_positions [OF j, of idx i] bits by simp
  ultimately show ?thesis
    using idx res by (simp add: check_and_set_bits_def get_idx_def WIDTH_def)
qed

section \<open>A run of new bytes over several words\<close>

lemma bit_run_masks:
  shows "r < 64 \<Longrightarrow> bit_run (push_bit r (- 1)) r 64"
    and "e < 64 \<Longrightarrow> bit_run (drop_bit (64 - e - 1) (- 1)) 0 (Suc e)"
    and "r \<le> e \<Longrightarrow> e < 64 \<Longrightarrow> bit_run (push_bit r (- 1) AND drop_bit (64 - e - 1) (- 1)) r (Suc e)"
    and "bit_run (- 1) 0 64"
  by (auto simp: bit_run_def bit_simps)

lemma middle_words_fresh:
  assumes "distinct ks" and "\<forall>k\<in>set ks. k < length segs \<and> {k * 64..<k * 64 + 64} \<inter> marks segs = {}"
  shows "\<exists>segs'. middle_words ks segs (Some s) = Some (segs', Some s, []) \<and> length segs' = length segs \<and>
           marks segs' = marks segs \<union> (\<Union>k\<in>set ks. {k * 64..<k * 64 + 64})"
  using assms
proof (induction ks arbitrary: segs)
  case (Cons k ks)
  then have "k < length segs" "{k * 64 + 0..<k * 64 + 64} \<inter> marks segs = {}" by simp_all
  note fresh = check_and_set_fresh [OF this(1) bit_run_masks(4) this(2)]
  have "set_loop (k * 64) (- 1) (Some s) = (Some s, [])"
    by (subst set_loop_run [OF bit_run_masks(4)]) (simp add: resume_def)
  from fresh [OF this]
  obtain segs1 where 1: "check_and_set_bits segs k (- 1) (Some s) = Some (segs1, Some s, [])"
    "length segs1 = length segs" "marks segs1 = marks segs \<union> {k * 64..<k * 64 + 64}"
    by auto
  have "{j * 64..<j * 64 + 64} \<inter> {k * 64..<k * 64 + 64} = {}" if "j \<in> set ks" for j
  proof -
    have "j \<noteq> k" using Cons.prems(1) that by auto
    then show ?thesis by auto
  qed
  then have "\<forall>j\<in>set ks. j < length segs1 \<and> {j * 64..<j * 64 + 64} \<inter> marks segs1 = {}"
    using Cons.prems(2) 1 by (auto simp: Int_Un_distrib)
  with Cons.IH [of segs1] Cons.prems(1) 1 show ?case by auto
qed simp

lemma run_over_split:
  assumes "off = a * 64 + r" "r < 64" and "e = b * 64 + Suc q" "q < 64" and "a \<le> b" "e \<le> len"
  shows "run_over_unset_ranges len segs (off, e) = map_option (\<lambda>(segs, start, rs). (segs, rs @ flush start e))
      (if a = b then check_and_set_bits segs a (push_bit r (- 1) AND drop_bit (64 - q - 1) (- 1)) None
       else case check_and_set_bits segs a (push_bit r (- 1)) None of
           None \<Rightarrow> None
         | Some (segs, start, rs) \<Rightarrow>
             (case middle_words [a + 1..<b - 1] segs start of
                None \<Rightarrow> None
              | Some (segs, start, rs') \<Rightarrow>
                  map_option (\<lambda>(segs, start, rs''). (segs, start, rs @ rs' @ rs''))
                    (check_and_set_bits segs b (drop_bit (64 - q - 1) (- 1)) start)))"
proof -
  have "off div 64 = a" "off mod 64 = r" using assms by simp_all
  moreover have "(b * 64 + q) div 64 = b" "(b * 64 + q) mod 64 = q" using assms by simp_all
  moreover have "checked_sub e 1 = Some (b * 64 + q)" using assms by (simp add: checked_sub_def)
  moreover have "checked_sub b 1 = Some (b - 1)" if "a \<noteq> b" using assms that by (simp add: checked_sub_def)
  moreover have "\<not> e > len" using assms by simp
  ultimately show ?thesis
    by (cases "a = b") (simp_all only: run_over_unset_ranges_def Let_def WIDTH_def fst_conv snd_conv
        option.case if_False if_True simp_thms)
qed

lemma run_one_word:
  assumes off: "off = a * 64 + r" "r < 64" and e: "e = a * 64 + Suc q" "q < 64" and len: "off < e" "e \<le> len"
    and a: "a < length segs" and fresh: "{off..<e} \<inter> marks segs = {}"
  shows "\<exists>segs'. run_over_unset_ranges len segs (off, e) = Some (segs', [(off, e)]) \<and>
           length segs' = length segs \<and> marks segs' \<subseteq> marks segs \<union> {off..<e}"
proof -
  have rq: "r \<le> q" using len off e by simp
  have "set_loop (a * 64) (push_bit r (- 1) AND drop_bit (64 - q - 1) (- 1)) None =
      (if q = 63 then (Some off, []) else (None, [(off, e)]))"
    using off e by (subst set_loop_run [OF bit_run_masks(3) [OF rq e(2)]]) (simp add: resume_def flush_def)
  from check_and_set_fresh [OF a bit_run_masks(3) [OF rq e(2)] _ this] fresh
  obtain s1 where "check_and_set_bits segs a (push_bit r (- 1) AND drop_bit (64 - q - 1) (- 1)) None =
      Some (s1, if q = 63 then (Some off, []) else (None, [(off, e)]))"
    "length s1 = length segs" "marks s1 = marks segs \<union> {off..<e}"
    unfolding off(1) e(1) by blast
  then show ?thesis
    using run_over_split [OF off e _ len(2)] by (cases "q = 63") (simp_all add: flush_def)
qed

text \<open>The words that a segment covers, cut into the first, the middle ones and the last.\<close>

lemma segment_parts:
  assumes "off = a * 64 + r" "r < 64" "e = b * 64 + Suc q" "a < b"
  shows "{a * 64 + r..<a * 64 + 64} \<subseteq> {off..<e}" and "{b * 64 + 0..<b * 64 + Suc q} \<subseteq> {off..<e}"
    and "k \<in> set [a + 1..<b - 1] \<Longrightarrow> {k * 64..<k * 64 + 64} \<subseteq> {off..<e}"
    and "{b * 64 + 0..<b * 64 + Suc q} \<inter> {a * 64 + r..<a * 64 + 64} = {}"
    and "k \<in> set [a + 1..<b - 1] \<Longrightarrow> {k * 64..<k * 64 + 64} \<inter> {a * 64 + r..<a * 64 + 64} = {}"
    and "k \<in> set [a + 1..<b - 1] \<Longrightarrow> {b * 64 + 0..<b * 64 + Suc q} \<inter> {k * 64..<k * 64 + 64} = {}"
    and "k \<in> set [a + 1..<b - 1] \<Longrightarrow> k < b"
  using assms by auto

lemma run_many_words:
  assumes off: "off = a * 64 + r" "r < 64" and e: "e = b * 64 + Suc q" "q < 64" and len: "a < b" "e \<le> len"
    and b: "b < length segs" and fresh: "{off..<e} \<inter> marks segs = {}"
  shows "\<exists>segs'. run_over_unset_ranges len segs (off, e) = Some (segs', [(off, e)]) \<and>
           length segs' = length segs \<and> marks segs' \<subseteq> marks segs \<union> {off..<e}"
proof -
  note parts = segment_parts [OF off e(1) len(1)]
  have "set_loop (a * 64) (push_bit r (- 1)) None = (Some off, [])"
    by (subst set_loop_run [OF bit_run_masks(1) [OF off(2)]]) (simp add: resume_def flush_def off)
  from check_and_set_fresh [OF _ bit_run_masks(1) [OF off(2)] _ this] fresh parts(1) b len(1)
  obtain s1 where 1: "check_and_set_bits segs a (push_bit r (- 1)) None = Some (s1, Some off, [])"
    "length s1 = length segs" "marks s1 = marks segs \<union> {a * 64 + r..<a * 64 + 64}"
    by (meson disjoint_iff in_mono order_less_trans)
  have "\<forall>k\<in>set [a + 1..<b - 1]. k < length s1 \<and> {k * 64..<k * 64 + 64} \<inter> marks s1 = {}"
  proof (intro ballI conjI)
    fix k assume k: "k \<in> set [a + 1..<b - 1]"
    show "k < length s1" using parts(7) [OF k] b 1(2) by simp
    show "{k * 64..<k * 64 + 64} \<inter> marks s1 = {}"
      using fresh parts(3,5) [OF k] unfolding 1(3) by blast
  qed
  from middle_words_fresh [OF _ this, of off]
  obtain s2 where 2: "middle_words [a + 1..<b - 1] s1 (Some off) = Some (s2, Some off, [])"
    "length s2 = length s1" "marks s2 = marks s1 \<union> (\<Union>k\<in>set [a + 1..<b - 1]. {k * 64..<k * 64 + 64})"
    by (metis distinct_upt)
  have "{b * 64 + 0..<b * 64 + Suc q} \<inter> marks s2 = {}"
    using fresh parts(2,4,6) unfolding 1(3) 2(3) by blast
  note fresh3 = check_and_set_fresh [OF _ bit_run_masks(2) [OF e(2)] this]
  have "set_loop (b * 64) (drop_bit (64 - q - 1) (- 1)) (Some off) =
      (if q = 63 then (Some off, []) else (None, [(off, e)]))"
    by (subst set_loop_run [OF bit_run_masks(2) [OF e(2)]]) (simp add: resume_def e)
  from fresh3 [OF _ this] obtain s3 where
    3: "check_and_set_bits s2 b (drop_bit (64 - q - 1) (- 1)) (Some off) =
      Some (s3, if q = 63 then (Some off, []) else (None, [(off, e)]))"
    "length s3 = length s2" "marks s3 = marks s2 \<union> {b * 64 + 0..<b * 64 + Suc q}"
    using b 1(2) 2(2) by metis
  have "marks s3 \<subseteq> marks segs \<union> {off..<e}"
    using parts(1-3) unfolding 1(3) 2(3) 3(3) by blast
  then show ?thesis
    using run_over_split [OF off e _ len(2)] len(1) 1(1,2) 2(1,2) 3(1,2)
    by (cases "q = 63") (simp_all add: flush_def)
qed

lemma run_over_fresh:
  assumes r: "off < e" "e \<le> len" and segs: "len \<le> 64 * length segs"
    and fresh: "{off..<e} \<inter> marks segs = {}"
  shows "\<exists>segs'. run_over_unset_ranges len segs (off, e) = Some (segs', [(off, e)]) \<and>
           length segs' = length segs \<and> marks segs' \<subseteq> marks segs \<union> {off..<e}"
proof -
  define a r b q where "a = off div 64" and "r = off mod 64" and "b = (e - 1) div 64" and "q = (e - 1) mod 64"
  have off: "off = a * 64 + r" "r < 64" by (simp_all add: a_def r_def)
  have e: "e = b * 64 + Suc q" "q < 64" using r(1) by (simp_all add: b_def q_def)
  have ab: "a \<le> b" and b: "b < length segs" using r segs off e by linarith+
  show ?thesis
  proof (cases "a = b")
    case True
    show ?thesis by (rule run_one_word [OF off _ e(2) r _ fresh]) (use e b True in simp_all)
  next
    case False
    then show ?thesis using ab by (intro run_many_words [OF off e _ r(2) b fresh]) simp
  qed
qed

section \<open>Reassembly\<close>

text \<open>
  A sequence of segments of a message, given by offset and length, handed to a step function one by
  one until the message is complete; and the condition that each of them is accepted.
\<close>

primrec deliver ::
  "('s \<Rightarrow> nat \<Rightarrow> bytes \<Rightarrow> ('s \<times> 'r option) option) \<Rightarrow> bytes \<Rightarrow> 's \<Rightarrow> (nat \<times> nat) list \<Rightarrow> ('s \<times> 'r option) option"
where
  "deliver step msg s [] = Some (s, None)"
| "deliver step msg s (x # xs) =
     (case step s (fst x) (take (snd x) (drop (fst x) msg)) of
        None \<Rightarrow> None
      | Some (s', None) \<Rightarrow> deliver step msg s' xs
      | Some (s', Some m) \<Rightarrow> Some (s', Some m))"

primrec all_accepted :: "(nat set \<Rightarrow> nat \<Rightarrow> nat \<Rightarrow> bool) \<Rightarrow> nat set \<Rightarrow> (nat \<times> nat) list \<Rightarrow> bool" where
  "all_accepted accepts got [] = True"
| "all_accepted accepts got (x # xs) \<longleftrightarrow>
     accepts got (fst x) (snd x) \<and> all_accepted accepts (got \<union> {fst x..<fst x + snd x}) xs"

definition covered :: "(nat \<times> nat) list \<Rightarrow> nat set" where
  "covered xs = (\<Union>x\<in>set xs. {fst x..<fst x + snd x})"

lemma covered_simps [simp]: "covered [] = {}" "covered (x # xs) = {fst x..<fst x + snd x} \<union> covered xs"
  by (simp_all add: covered_def)

text \<open>
  What the transport of messages needs of a reassembly buffer, stated for any component that offers
  it: a segment that the buffer accepts adds its bytes to those held, and the message is returned
  exactly when all of it is held.
\<close>

locale reassembler =
  fixes step :: "'s \<Rightarrow> nat \<Rightarrow> bytes \<Rightarrow> ('s \<times> 'r option) option"
    and finished :: "bytes \<Rightarrow> 'r \<Rightarrow> bool"
    and holds :: "'s \<Rightarrow> bytes \<Rightarrow> nat set \<Rightarrow> bool"
    and accepts :: "nat set \<Rightarrow> nat \<Rightarrow> nat \<Rightarrow> bool"
  assumes held_within: "holds s msg got \<Longrightarrow> got \<subseteq> {..<length msg}"
    and step_holds: "holds s msg got \<Longrightarrow> 0 < n \<Longrightarrow> off + n \<le> length msg \<Longrightarrow> accepts got off n \<Longrightarrow>
      got \<noteq> {..<length msg} \<Longrightarrow>
      \<exists>s' r. step s off (take n (drop off msg)) = Some (s', r) \<and>
        (if got \<union> {off..<off + n} = {..<length msg} then \<exists>m. r = Some m \<and> finished msg m
         else r = None \<and> holds s' msg (got \<union> {off..<off + n}))"
begin

lemma deliver_all:
  assumes "holds s msg got" and "got \<noteq> {..<length msg}"
    and "\<forall>x\<in>set xs. 0 < snd x \<and> fst x + snd x \<le> length msg" and "all_accepted accepts got xs"
    and "got \<union> covered xs = {..<length msg}"
  shows "\<exists>s' m. deliver step msg s xs = Some (s', Some m) \<and> finished msg m"
  using assms
proof (induction xs arbitrary: s got)
  case (Cons x xs)
  let ?got = "got \<union> {fst x..<fst x + snd x}"
  from step_holds [OF Cons.prems(1), of "snd x" "fst x"] Cons.prems
  obtain s' r where s': "step s (fst x) (take (snd x) (drop (fst x) msg)) = Some (s', r)"
    "if ?got = {..<length msg} then \<exists>m. r = Some m \<and> finished msg m else r = None \<and> holds s' msg ?got"
    by auto
  show ?case
  proof (cases "?got = {..<length msg}")
    case True
    then show ?thesis using s' by auto
  next
    case False
    then have "\<exists>s'' m. deliver step msg s' xs = Some (s'', Some m) \<and> finished msg m"
      using s' Cons.prems by (intro Cons.IH [of s' ?got]) (auto simp: Un_assoc)
    then show ?thesis using s' False by auto
  qed
qed simp

text \<open>Before the last byte is in, nothing is returned.\<close>

lemma deliver_partial:
  assumes "holds s msg got" and "\<forall>x\<in>set xs. 0 < snd x \<and> fst x + snd x \<le> length msg"
    and "all_accepted accepts got xs" and "got \<union> covered xs \<noteq> {..<length msg}"
  shows "\<exists>s'. deliver step msg s xs = Some (s', None) \<and>
           holds s' msg (got \<union> covered xs)"
  using assms
proof (induction xs arbitrary: s got)
  case (Cons x xs)
  let ?got = "got \<union> {fst x..<fst x + snd x}" and ?all = "got \<union> covered (x # xs)"
  have sub: "?all \<subseteq> {..<length msg}"
    using held_within [OF Cons.prems(1)] Cons.prems(2) by (fastforce simp: covered_def)
  have "?got \<subseteq> ?all" by auto
  then have ne: "?got \<noteq> {..<length msg}" "got \<noteq> {..<length msg}" using sub Cons.prems(4) by auto
  with step_holds [OF Cons.prems(1), of "snd x" "fst x"] Cons.prems
  obtain s' where "step s (fst x) (take (snd x) (drop (fst x) msg)) = Some (s', None)" "holds s' msg ?got"
    by auto
  with Cons.IH [of s' ?got] Cons.prems show ?case by (auto simp: Un_assoc)
qed simp

end

section \<open>The desegmenter reassembles what arrives once\<close>

text \<open>The desegmenter holds the bytes \<open>got\<close> of a message.\<close>

definition deseg_holds :: "desegmenter \<Rightarrow> bytes \<Rightarrow> nat set \<Rightarrow> bool" where
  "deseg_holds d msg got \<longleftrightarrow> dlen d = length msg \<and> length msg \<le> 64 * length (set_segs d) \<and>
     got \<subseteq> {..<length msg} \<and> marks (set_segs d) \<subseteq> got \<and> total_set d = card got \<and>
     (\<exists>m. mem d = Some m \<and> length m = length msg \<and> (\<forall>k\<in>got. m ! k = msg ! k))"

definition deseg_step :: "desegmenter \<Rightarrow> nat \<Rightarrow> bytes \<Rightarrow> (desegmenter \<times> bytes option) option" where
  "deseg_step d off data =
     map_option (\<lambda>(d, idx, r). (d, r)) (recv_inner d data 0 off (length data))"

definition all_new :: "nat set \<Rightarrow> nat \<Rightarrow> nat \<Rightarrow> bool" where
  "all_new got off n \<longleftrightarrow> got \<inter> {off..<off + n} = {}"

lemma copy_segment:
  assumes "off + n \<le> length m" and "idx + n \<le> length packet"
  shows "copy_ranges packet idx off [(off, off + n)] (Some m) =
           Some (Some (take off m @ take n (drop idx packet) @ drop (off + n) m), n)"
  using assms by (simp add: slice_def copy_range_def)

text \<open>The step for a segment at any position of a packet.\<close>

lemma recv_inner_fresh:
  assumes h: "deseg_holds d msg got" and n: "0 < n" "off + n \<le> length msg" and new: "all_new got off n"
    and data: "idx + n \<le> length packet" "take n (drop idx packet) = take n (drop off msg)"
  shows "\<exists>d' r. recv_inner d packet idx off n = Some (d', idx + n, r) \<and>
     (if got \<union> {off..<off + n} = {..<length msg} then r = Some msg
      else r = None \<and> deseg_holds d' msg (got \<union> {off..<off + n}))"
proof -
  let ?got = "got \<union> {off..<off + n}"
  from h obtain m where d: "dlen d = length msg" "length msg \<le> 64 * length (set_segs d)" "got \<subseteq> {..<length msg}"
    "marks (set_segs d) \<subseteq> got" "total_set d = card got" "mem d = Some m" "length m = length msg"
    "\<forall>k\<in>got. m ! k = msg ! k"
    by (auto simp: deseg_holds_def)
  have fresh: "{off..<off + n} \<inter> marks (set_segs d) = {}" using new d(4) by (auto simp: all_new_def)
  obtain segs where segs: "run_over_unset_ranges (dlen d) (set_segs d) (off, off + n) = Some (segs, [(off, off + n)])"
    "length segs = length (set_segs d)" "marks segs \<subseteq> marks (set_segs d) \<union> {off..<off + n}"
    using run_over_fresh [OF _ _ _ fresh, of "dlen d"] n d by auto
  define m' where "m' = take off m @ take n (drop off msg) @ drop (off + n) m"
  have copy: "copy_ranges packet idx off [(off, off + n)] (mem d) = Some (Some m', n)"
    using copy_segment [of off n m idx packet] n d data by (simp add: m'_def)
  have fin: "finite got" using d(3) finite_subset by blast
  have card: "card ?got = card got + n"
    using new fin by (subst card_Un_disjoint) (auto simp: all_new_def)
  have sub: "?got \<subseteq> {..<length msg}" using d(3) n by auto
  have full: "card ?got = length msg \<longleftrightarrow> ?got = {..<length msg}"
    using sub by (metis card_lessThan card_subset_eq finite_lessThan)
  have lm: "length m' = length msg" using n d(7) by (simp add: m'_def)
  have bytes: "m' ! k = msg ! k" if "k \<in> ?got" for k
  proof (cases "off \<le> k \<and> k < off + n")
    case True
    then have "k - off < n" by linarith
    then show ?thesis using True n d(7) by (simp add: m'_def nth_append)
  next
    case False
    then have "m' ! k = m ! k" using that n d(3,7) by (auto simp: m'_def nth_append)
    then show ?thesis using False that d(8) by auto
  qed
  show ?thesis
  proof (cases "?got = {..<length msg}")
    case True
    then have "m' = msg" using bytes lm by (intro nth_equalityI) auto
    then show ?thesis
      using True segs copy card full d n by (simp add: recv_inner_def Let_def)
  next
    case False
    then have "card got + n \<noteq> length msg" using full card by simp
    moreover have "marks segs \<subseteq> ?got" using segs(3) d(4) by auto
    ultimately show ?thesis
      using False segs(1,2) copy card sub lm bytes d n
      by (simp add: recv_inner_def Let_def deseg_holds_def)
  qed
qed

interpretation deseg: reassembler deseg_step "\<lambda>msg m. m = msg" deseg_holds all_new
proof unfold_locales
  fix s msg got
  assume h: "deseg_holds s msg got"
  then show "got \<subseteq> {..<length msg}" by (simp add: deseg_holds_def)
  fix n off :: nat
  assume n: "0 < n" "off + n \<le> length msg" "all_new got off n"
  let ?data = "take n (drop off msg)"
  have l: "length ?data = n" using n(2) by simp
  then obtain d' r where "recv_inner s ?data 0 off n = Some (d', n, r)"
    "if got \<union> {off..<off + n} = {..<length msg} then r = Some msg
     else r = None \<and> deseg_holds d' msg (got \<union> {off..<off + n})"
    using recv_inner_fresh [OF h n, of 0 ?data] by auto
  moreover have "deseg_step s off ?data = map_option (\<lambda>(d, idx, r). (d, r)) (recv_inner s ?data 0 off n)"
    by (simp only: deseg_step_def l)
  ultimately show "\<exists>s' r. deseg_step s off (take n (drop off msg)) = Some (s', r) \<and>
        (if got \<union> {off..<off + n} = {..<length msg} then \<exists>m. r = Some m \<and> m = msg
         else r = None \<and> deseg_holds s' msg (got \<union> {off..<off + n}))"
    by (auto split: if_splits)
qed

section \<open>Properties\<close>

definition new_desegmenter :: "bytes \<Rightarrow> desegmenter" where
  "new_desegmenter m = \<lparr> mem = Some m, dlen = length m, total_set = 0,
     set_segs = replicate ((length m + WIDTH - 1) div WIDTH) 0 \<rparr>"

lemma new_desegmenter_holds: "length m = length msg \<Longrightarrow> deseg_holds (new_desegmenter m) msg {}"
  by (auto simp: deseg_holds_def new_desegmenter_def WIDTH_def)

text \<open>
  C19. Reassembly in any order.  A desegmenter that \<open>try_new\<close> set up for a message of the given length
  and that is handed segments of that message, in any order, of any lengths, none overlapping
  another, returns nothing until the segments cover the message and then returns exactly the message.
\<close>

theorem desegmenter_reassembles:
  assumes "length m = length msg" and "msg \<noteq> []"
    and "\<forall>x\<in>set xs. 0 < snd x \<and> fst x + snd x \<le> length msg" and "all_accepted all_new {} xs"
  shows "\<exists>d r. deliver deseg_step msg (new_desegmenter m) xs = Some (d, r) \<and>
           r = (if covered xs = {..<length msg} then Some msg else None)"
proof (cases "covered xs = {..<length msg}")
  case True
  have "{} \<noteq> {..<length msg}" using assms(2) by auto
  then show ?thesis
    using deseg.deliver_all [OF new_desegmenter_holds [OF assms(1)] _ assms(3,4)] True by auto
next
  case False
  then show ?thesis
    using deseg.deliver_partial [OF new_desegmenter_holds [OF assms(1)] assms(3,4)] by auto
qed

theorem desegmenter_reassembles_witness:
  "\<exists>d. deliver deseg_step [7, 8, 9] (new_desegmenter [0, 0, 0]) [(2, 1), (0, 2)] = Some (d, Some [7, 8, 9])"
proof -
  have "covered [(2, 1), (0, 2)] = {..<length [7, 8, 9 :: u8]}" by auto
  then show ?thesis
    using desegmenter_reassembles [of "[0, 0, 0]" "[7, 8, 9]" "[(2, 1), (0, 2)]"] by (auto simp: all_new_def)
qed

section \<open>Segments that arrive twice\<close>

lemma set_loop_0: "set_loop base 0 start = (start, [])"
  by (subst set_loop.simps) (simp add: lowest_one_None [THEN iffD2])

lemma set_loop_full: "set_loop base (- 1) start = (Some (resume start base), [])"
  by (subst set_loop_run [OF bit_run_masks(4)]) simp

lemma full_word: "mask 64 = (- 1 :: u64)"
  by (rule bit_word_eqI) (simp add: bit_simps)

lemmas run_over_eval =
  full_word
  run_over_unset_ranges_def check_and_set_bits_def get_idx_def checked_sub_def WIDTH_def Let_def
  set_loop_0 set_loop_full resume_def flush_def

lemma zero_words: "replicate 3 (0 :: u64) = [0, 0, 0]" "replicate 4 (0 :: u64) = [0, 0, 0, 0]"
  by (simp_all add: eval_nat_numeral)

lemma run_over_overlap:
  "run_over_unset_ranges 192 [0, 0, 0] (64, 128) = Some ([0, - 1, 0], [(64, 128)])"
  "run_over_unset_ranges 192 [0, - 1, 0] (0, 128) = Some ([- 1, - 1, 0], [(0, 128)])"
  by (simp_all add: run_over_eval)

lemma run_over_skipped:
  "run_over_unset_ranges 256 [0, 0, 0, 0] (0, 192) = Some ([- 1, 0, - 1, 0], [(0, 192)])"
  "run_over_unset_ranges 256 [- 1, 0, - 1, 0] (64, 128) = Some ([- 1, - 1, - 1, 0], [(64, 128)])"
  by (simp_all add: run_over_eval upt_rec)

text \<open>
  An overlapping segment completes a message too early.  When the middle third of a message of
  192 bytes has arrived and then the first two thirds arrive as one segment, the pending range runs
  on over the word that was already set, its bytes are counted twice, and the desegmenter returns the
  message although its last third never arrived: that part is what was in the memory before.
\<close>

theorem desegmenter_overlap_completes_early:
  assumes "length msg = 192" and "length m = 192"
  shows "\<exists>d m'. deliver deseg_step msg (new_desegmenter m) [(64, 64), (0, 128)] = Some (d, Some m') \<and>
           drop 128 m' = drop 128 m"
  using assms
  by (simp add: deseg_step_def recv_inner_def new_desegmenter_def WIDTH_def zero_words
      run_over_overlap slice_def copy_range_def Let_def)

theorem desegmenter_overlap_completes_early_witness:
  "\<exists>d m'. deliver deseg_step (replicate 192 7) (new_desegmenter (replicate 192 0)) [(64, 64), (0, 128)] = Some (d, Some m') \<and>
     m' \<noteq> replicate 192 7"
proof -
  obtain d m' where "deliver deseg_step (replicate 192 7) (new_desegmenter (replicate 192 0)) [(64, 64), (0, 128)] = Some (d, Some m')"
    "drop 128 m' = drop 128 (replicate 192 0)"
    using desegmenter_overlap_completes_early [of "replicate 192 7" "replicate 192 0"] by auto
  moreover from this(2) have "m' \<noteq> replicate 192 7" by auto
  ultimately show ?thesis by blast
qed

text \<open>
  A segment that covers three or more words leaves the last but one of them unmarked, so that a
  duplicate of its bytes is counted again: after a segment of 192 bytes and a duplicate of its
  second third, a message of 256 bytes is returned although its last quarter never arrived.
\<close>

theorem desegmenter_duplicate_completes_early:
  assumes "length msg = 256" and "length m = 256"
  shows "\<exists>d m'. deliver deseg_step msg (new_desegmenter m) [(0, 192), (64, 64)] = Some (d, Some m') \<and>
           drop 192 m' = drop 192 m"
  using assms
  by (simp add: deseg_step_def recv_inner_def new_desegmenter_def WIDTH_def zero_words
      run_over_skipped slice_def copy_range_def Let_def)

theorem desegmenter_duplicate_completes_early_witness:
  "\<exists>d m'. deliver deseg_step (replicate 256 7) (new_desegmenter (replicate 256 0)) [(0, 192), (64, 64)] = Some (d, Some m') \<and>
     m' \<noteq> replicate 256 7"
proof -
  obtain d m' where "deliver deseg_step (replicate 256 7) (new_desegmenter (replicate 256 0)) [(0, 192), (64, 64)] = Some (d, Some m')"
    "drop 192 m' = drop 192 (replicate 256 0)"
    using desegmenter_duplicate_completes_early [of "replicate 256 7" "replicate 256 0"] by auto
  moreover from this(2) have "m' \<noteq> replicate 256 7" by auto
  ultimately show ?thesis by blast
qed

section \<open>Headers\<close>

lemma read_opt_index:
  assumes "idx \<le> length packet" and "read_opt p packet idx = (r, j)"
  shows "idx \<le> j \<and> j \<le> length packet \<and> (if p then r \<noteq> Some None else r = Some None \<and> j = idx)"
proof (cases p)
  case True
  obtain v k where v: "varusize_try_read packet idx = (v, k)" by (meson surj_pair)
  then have "idx \<le> k \<and> k \<le> length packet"
    using impl_try_read_index [OF assms(1) v [unfolded varusize_try_read_def]] by simp
  then show ?thesis using True v assms(2) by (auto simp: read_opt_def)
qed (use assms in \<open>simp add: read_opt_def\<close>)



text \<open>
  For a segment with a length field the bound is off: the length is compared with the bytes left
  before the field is read, so the range of the data can end behind the packet.  Here a packet of
  three bytes is accepted as a whole message of two bytes at the range from 2 to 4.
\<close>

theorem read_header_length_field_overruns:
  "try_single_seg [2, 2, x] 0 True False False = Some (Inr (2, 4), 4) \<and> 4 > length [2, 2, x]"
  by (simp add: try_single_seg_def read_header_def read_opt_def varusize_try_read_def impl_try_read_def
      checked_add_def checked_sub_def usize_bound_def)

text \<open>
  An empty segment at the start of a message makes the desegmenter panic: the end of its range is
  decremented below zero.
\<close>

theorem empty_first_segment_panics: "recv_inner d packet idx 0 0 = None"
  by (simp add: recv_inner_def run_over_unset_ranges_def checked_sub_def)

end
