(* ===== verification/Session_State.thy ===== *)
theory Session_State
  imports Session_Protocol
begin

text \<open>
  The state of a session: the documents being received and sent, the channels on them and the two
  tables, as \<open>session copy.rs\<close> declares them for \<open>recv.rs\<close>, \<open>channel.rs\<close>, \<open>send.rs\<close> and
  \<open>packet_builder.rs\<close> (the rewrite of the declarations in \<open>session.rs\<close> is not finished and these
  files do not use it yet).  A document number is a \<open>u64\<close>.

  A waker is an opaque identity; calls of \<open>wake()\<close> are recorded in the field \<open>woken\<close>.  The body of
  \<open>schedule_send_control\<close> is \<open>todo!()\<close>; its calls are recorded in the field \<open>scheduled\<close>.
\<close>

type_synonym waker = nat
type_synonym address = nat

section \<open>Documents and channels\<close>

record unreleased_channel =
  uc_doc_no :: u64
  uc_has_special_parent :: bool
  uc_is_closed :: bool

record unfinished_recv_doc =
  ur_buf :: bytes
  ur_doc_no :: u64
  ur_has_special_parent :: bool
  ur_is_closed :: bool

datatype special_reply_state =
    Awaiting "(address \<times> address) option" waker
  | RecvReply nat unreleased_channel
  | NoReply

record open_channel =
  ref_count :: nat
  ready_wakers :: "waker list"
  ready_docs :: "unfinished_recv_doc list"
  reply_buffer :: special_reply_state

datatype doc_mem = Simple bytes | ReplyBuf address address

record recv_doc =
  rd_has_special_parent :: bool
  rd_parent_no :: "u64 option"
  rd_mem :: doc_mem
  rd_total_recv :: nat
  rd_set_segs :: "u64 list"

datatype recv_doc_state = ActiveReserved | Active recv_doc | Finishing "waker list" | FinAck | FinParentClose

record recv_slot =
  rs_doc_no :: u64
  rs_doc :: recv_doc_state
  rs_channel :: "open_channel option"
  rs_adoptable_orphans :: "unfinished_recv_doc list"
  rs_orphans_expected_parent_no :: "u64 option"
  rs_needs_send_control :: bool

record send_doc =
  sd_parent_no :: u64
  sd_has_special_parent :: bool
  sd_has_been_acked :: bool
  sd_next_seg_off :: nat
  sd_data :: bytes
  sd_flush_wakers :: "waker list"

record send_slot =
  ss_doc_no :: u64
  ss_needs_send_close :: bool
  ss_doc :: "send_doc option"
  ss_channel :: "open_channel option"

section \<open>Sessions\<close>

text \<open>
  The reply buffers that the application lends to the session are memory outside of it: the field
  \<open>heap\<close> holds that memory, by address.
\<close>

record session =
  is_initiator :: bool
  session_mtu :: u32
  recv_bytes_total :: nat
  recv_bytes_max :: nat
  recv_table :: "recv_slot list"
  send_bytes_total :: u64
  send_bytes_max :: u64
  send_total :: nat
  send_doc_no :: u64
  send_wakers :: "waker list"
  send_table :: "send_slot list"
  send_queue :: "u64 list"
  heap :: "address \<Rightarrow> u8"
  woken :: "waker list"
  scheduled :: "(u8 \<times> u64) list"

text \<open>The default state of a slot of the receive table.\<close>

definition slot_is_fin :: "recv_doc_state \<Rightarrow> bool" where
  "slot_is_fin d = (case d of Finishing _ \<Rightarrow> True | FinAck \<Rightarrow> True | _ \<Rightarrow> False)"

definition try_incoming :: "special_reply_state \<Rightarrow> special_reply_state \<times> (address \<times> address) option" where
  "try_incoming r = (case r of Awaiting ret w \<Rightarrow> (Awaiting None w, ret) | _ \<Rightarrow> (r, None))"

text \<open>Waking is recorded in the order of the calls; the wakers of a list are popped from its end.\<close>

definition wake_all :: "waker list \<Rightarrow> session \<Rightarrow> session" where
  "wake_all ws s = s\<lparr> woken := woken s @ rev ws \<rparr>"

definition reply_wake :: "special_reply_state \<Rightarrow> session \<Rightarrow> session" where
  "reply_wake r s = (case r of Awaiting _ w \<Rightarrow> wake_all [w] s | _ \<Rightarrow> s)"

definition drop_flushers :: "waker list \<Rightarrow> session \<Rightarrow> session" where
  "drop_flushers = wake_all"

definition drop_send_doc :: "send_doc \<Rightarrow> session \<Rightarrow> session" where
  "drop_send_doc d = wake_all (sd_flush_wakers d)"

definition schedule_send_control :: "u8 \<Rightarrow> u64 \<Rightarrow> session \<Rightarrow> session" where
  "schedule_send_control variant doc_no s = s\<lparr> scheduled := scheduled s @ [(variant, doc_no)] \<rparr>"

definition abandon :: "session \<Rightarrow> session" where
  "abandon s = s\<lparr> send_bytes_max := 0 \<rparr>"

section \<open>Slots\<close>

definition is_sending :: "session \<Rightarrow> u64 \<Rightarrow> bool" where
  "is_sending s doc_no \<longleftrightarrow> (doc_no AND 1 > 0) = is_initiator s"

text \<open>The slot of a number in a table; an empty table makes the remainder panic.\<close>

definition slot_idx :: "u64 \<Rightarrow> 'a list \<Rightarrow> nat option" where
  "slot_idx doc_no table =
     (if length table = 0 then None else Some (unat (drop_bit 1 doc_no) mod length table))"

definition update_channel ::
  "u64 \<Rightarrow> (open_channel \<Rightarrow> open_channel \<times> 'r) \<Rightarrow> session \<Rightarrow> (session \<times> 'r option) option" where
  "update_channel doc_no f s =
     (if is_sending s doc_no then
        (case slot_idx doc_no (send_table s) of
           None \<Rightarrow> None
         | Some i \<Rightarrow>
             let entry = send_table s ! i in
             if ss_doc_no entry = doc_no then
               (case ss_channel entry of
                  None \<Rightarrow> Some (s, None)
                | Some ch \<Rightarrow>
                    let (ch', r) = f ch in
                    Some (s\<lparr> send_table := (send_table s)[i := entry\<lparr> ss_channel := Some ch' \<rparr>] \<rparr>, Some r))
             else Some (s, None))
      else
        (case slot_idx doc_no (recv_table s) of
           None \<Rightarrow> None
         | Some i \<Rightarrow>
             let entry = recv_table s ! i in
             if rs_doc_no entry = doc_no then
               (case rs_channel entry of
                  None \<Rightarrow> Some (s, None)
                | Some ch \<Rightarrow>
                    let (ch', r) = f ch in
                    Some (s\<lparr> recv_table := (recv_table s)[i := entry\<lparr> rs_channel := Some ch' \<rparr>] \<rparr>, Some r))
             else Some (s, None)))"

end
