(* ===== verification/Packet_Builder.thy ===== *)
theory Packet_Builder
  imports Session_State Ack_Runs
begin

text \<open>
  Segments and packets, \<open>session/src/packet_builder.rs\<close>: cutting a document into segments, and
  appending segments, control frames and acknowledgements to a packet that must not grow beyond the
  MTU.  The function \<open>send_now\<close> is not here: it hands the packet to encryption and to the route.
\<close>

section \<open>Data\<close>

record segment =
  variant_and_header_len :: usize
  seg_doc_no :: u64
  seg_doc_len :: nat
  seg_doc_parent_no :: u64
  seg_off :: nat
  seg_data :: bytes

datatype eliciting_frame = Seg segment | Control u8 u64

record packet_builder =
  pb_mtu :: u32
  socket_binding :: "(bool \<times> u32) option"
  buf :: bytes
  resend_len :: u32
  eliciting_frames :: "eliciting_frame list"

definition pack_variant :: "u8 \<Rightarrow> nat \<Rightarrow> usize" where
  "pack_variant variant header_len = ucast variant OR push_bit 8 (word_of_nat header_len)"

definition seg_variant :: "segment \<Rightarrow> u8" where
  "seg_variant seg = ucast (variant_and_header_len seg)"

definition seg_header_len :: "segment \<Rightarrow> nat" where
  "seg_header_len seg = unat (drop_bit 8 (variant_and_header_len seg))"

text \<open>The length of the varint of a length or an offset.\<close>

definition len_of_usize :: "nat \<Rightarrow> nat" where
  "len_of_usize n = varusize_len (word_of_nat n)"

definition flag :: "bool \<Rightarrow> u8 \<Rightarrow> u8" where
  "flag b f = (if b then f else 0)"

definition has_flag :: "u8 \<Rightarrow> u8 \<Rightarrow> bool" where
  "has_flag variant f \<longleftrightarrow> variant AND f > 0"

section \<open>Cutting a document\<close>

text \<open>\<open>Inl False\<close>: nothing is left to send; \<open>Inl True\<close>: the packet has no room.\<close>

definition seg_try_new :: "u64 \<Rightarrow> send_doc \<Rightarrow> bool \<Rightarrow> nat \<Rightarrow> send_doc \<times> (bool + segment)" where
  "seg_try_new doc_no doc is_closed remaining_cap =
     (if sd_next_seg_off doc \<ge> length (sd_data doc) then (doc, Inl False)
      else
        let off = sd_next_seg_off doc; doc_len = length (sd_data doc); total_left = doc_len - off;
            special = sd_has_special_parent doc; parent_no = sd_parent_no doc;
            variant = flag is_closed VARIANT_SEG_FLAG_IS_CLOSED;
            header_len = 1 + varu64_len doc_no;
            first = (off = 0);
            variant1 = (if first then variant OR VARIANT_SEG_FLAG_IS_FIRST OR flag special VARIANT_SEG_FLAG_HAS_SPECIAL_PARENT
                        else variant OR flag (\<not> sd_has_been_acked doc \<and> special) VARIANT_SEG_FLAG_HAS_SPECIAL_PARENT);
            header_len1 = (if first then header_len + varu64_len parent_no
                           else header_len + (if \<not> sd_has_been_acked doc \<and> special then varu64_len parent_no else 0)
                                + len_of_usize off) in
        if first \<and> header_len1 + doc_len \<le> remaining_cap then
          (doc\<lparr> sd_next_seg_off := doc_len \<rparr>,
           Inr \<lparr> variant_and_header_len = pack_variant (variant1 OR VARIANT_SEG_FLAG_IS_SINGLE_SEG) header_len1,
                 seg_doc_no = doc_no, seg_doc_len = doc_len, seg_doc_parent_no = parent_no, seg_off = off,
                 seg_data = sd_data doc \<rparr>)
        else
          let variant2 = variant1 OR flag (\<not> sd_has_been_acked doc) VARIANT_SEG_FLAG_HAS_DOC_LEN;
              header_len2 = header_len1 + (if sd_has_been_acked doc then 0 else len_of_usize doc_len) in
          if header_len2 + MIN_SEG_DATA_LEN > remaining_cap then (doc, Inl True)
          else
            let seg_len = min total_left (remaining_cap - header_len2) in
            (doc\<lparr> sd_next_seg_off := off + seg_len \<rparr>,
             Inr \<lparr> variant_and_header_len = pack_variant variant2 header_len2,
                   seg_doc_no = doc_no, seg_doc_len = doc_len, seg_doc_parent_no = parent_no, seg_off = off,
                   seg_data = take seg_len (drop off (sd_data doc)) \<rparr>))"

section \<open>Building a packet\<close>

definition packet_new :: "u32 \<Rightarrow> packet_builder" where
  "packet_new mtu = \<lparr> pb_mtu = mtu, socket_binding = None, buf = replicate HEADER_LEN 0, resend_len = 0,
     eliciting_frames = [] \<rparr>"

definition is_empty :: "packet_builder \<Rightarrow> bool" where
  "is_empty p \<longleftrightarrow> buf p = []"

definition remaining_cap :: "packet_builder \<Rightarrow> nat option" where
  "remaining_cap p = checked_sub (unat (pb_mtu p)) (length (buf p))"

definition is_full :: "packet_builder \<Rightarrow> bool option" where
  "is_full p = map_option (\<lambda>c. c < MIN_FRAME_APPEND_LEN) (remaining_cap p)"

text \<open>The header of a segment frame, the variant byte first.\<close>

definition write_header :: "bytes \<Rightarrow> u8 \<Rightarrow> segment \<Rightarrow> bytes" where
  "write_header b variant seg =
     (let special = has_flag variant VARIANT_SEG_FLAG_HAS_SPECIAL_PARENT;
          has_doc_len = has_flag variant VARIANT_SEG_FLAG_HAS_DOC_LEN;
          first = has_flag variant VARIANT_SEG_FLAG_IS_FIRST;
          b = varu64_write (b @ [variant]) (seg_doc_no seg);
          b = (if has_doc_len then varusize_write b (word_of_nat (seg_doc_len seg)) else b);
          b = (if special \<or> first then varu64_write b (seg_doc_parent_no seg) else b) in
      if \<not> first then varusize_write b (word_of_nat (seg_off seg)) else b)"

text \<open>The data of a segment frame; the first argument is the room left behind the header.\<close>

definition write_data :: "nat \<Rightarrow> bytes \<Rightarrow> nat \<Rightarrow> bytes \<Rightarrow> bytes option" where
  "write_data data_cap b variant_idx data =
     (let seg_len = length data in
      if seg_len = data_cap then Some (b[variant_idx := b ! variant_idx OR VARIANT_SEG_IS_TERMINATOR] @ data)
      else if seg_len + len_of_usize seg_len \<le> data_cap then
        Some (varusize_write (b[variant_idx := b ! variant_idx OR VARIANT_SEG_HAS_LEN]) (word_of_nat seg_len) @ data)
      else (case checked_sub data_cap seg_len of
          None \<Rightarrow> None
        | Some c \<Rightarrow>
            if c > 0 then
              Some (b[variant_idx := b ! variant_idx OR VARIANT_SEG_HAS_TERMINATOR] @ data
                    @ [VARIANT_NULL_TERMINATOR] @ replicate (c - 1) VARIANT_PADDING)
            else None))"

definition append_seg :: "packet_builder \<Rightarrow> segment \<Rightarrow> (packet_builder \<times> bool) option" where
  "append_seg p seg =
     (let variant_idx = length (buf p); b = write_header (buf p) (seg_variant seg) seg in
      if seg_header_len seg \<noteq> length b - variant_idx then None
      else case checked_sub (unat (pb_mtu p)) (length b) of
          None \<Rightarrow> None
        | Some data_cap \<Rightarrow>
            (case write_data data_cap b variant_idx (seg_data seg) of
               None \<Rightarrow> None
             | Some b \<Rightarrow>
                 (case add_u32 (resend_len p) (word_of_nat (length b - variant_idx)) of
                    None \<Rightarrow> None
                  | Some r \<Rightarrow>
                      let p = p\<lparr> buf := b, resend_len := r, eliciting_frames := eliciting_frames p @ [Seg seg] \<rparr> in
                      map_option (\<lambda>full. (p, full)) (is_full p))))"

text \<open>Splitting a segment that does not fit: the part that does and the rest.\<close>

definition split_seg :: "segment \<Rightarrow> u8 \<Rightarrow> nat \<Rightarrow> nat \<Rightarrow> (segment \<times> segment) option" where
  "split_seg seg variant header_len data_cap =
     (let split_idx = data_cap - header_len; new_off = seg_off seg + split_idx;
          first = has_flag variant VARIANT_SEG_FLAG_IS_FIRST;
          new_variant = (if first then variant AND NOT VARIANT_SEG_FLAG_IS_FIRST else variant) in
      case (if first then
              (if has_flag variant VARIANT_SEG_FLAG_HAS_SPECIAL_PARENT then Some (header_len + len_of_usize new_off)
               else checked_sub (header_len + len_of_usize new_off) (varu64_len (seg_doc_parent_no seg)))
            else Some header_len) of
        None \<Rightarrow> None
      | Some new_header_len \<Rightarrow>
          Some (seg\<lparr> variant_and_header_len := pack_variant variant header_len, seg_data := take split_idx (seg_data seg) \<rparr>,
                seg\<lparr> variant_and_header_len := pack_variant new_variant new_header_len, seg_off := new_off,
                     seg_data := drop split_idx (seg_data seg) \<rparr>))"

definition try_append_seg ::
  "packet_builder \<Rightarrow> segment \<Rightarrow> (packet_builder \<times> bool \<times> segment option) option" where
  "try_append_seg p seg =
     (case remaining_cap p of
        None \<Rightarrow> None
      | Some data_cap \<Rightarrow>
          let variant = seg_variant seg; header_len = seg_header_len seg in
          if header_len + MIN_SEG_DATA_LEN > data_cap then Some (p, True, Some seg)
          else if header_len + length (seg_data seg) > data_cap then
            let single = has_flag variant VARIANT_SEG_FLAG_IS_SINGLE_SEG;
                variant1 = (if single then variant AND NOT VARIANT_SEG_FLAG_IS_SINGLE_SEG else variant);
                add_len = (single \<and> \<not> has_flag variant1 VARIANT_SEG_FLAG_HAS_DOC_LEN);
                variant2 = (if add_len then variant1 OR VARIANT_SEG_FLAG_HAS_DOC_LEN else variant1);
                header_len = (if add_len then header_len + len_of_usize (seg_doc_len seg) else header_len) in
            if single \<and> header_len + MIN_SEG_DATA_LEN > data_cap then Some (p, True, Some seg)
            else (case split_seg seg variant2 header_len data_cap of
                None \<Rightarrow> None
              | Some (seg, rest) \<Rightarrow>
                  map_option (\<lambda>(p, full). (p, full, Some rest)) (append_seg p seg))
          else map_option (\<lambda>(p, full). (p, full, None)) (append_seg p seg))"

definition append_control :: "packet_builder \<Rightarrow> u8 \<Rightarrow> u64 \<Rightarrow> (packet_builder \<times> bool) option" where
  "append_control p variant doc_no =
     (let i = length (buf p); b = varu64_write (buf p @ [variant]) doc_no in
      case add_u32 (resend_len p) (word_of_nat (length b - i)) of
        None \<Rightarrow> None
      | Some r \<Rightarrow>
          let p = p\<lparr> buf := b, resend_len := r, eliciting_frames := eliciting_frames p @ [Control variant doc_no] \<rparr> in
          map_option (\<lambda>full. (p, full)) (is_full p))"

text \<open>The acknowledgements that are written are removed from the list.\<close>

definition append_sorted_acks ::
  "packet_builder \<Rightarrow> u32 list \<Rightarrow> bool \<Rightarrow> u32 \<Rightarrow> (packet_builder \<times> u32 list \<times> bool) option" where
  "append_sorted_acks p acks socket_idx socket_uid =
     (case encode (buf p) acks (unat (pb_mtu p)) of
        None \<Rightarrow> None
      | Some (b, total_written) \<Rightarrow>
          let p = p\<lparr> buf := b \<rparr>;
              (p, acks) = (if total_written > 0
                then (p\<lparr> socket_binding := Some (socket_idx, socket_uid) \<rparr>, drop total_written acks)
                else (p, acks)) in
          map_option (\<lambda>full. (p, acks, full)) (is_full p))"

end
