(* ===== verification/Recv_Parse.thy ===== *)
theory Recv_Parse
  imports Packet_Builder
begin

text \<open>
  The first part of \<open>recv_seg\<close> of \<open>session/src/recv.rs\<close>: reading a segment frame out of a packet.
  The variant byte was read by the caller.
\<close>

datatype recv_error = Inauthentic | Invalid

record parsed_seg =
  ps_special :: bool
  ps_is_closed :: bool
  ps_doc_no :: u64
  ps_doc_len :: "nat option"
  ps_parent_no :: "u64 option"
  ps_seg_off :: nat
  ps_seg :: bytes

text \<open>The search for the null byte behind a segment, from the end of the packet.\<close>

fun find_null :: "bytes \<Rightarrow> nat \<Rightarrow> nat \<Rightarrow> nat option option" where
  "find_null packet seg_start seg_end =
     (if seg_start > seg_end then Some None
      else if packet ! seg_end = VARIANT_NULL_TERMINATOR then Some (Some seg_end)
      else case seg_end of 0 \<Rightarrow> None | Suc e \<Rightarrow> find_null packet seg_start e)"

declare find_null.simps [simp del]

definition parse_data :: "u8 \<Rightarrow> bytes \<Rightarrow> nat \<Rightarrow> ((recv_error + bytes) \<times> nat) option" where
  "parse_data variant_len packet i =
     (if variant_len = VARIANT_SEG_IS_TERMINATOR then
        (if i > length packet then None else Some (Inr (drop i packet), length packet))
      else if variant_len = VARIANT_SEG_HAS_LEN then
        (case varusize_try_read packet i of
           (None, i) \<Rightarrow> Some (Inl Invalid, i)
         | (Some seg_len, i) \<Rightarrow>
             let j = min (i + unat seg_len) (usize_bound - 1) in
             (case slice packet i j of
                None \<Rightarrow> Some (Inl Invalid, j)
              | Some seg \<Rightarrow> Some (Inr seg, j)))
      else if variant_len \<noteq> VARIANT_SEG_HAS_TERMINATOR \<or> packet = [] then None
      else (case find_null packet i (length packet - 1) of
          None \<Rightarrow> None
        | Some None \<Rightarrow> Some (Inl Invalid, length packet)
        | Some (Some seg_end) \<Rightarrow> Some (Inr (take (seg_end - i) (drop i packet)), length packet)))"

definition parse_seg :: "u8 \<Rightarrow> bytes \<Rightarrow> nat \<Rightarrow> ((recv_error + parsed_seg) \<times> nat) option" where
  "parse_seg variant packet i =
     (let special = has_flag variant VARIANT_SEG_FLAG_HAS_SPECIAL_PARENT;
          has_doc_len = has_flag variant VARIANT_SEG_FLAG_HAS_DOC_LEN;
          is_single_seg = has_flag variant VARIANT_SEG_FLAG_IS_SINGLE_SEG;
          is_first = has_flag variant VARIANT_SEG_FLAG_IS_FIRST;
          is_closed = has_flag variant VARIANT_SEG_FLAG_IS_CLOSED in
      case varu64_try_read packet i of
        (None, i) \<Rightarrow> Some (Inl Invalid, i)
      | (Some doc_no, i) \<Rightarrow>
          (case (if has_doc_len then varusize_try_read packet i else (Some 0, i)) of
             (None, i) \<Rightarrow> Some (Inl Invalid, i)
           | (Some doc_len', i) \<Rightarrow>
               (case (if special \<or> is_first then varu64_try_read packet i else (Some 0, i)) of
                  (None, i) \<Rightarrow> Some (Inl Invalid, i)
                | (Some p, i) \<Rightarrow>
                    if (special \<or> is_first) \<and> p \<ge> doc_no then Some (Inl Invalid, i)
                    else (case (if \<not> is_first then varusize_try_read packet i else (Some 0, i)) of
                        (None, i) \<Rightarrow> Some (Inl Invalid, i)
                      | (Some off, i) \<Rightarrow>
                          (case parse_data (variant AND VARIANT_SEG_LEN_MASK) packet i of
                             None \<Rightarrow> None
                           | Some (Inl e, i) \<Rightarrow> Some (Inl e, i)
                           | Some (Inr seg, i) \<Rightarrow>
                               Some (Inr \<lparr> ps_special = special, ps_is_closed = is_closed, ps_doc_no = doc_no,
                                 ps_doc_len = (if has_doc_len then Some (unat doc_len')
                                               else if is_single_seg then Some (length seg) else None),
                                 ps_parent_no = (if special \<or> is_first then Some p else None),
                                 ps_seg_off = unat off, ps_seg = seg \<rparr>, i))))))"

end
