(* ===== verification/Packet_Correct.thy ===== *)
theory Packet_Correct
  imports Recv_Parse Ack_Runs_Correct
begin

text \<open>
  Packets and segments are built as they are read: the header length that a segment carries is the
  length of the header that is written, the packet never grows beyond the MTU, and the parser of the
  receiver gets back what was appended.
\<close>

section \<open>Flags and packed fields\<close>

lemma has_flag_exp: "has_flag v (2 ^ n) \<longleftrightarrow> bit v n"
proof -
  have "v AND 2 ^ n = 0 \<longleftrightarrow> \<not> bit v n"
  proof
    assume "v AND 2 ^ n = 0"
    then have "\<not> bit (v AND 2 ^ n) n" by simp
    then show "\<not> bit v n" by (auto simp: bit_simps dest: bit_imp_le_length)
  next
    assume "\<not> bit v n"
    then show "v AND 2 ^ n = 0" by (intro bit_word_eqI) (auto simp: bit_simps)
  qed
  then show ?thesis by (simp add: has_flag_def word_gt_0)
qed

lemma has_flag_bits [simp]:
  "has_flag v VARIANT_SEG_FLAG_IS_FIRST \<longleftrightarrow> bit v 2"
  "has_flag v VARIANT_SEG_FLAG_HAS_SPECIAL_PARENT \<longleftrightarrow> bit v 3"
  "has_flag v VARIANT_SEG_FLAG_HAS_DOC_LEN \<longleftrightarrow> bit v 4"
  "has_flag v VARIANT_SEG_FLAG_IS_SINGLE_SEG \<longleftrightarrow> bit v 5"
  "has_flag v VARIANT_SEG_FLAG_IS_CLOSED \<longleftrightarrow> bit v 6"
  using has_flag_exp [of v 2] has_flag_exp [of v 3] has_flag_exp [of v 4] has_flag_exp [of v 5] has_flag_exp [of v 6]
  by (simp_all add: VARIANT_SEG_FLAG_IS_FIRST_def VARIANT_SEG_FLAG_HAS_SPECIAL_PARENT_def
      VARIANT_SEG_FLAG_HAS_DOC_LEN_def VARIANT_SEG_FLAG_IS_SINGLE_SEG_def VARIANT_SEG_FLAG_IS_CLOSED_def)

lemma flag_bits:
  "bit VARIANT_SEG_FLAG_IS_FIRST n \<longleftrightarrow> n = 2"
  "bit VARIANT_SEG_FLAG_HAS_SPECIAL_PARENT n \<longleftrightarrow> n = 3"
  "bit VARIANT_SEG_FLAG_HAS_DOC_LEN n \<longleftrightarrow> n = 4"
  "bit VARIANT_SEG_FLAG_IS_SINGLE_SEG n \<longleftrightarrow> n = 5"
  "bit VARIANT_SEG_FLAG_IS_CLOSED n \<longleftrightarrow> n = 6"
  "bit (flag c f) n \<longleftrightarrow> c \<and> bit f n"
proof -
  have e: "bit (2 ^ k :: u8) n \<longleftrightarrow> k < 8 \<and> n = k" for k by (auto simp: bit_simps)
  show "bit VARIANT_SEG_FLAG_IS_FIRST n \<longleftrightarrow> n = 2" using e [of 2] by (simp add: VARIANT_SEG_FLAG_IS_FIRST_def)
  show "bit VARIANT_SEG_FLAG_HAS_SPECIAL_PARENT n \<longleftrightarrow> n = 3"
    using e [of 3] by (simp add: VARIANT_SEG_FLAG_HAS_SPECIAL_PARENT_def)
  show "bit VARIANT_SEG_FLAG_HAS_DOC_LEN n \<longleftrightarrow> n = 4" using e [of 4] by (simp add: VARIANT_SEG_FLAG_HAS_DOC_LEN_def)
  show "bit VARIANT_SEG_FLAG_IS_SINGLE_SEG n \<longleftrightarrow> n = 5" using e [of 5] by (simp add: VARIANT_SEG_FLAG_IS_SINGLE_SEG_def)
  show "bit VARIANT_SEG_FLAG_IS_CLOSED n \<longleftrightarrow> n = 6" using e [of 6] by (simp add: VARIANT_SEG_FLAG_IS_CLOSED_def)
  show "bit (flag c f) n \<longleftrightarrow> c \<and> bit f n" by (simp add: flag_def)
qed

text \<open>A segment's own variant byte leaves the two bits for the length type to \<open>append_seg\<close>.\<close>

definition no_len_bits :: "u8 \<Rightarrow> bool" where
  "no_len_bits v \<longleftrightarrow> \<not> bit v 0 \<and> \<not> bit v 1"

lemma len_bits_set:
  assumes "no_len_bits v" and "t \<in> {VARIANT_SEG_HAS_LEN, VARIANT_SEG_IS_TERMINATOR, VARIANT_SEG_HAS_TERMINATOR}"
  shows "(v OR t) AND VARIANT_SEG_LEN_MASK = t" and "2 \<le> n \<Longrightarrow> bit (v OR t) n = bit v n"
proof -
  have t: "t = 1 \<or> t = 2 \<or> t = 3"
    using assms(2) by (auto simp: VARIANT_SEG_HAS_LEN_def VARIANT_SEG_IS_TERMINATOR_def VARIANT_SEG_HAS_TERMINATOR_def)
  then have m: "t AND mask 2 = t" by (auto simp: mask_eq_exp_minus_1)
  have "v AND mask 2 = 0"
    using assms(1) by (intro bit_word_eqI) (auto simp: bit_simps no_len_bits_def less_2_cases_iff intro!: gr0I)
  then show "(v OR t) AND VARIANT_SEG_LEN_MASK = t"
    using m by (simp add: VARIANT_SEG_LEN_MASK_def mask_eq_exp_minus_1 bit.conj_disj_distrib2)
  have "bit t n \<Longrightarrow> n < 2"
    using m by (metis bit_and_iff bit_mask_iff)
  then show "2 \<le> n \<Longrightarrow> bit (v OR t) n = bit v n" by (auto simp: bit_simps)
qed

lemma seg_variant_pack [simp]: "variant_and_header_len s = pack_variant v h \<Longrightarrow> seg_variant s = v"
  by (simp add: seg_variant_def pack_variant_def) (rule bit_word_eqI, auto simp: bit_simps)

lemma seg_header_len_pack [simp]:
  assumes "variant_and_header_len s = pack_variant v h" and "h < 2 ^ 56"
  shows "seg_header_len s = h"
proof -
  have "drop_bit 8 (pack_variant v h) = take_bit 56 (word_of_nat h)"
    by (rule bit_word_eqI) (auto simp: pack_variant_def bit_simps dest: bit_imp_le_length)
  then have "seg_header_len s = unat (word_of_nat h :: usize) mod 2 ^ 56"
    unfolding seg_header_len_def assms(1) by (simp only: unat_take_bit)
  then show ?thesis using assms(2) by (simp add: unat_of_nat)
qed

section \<open>The header\<close>

definition opt :: "bool \<Rightarrow> 'a list \<Rightarrow> 'a list" where
  "opt c xs = (if c then xs else [])"

text \<open>The bytes of a header behind the variant byte, and their number.\<close>

definition header_bytes :: "u8 \<Rightarrow> segment \<Rightarrow> bytes" where
  "header_bytes v seg = varu64_write [] (seg_doc_no seg)
     @ opt (bit v 4) (varusize_write [] (word_of_nat (seg_doc_len seg)))
     @ opt (bit v 3 \<or> bit v 2) (varu64_write [] (seg_doc_parent_no seg))
     @ opt (\<not> bit v 2) (varusize_write [] (word_of_nat (seg_off seg)))"

definition header_size :: "u8 \<Rightarrow> segment \<Rightarrow> nat" where
  "header_size v seg = 1 + varu64_len (seg_doc_no seg)
     + (if bit v 4 then len_of_usize (seg_doc_len seg) else 0)
     + (if bit v 3 \<or> bit v 2 then varu64_len (seg_doc_parent_no seg) else 0)
     + (if \<not> bit v 2 then len_of_usize (seg_off seg) else 0)"

lemma varint_len_le: "varu64_len v \<le> 8" "0 < varu64_len v" "len_of_usize n \<le> 8" "0 < len_of_usize n"
  by (simp_all add: varu64_len_def len_of_usize_def varusize_len_def)

lemma header_size_small: "header_size v seg < 2 ^ 56" "header_size v seg \<le> MAX_SEG_HEADER_LEN"
proof -
  have "header_size v seg \<le> 33"
    using varint_len_le(1) [of "seg_doc_no seg"] varint_len_le(1) [of "seg_doc_parent_no seg"]
      varint_len_le(3) [of "seg_doc_len seg"] varint_len_le(3) [of "seg_off seg"]
    by (simp add: header_size_def)
  then show "header_size v seg < 2 ^ 56" "header_size v seg \<le> MAX_SEG_HEADER_LEN"
    by (simp_all add: MAX_SEG_HEADER_LEN_def)
qed

lemma length_header_bytes: "length (header_bytes v seg) + 1 = header_size v seg"
  by (simp add: header_bytes_def header_size_def opt_def v64.length_written vusize.length_written len_of_usize_def)

lemma write_header_bytes: "write_header b v seg = b @ v # header_bytes v seg"
  by (simp add: write_header_def header_bytes_def opt_def Let_def
      v64.write_append [of "_ @ _"] vusize.write_append [of "_ @ _"])

section \<open>Appending a segment\<close>

text \<open>A well-formed segment carries the length of its own header.\<close>

definition seg_wf :: "segment \<Rightarrow> bool" where
  "seg_wf seg \<longleftrightarrow> seg_header_len seg = header_size (seg_variant seg) seg \<and> no_len_bits (seg_variant seg)"

text \<open>
  The invariant of a packet under construction: it has its header, it does not exceed the MTU, and
  what would have to be sent again is part of it.
\<close>

definition pb_inv :: "packet_builder \<Rightarrow> bool" where
  "pb_inv p \<longleftrightarrow> HEADER_LEN \<le> length (buf p) \<and> length (buf p) \<le> unat (pb_mtu p) \<and>
     unat (resend_len p) \<le> length (buf p)"

text \<open>The three forms of a frame.\<close>

definition len_variant :: "nat \<Rightarrow> nat \<Rightarrow> u8" where
  "len_variant data_cap n = (if n = data_cap then VARIANT_SEG_IS_TERMINATOR
     else if n + len_of_usize n \<le> data_cap then VARIANT_SEG_HAS_LEN else VARIANT_SEG_HAS_TERMINATOR)"

definition data_bytes :: "nat \<Rightarrow> bytes \<Rightarrow> bytes" where
  "data_bytes data_cap data =
     (if length data = data_cap then data
      else if length data + len_of_usize (length data) \<le> data_cap
        then varusize_write [] (word_of_nat (length data)) @ data
      else data @ VARIANT_NULL_TERMINATOR # replicate (data_cap - length data - 1) VARIANT_PADDING)"

definition seg_frame :: "nat \<Rightarrow> segment \<Rightarrow> bytes" where
  "seg_frame cap seg =
     (let v = seg_variant seg; data_cap = cap - header_size v seg in
      (v OR len_variant data_cap (length (seg_data seg))) # header_bytes v seg @ data_bytes data_cap (seg_data seg))"

lemma write_data_bytes:
  assumes "length data \<le> data_cap"
  shows "write_data data_cap (b @ v # h) (length b) data =
           Some (b @ (v OR len_variant data_cap (length data)) # h @ data_bytes data_cap data)"
  using assms
  by (auto simp: write_data_def len_variant_def data_bytes_def Let_def checked_sub_def
      vusize.write_append [of "_ @ _"])

lemma length_data_bytes: "length data \<le> data_cap \<Longrightarrow> length (data_bytes data_cap data) \<le> data_cap"
  by (auto simp: data_bytes_def vusize.length_written len_of_usize_def)

lemma length_seg_frame:
  assumes "header_size (seg_variant seg) seg + length (seg_data seg) \<le> cap"
  shows "length (seg_frame cap seg) \<le> cap"
proof -
  have "length (seg_data seg) \<le> cap - header_size (seg_variant seg) seg" using assms by simp
  from length_data_bytes [OF this] show ?thesis
    using assms length_header_bytes [of "seg_variant seg" seg] by (simp add: seg_frame_def Let_def)
qed

lemma add_resend_len:
  assumes "pb_inv p" and "length frame \<le> unat (pb_mtu p) - length (buf p)"
  shows "\<exists>r. add_u32 (resend_len p) (word_of_nat (length frame)) = Some r \<and> unat r \<le> length (buf p @ frame)"
proof -
  have "unat (pb_mtu p) < 2 ^ 32" using unsigned_less [of "pb_mtu p", where ?'a = nat] by simp
  then have "unat (resend_len p) + length frame < 2 ^ 32" and l: "length frame < 2 ^ 32"
    using assms by (auto simp: pb_inv_def)
  moreover have "unat (word_of_nat (length frame) :: u32) = length frame" using l by (simp add: unat_of_nat)
  ultimately have "add_u32 (resend_len p) (word_of_nat (length frame)) = Some (resend_len p + word_of_nat (length frame))"
    by (simp add: add_u32_def)
  moreover from unat_add_u32 [OF this] have "unat (resend_len p + word_of_nat (length frame)) = unat (resend_len p) + length frame"
    using \<open>unat (word_of_nat (length frame) :: u32) = length frame\<close> by simp
  ultimately show ?thesis using assms by (auto simp: pb_inv_def)
qed

lemma append_seg_ok:
  assumes inv: "pb_inv p" and wf: "seg_wf seg"
    and fits: "seg_header_len seg + length (seg_data seg) \<le> unat (pb_mtu p) - length (buf p)"
  defines "cap \<equiv> unat (pb_mtu p) - length (buf p)"
  shows "\<exists>p' full. append_seg p seg = Some (p', full) \<and> pb_inv p' \<and> buf p' = buf p @ seg_frame cap seg \<and>
           pb_mtu p' = pb_mtu p \<and> eliciting_frames p' = eliciting_frames p @ [Seg seg] \<and>
           (full \<longleftrightarrow> unat (pb_mtu p) - length (buf p') < MIN_FRAME_APPEND_LEN)"
proof -
  let ?v = "seg_variant seg" and ?fr = "seg_frame cap seg"
  have hl: "seg_header_len seg = header_size ?v seg" using wf by (simp add: seg_wf_def)
  have len: "length ?fr \<le> cap"
    using length_seg_frame [of seg cap] fits hl by (simp add: cap_def)
  obtain r where r: "add_u32 (resend_len p) (word_of_nat (length ?fr)) = Some r" "unat r \<le> length (buf p @ ?fr)"
    using add_resend_len [OF inv, of ?fr] len by (auto simp: cap_def)
  have le: "length (buf p) \<le> unat (pb_mtu p)" using inv by (simp add: pb_inv_def)
  have h: "length (write_header (buf p) ?v seg) = length (buf p) + header_size ?v seg"
    using length_header_bytes [of ?v seg] by (simp add: write_header_bytes)
  have c: "checked_sub (unat (pb_mtu p)) (length (write_header (buf p) ?v seg)) = Some (cap - header_size ?v seg)"
    using fits hl le by (simp add: h checked_sub_def cap_def)
  have w: "write_data (cap - header_size ?v seg) (write_header (buf p) ?v seg) (length (buf p)) (seg_data seg) =
      Some (buf p @ ?fr)"
    using fits hl by (simp add: write_header_bytes seg_frame_def Let_def write_data_bytes cap_def)
  let ?p = "p\<lparr> buf := buf p @ ?fr, resend_len := r, eliciting_frames := eliciting_frames p @ [Seg seg] \<rparr>"
  have "is_full ?p = Some (unat (pb_mtu p) - length (buf p @ ?fr) < MIN_FRAME_APPEND_LEN)"
    using len le by (simp add: is_full_def remaining_cap_def checked_sub_def cap_def)
  then have "append_seg p seg = Some (?p, unat (pb_mtu p) - length (buf p @ ?fr) < MIN_FRAME_APPEND_LEN)"
    using c w r(1) by (simp add: append_seg_def Let_def hl h)
  moreover have "pb_inv ?p" using inv len le r(2) by (simp add: pb_inv_def cap_def)
  ultimately show ?thesis by auto
qed

section \<open>Cutting a document\<close>

lemma seg_wfI:
  assumes "variant_and_header_len seg = pack_variant v h" and "h = header_size v seg" and "no_len_bits v"
  shows "seg_wf seg" and "seg_header_len seg = h" and "seg_variant seg = v"
  using assms header_size_small(1) [of v seg] by (simp_all add: seg_wf_def)

text \<open>
  What a segment of a document is: the next bytes of it, as many as there are or as fit, described by
  a well-formed header.
\<close>

definition next_segment :: "u64 \<Rightarrow> send_doc \<Rightarrow> bool \<Rightarrow> nat \<Rightarrow> send_doc \<Rightarrow> segment \<Rightarrow> bool" where
  "next_segment doc_no doc is_closed cap doc' seg \<longleftrightarrow>
     seg_wf seg \<and> seg_header_len seg + length (seg_data seg) \<le> cap \<and>
     seg_doc_no seg = doc_no \<and> seg_off seg = sd_next_seg_off doc \<and> seg_doc_len seg = length (sd_data doc) \<and>
     seg_doc_parent_no seg = sd_parent_no doc \<and>
     seg_data seg = take (length (seg_data seg)) (drop (sd_next_seg_off doc) (sd_data doc)) \<and> seg_data seg \<noteq> [] \<and>
     (bit (seg_variant seg) 2 \<longleftrightarrow> sd_next_seg_off doc = 0) \<and> (bit (seg_variant seg) 6 \<longleftrightarrow> is_closed) \<and>
     (bit (seg_variant seg) 5 \<longrightarrow> seg_data seg = sd_data doc) \<and>
     (\<not> sd_has_been_acked doc \<longrightarrow> bit (seg_variant seg) 4 \<or> bit (seg_variant seg) 5) \<and>
     doc' = doc\<lparr> sd_next_seg_off := sd_next_seg_off doc + length (seg_data seg) \<rparr>"

lemma seg_try_new_single:
  assumes "sd_next_seg_off doc = 0" and "sd_data doc \<noteq> []"
    and "1 + varu64_len doc_no + varu64_len (sd_parent_no doc) + length (sd_data doc) \<le> cap"
  shows "\<exists>doc' seg. seg_try_new doc_no doc is_closed cap = (doc', Inr seg) \<and> next_segment doc_no doc is_closed cap doc' seg"
proof -
  let ?v = "flag is_closed VARIANT_SEG_FLAG_IS_CLOSED OR VARIANT_SEG_FLAG_IS_FIRST
     OR flag (sd_has_special_parent doc) VARIANT_SEG_FLAG_HAS_SPECIAL_PARENT OR VARIANT_SEG_FLAG_IS_SINGLE_SEG"
  let ?h = "1 + varu64_len doc_no + varu64_len (sd_parent_no doc)"
  define seg where "seg = \<lparr> variant_and_header_len = pack_variant ?v ?h, seg_doc_no = doc_no,
     seg_doc_len = length (sd_data doc), seg_doc_parent_no = sd_parent_no doc, seg_off = 0, seg_data = sd_data doc \<rparr>"
  have "variant_and_header_len seg = pack_variant ?v ?h" by (simp add: seg_def)
  moreover have "?h = header_size ?v seg" by (simp add: header_size_def seg_def bit_or_iff flag_bits)
  moreover have "no_len_bits ?v" by (simp add: no_len_bits_def bit_or_iff flag_bits)
  ultimately have wf: "seg_wf seg" "seg_header_len seg = ?h" "seg_variant seg = ?v" by (rule seg_wfI)+
  have "seg_try_new doc_no doc is_closed cap = (doc\<lparr> sd_next_seg_off := length (sd_data doc) \<rparr>, Inr seg)"
    using assms by (simp add: seg_try_new_def Let_def seg_def or.assoc)
  moreover have "next_segment doc_no doc is_closed cap (doc\<lparr> sd_next_seg_off := length (sd_data doc) \<rparr>) seg"
    using assms by (simp add: next_segment_def wf bit_or_iff flag_bits) (simp add: seg_def)
  ultimately show ?thesis by blast
qed

lemma seg_try_new_part:
  fixes doc :: send_doc and doc_no :: u64
  defines "acked \<equiv> sd_has_been_acked doc" and "special \<equiv> sd_has_special_parent doc" and "off \<equiv> sd_next_seg_off doc"
  defines "h1 \<equiv> (if off = 0 then 1 + varu64_len doc_no + varu64_len (sd_parent_no doc)
      else 1 + varu64_len doc_no + (if \<not> acked \<and> special then varu64_len (sd_parent_no doc) else 0) + len_of_usize off)"
  defines "h \<equiv> h1 + (if acked then 0 else len_of_usize (length (sd_data doc)))"
  assumes left: "off < length (sd_data doc)" and big: "\<not> (off = 0 \<and> h1 + length (sd_data doc) \<le> cap)"
  shows "if h + MIN_SEG_DATA_LEN > cap then seg_try_new doc_no doc is_closed cap = (doc, Inl True)
         else \<exists>doc' seg. seg_try_new doc_no doc is_closed cap = (doc', Inr seg) \<and> next_segment doc_no doc is_closed cap doc' seg"
proof (cases "h + MIN_SEG_DATA_LEN > cap")
  case True
  then show ?thesis
    using left big by (auto simp: seg_try_new_def Let_def acked_def special_def off_def h1_def h_def)
next
  case False
  let ?v = "(if off = 0 then flag is_closed VARIANT_SEG_FLAG_IS_CLOSED OR VARIANT_SEG_FLAG_IS_FIRST
                OR flag special VARIANT_SEG_FLAG_HAS_SPECIAL_PARENT
              else flag is_closed VARIANT_SEG_FLAG_IS_CLOSED OR flag (\<not> acked \<and> special) VARIANT_SEG_FLAG_HAS_SPECIAL_PARENT)
            OR flag (\<not> acked) VARIANT_SEG_FLAG_HAS_DOC_LEN"
  define n where "n = min (length (sd_data doc) - off) (cap - h)"
  define seg where "seg = \<lparr> variant_and_header_len = pack_variant ?v h, seg_doc_no = doc_no,
     seg_doc_len = length (sd_data doc), seg_doc_parent_no = sd_parent_no doc, seg_off = off,
     seg_data = take n (drop off (sd_data doc)) \<rparr>"
  have "variant_and_header_len seg = pack_variant ?v h" by (simp add: seg_def)
  moreover have "h = header_size ?v seg"
    by (auto simp: header_size_def seg_def bit_or_iff flag_bits h_def h1_def)
  moreover have "no_len_bits ?v" by (simp add: no_len_bits_def bit_or_iff flag_bits)
  ultimately have wf: "seg_wf seg" "seg_header_len seg = h" "seg_variant seg = ?v" by (rule seg_wfI)+
  have new: "seg_try_new doc_no doc is_closed cap = (doc\<lparr> sd_next_seg_off := off + n \<rparr>, Inr seg)"
  proof -
    have "\<not> off \<ge> length (sd_data doc)" using left by simp
    then show ?thesis
      using big False unfolding seg_try_new_def Let_def seg_def n_def h_def h1_def acked_def special_def off_def
      by (simp only: if_False)
  qed
  have n: "0 < n" "length (seg_data seg) = n" "n \<le> cap - h"
    using False left by (simp_all add: n_def seg_def MIN_SEG_DATA_LEN_def)
  have "next_segment doc_no doc is_closed cap (doc\<lparr> sd_next_seg_off := off + n \<rparr>) seg"
    using n left False
    by (simp add: next_segment_def wf bit_or_iff flag_bits MIN_SEG_DATA_LEN_def)
       (auto simp: seg_def off_def acked_def)
  then show ?thesis using False new by auto
qed

lemma seg_try_new_cases:
  fixes doc :: send_doc and doc_no :: u64
  obtains (sent) "length (sd_data doc) \<le> sd_next_seg_off doc" "seg_try_new doc_no doc is_closed cap = (doc, Inl False)"
  | (full) "sd_next_seg_off doc < length (sd_data doc)" "cap < MAX_SEG_HEADER_LEN + MIN_SEG_DATA_LEN"
      "seg_try_new doc_no doc is_closed cap = (doc, Inl True)"
  | (seg) doc' seg where "sd_next_seg_off doc < length (sd_data doc)"
      "seg_try_new doc_no doc is_closed cap = (doc', Inr seg)" "next_segment doc_no doc is_closed cap doc' seg"
proof (cases "length (sd_data doc) \<le> sd_next_seg_off doc")
  case True
  then show thesis using that(1) by (simp add: seg_try_new_def)
next
  case False
  let ?h1 = "if sd_next_seg_off doc = 0 then 1 + varu64_len doc_no + varu64_len (sd_parent_no doc)
      else 1 + varu64_len doc_no + (if \<not> sd_has_been_acked doc \<and> sd_has_special_parent doc then varu64_len (sd_parent_no doc) else 0)
        + len_of_usize (sd_next_seg_off doc)"
  let ?h = "?h1 + (if sd_has_been_acked doc then 0 else len_of_usize (length (sd_data doc)))"
  have h: "?h \<le> MAX_SEG_HEADER_LEN"
    using varint_len_le(1) [of doc_no] varint_len_le(1) [of "sd_parent_no doc"]
      varint_len_le(3) [of "sd_next_seg_off doc"] varint_len_le(3) [of "length (sd_data doc)"]
    by (simp add: MAX_SEG_HEADER_LEN_def)
  show thesis
  proof (cases "sd_next_seg_off doc = 0 \<and> ?h1 + length (sd_data doc) \<le> cap")
    case True
    then show thesis using seg_try_new_single [of doc doc_no cap is_closed] False that(3) by auto
  next
    case big: False
    from False have "sd_next_seg_off doc < length (sd_data doc)" by simp
    note part = seg_try_new_part [OF this big, of is_closed]
    show thesis
    proof (cases "?h + MIN_SEG_DATA_LEN > cap")
      case True
      then show thesis using part that(2) False h by (simp split: if_splits)
    next
      case room: False
      then have "\<exists>doc' seg. seg_try_new doc_no doc is_closed cap = (doc', Inr seg) \<and>
          next_segment doc_no doc is_closed cap doc' seg"
        using part by (simp only: if_False)
      then show thesis using that(3) False by auto
    qed
  qed
qed

text \<open>Cutting a document with the capacities of a sequence of packets.\<close>

primrec cut :: "u64 \<Rightarrow> bool \<Rightarrow> send_doc \<Rightarrow> nat list \<Rightarrow> send_doc \<times> segment list" where
  "cut doc_no is_closed doc [] = (doc, [])"
| "cut doc_no is_closed doc (cap # caps) =
     (case seg_try_new doc_no doc is_closed cap of
        (doc, Inl _) \<Rightarrow> cut doc_no is_closed doc caps
      | (doc, Inr seg) \<Rightarrow> (case cut doc_no is_closed doc caps of (doc, segs) \<Rightarrow> (doc, seg # segs)))"

section \<open>Reading a segment back\<close>

text \<open>The numbers of a segment are in the range that the varints carry.\<close>

definition seg_small :: "segment \<Rightarrow> bool" where
  "seg_small seg \<longleftrightarrow> unat (seg_doc_no seg) < 2 ^ 30 \<and> seg_doc_len seg < 2 ^ 30 \<and>
     unat (seg_doc_parent_no seg) < 2 ^ 30 \<and> seg_off seg < 2 ^ 30 \<and> length (seg_data seg) < 2 ^ 30"

lemma unat_word_small: "n < 2 ^ 30 \<Longrightarrow> unat (word_of_nat n :: usize) = n"
  by (simp add: unat_of_nat)

lemma read_field_u64:
  assumes "c \<Longrightarrow> unat w < 2 ^ 30" and "packet = pre @ opt c (varu64_write [] w) @ post" and "fits_slice packet"
  shows "(if c then varu64_try_read packet (length pre) else (Some 0, length pre)) =
           (Some (if c then w else 0), length (pre @ opt c (varu64_write [] w)))"
  using assms v64.read_at [of w pre post "length pre"] by (cases c) (simp_all add: opt_def v64.length_written)

lemma read_field_usize:
  assumes "c \<Longrightarrow> n < 2 ^ 30" and "packet = pre @ opt c (varusize_write [] (word_of_nat n)) @ post" and "fits_slice packet"
  shows "(if c then varusize_try_read packet (length pre) else (Some 0, length pre)) =
           (Some (if c then word_of_nat n else 0), length (pre @ opt c (varusize_write [] (word_of_nat n))))"
  using assms vusize.read_at [of "word_of_nat n" pre post "length pre"]
  by (cases c) (simp_all add: opt_def vusize.length_written unat_word_small)

text \<open>The padding behind a null-terminated segment has no null byte.\<close>

lemma find_null_padding:
  assumes "seg_start \<le> length pre"
  shows "find_null (pre @ VARIANT_NULL_TERMINATOR # replicate k VARIANT_PADDING @ post) seg_start (length pre + k) = Some (Some (length pre))"
proof (induction k arbitrary: post)
  case 0
  show ?case using assms by (subst find_null.simps) simp
next
  case (Suc k)
  let ?B = "pre @ VARIANT_NULL_TERMINATOR # replicate k VARIANT_PADDING @ VARIANT_PADDING # post"
  have e: "pre @ VARIANT_NULL_TERMINATOR # replicate (Suc k) VARIANT_PADDING @ post = ?B"
    by (simp add: replicate_app_Cons_same)
  have "?B ! (length pre + Suc k) = VARIANT_PADDING" by (simp add: nth_append)
  then have "?B ! (length pre + Suc k) \<noteq> VARIANT_NULL_TERMINATOR"
    by (simp add: VARIANT_PADDING_def VARIANT_NULL_TERMINATOR_def)
  then show ?case
    unfolding e using Suc.IH [of "VARIANT_PADDING # post"] assms by (subst find_null.simps) simp
qed

lemma parse_data_bytes:
  assumes "length data \<le> data_cap" and "length data < 2 ^ 30"
    and packet: "packet = pre @ data_bytes data_cap data @ post" and fits: "fits_slice packet"
    and last: "len_variant data_cap (length data) \<noteq> VARIANT_SEG_HAS_LEN \<Longrightarrow> post = []"
  shows "parse_data (len_variant data_cap (length data)) packet (length pre) =
           Some (Inr data, length (pre @ data_bytes data_cap data))"
proof -
  note variants = VARIANT_SEG_HAS_LEN_def VARIANT_SEG_IS_TERMINATOR_def VARIANT_SEG_HAS_TERMINATOR_def
  consider (whole) "length data = data_cap" | (len) "length data \<noteq> data_cap" "length data + len_of_usize (length data) \<le> data_cap"
    | (null) "length data < data_cap" "\<not> length data + len_of_usize (length data) \<le> data_cap"
    using assms(1) by linarith
  then show ?thesis
  proof cases
    case whole
    then have "post = []" using last by (simp add: len_variant_def variants)
    with whole show ?thesis by (simp add: parse_data_def len_variant_def packet data_bytes_def)
  next
    case len
    let ?w = "varusize_write [] (word_of_nat (length data) :: usize)"
    have u: "unat (word_of_nat (length data) :: usize) = length data" using assms(2) by (rule unat_word_small)
    have p: "packet = pre @ ?w @ data @ post" using len by (simp add: packet data_bytes_def)
    have "varusize_try_read packet (length pre) = (Some (word_of_nat (length data)), length (pre @ ?w))"
      using vusize.read_at [of "word_of_nat (length data)" pre "data @ post"] assms(2) fits
      by (simp add: p u vusize.length_written)
    moreover have "slice packet (length (pre @ ?w)) (length (pre @ ?w) + length data) = Some data"
      by (simp add: p slice_def)
    moreover have "min (length (pre @ ?w) + length data) (usize_bound - 1) = length (pre @ ?w) + length data"
      using fits by (simp add: p fits_slice_def usize_bound_def)
    ultimately show ?thesis
      using len by (simp add: parse_data_def len_variant_def variants data_bytes_def u Let_def)
  next
    case null
    then have "post = []" using last by (simp add: len_variant_def variants)
    then have p: "packet = (pre @ data) @ VARIANT_NULL_TERMINATOR # replicate (data_cap - length data - 1) VARIANT_PADDING @ []"
      using null by (simp add: packet data_bytes_def)
    have "length packet - 1 = length (pre @ data) + (data_cap - length data - 1)" by (simp add: p)
    moreover have "find_null packet (length pre) (length (pre @ data) + (data_cap - length data - 1)) = Some (Some (length (pre @ data)))"
      unfolding p by (rule find_null_padding) simp
    moreover have "take (length (pre @ data) - length pre) (drop (length pre) packet) = data" by (simp add: p)
    ultimately show ?thesis
      using null by (simp add: parse_data_def len_variant_def variants data_bytes_def) (simp add: p)
  qed
qed

text \<open>What the parser makes of a segment.\<close>

definition parsed_of :: "segment \<Rightarrow> parsed_seg" where
  "parsed_of seg =
     (let v = seg_variant seg in
      \<lparr> ps_special = bit v 3, ps_is_closed = bit v 6, ps_doc_no = seg_doc_no seg,
        ps_doc_len = (if bit v 4 then Some (seg_doc_len seg) else if bit v 5 then Some (length (seg_data seg)) else None),
        ps_parent_no = (if bit v 3 \<or> bit v 2 then Some (seg_doc_parent_no seg) else None),
        ps_seg_off = (if bit v 2 then 0 else seg_off seg), ps_seg = seg_data seg \<rparr>)"

lemma parse_fields:
  assumes v: "\<And>n. 2 \<le> n \<Longrightarrow> bit v' n = bit (seg_variant seg) n" and small: "seg_small seg"
    and packet: "packet = pre @ header_bytes (seg_variant seg) seg @ rest" and fits: "fits_slice packet"
  shows "\<exists>k. parse_seg v' packet (length pre) =
    (if (bit (seg_variant seg) 3 \<or> bit (seg_variant seg) 2) \<and> seg_doc_no seg \<le> seg_doc_parent_no seg then Some (Inl Invalid, k)
     else case parse_data (v' AND VARIANT_SEG_LEN_MASK) packet (length (pre @ header_bytes (seg_variant seg) seg)) of
       None \<Rightarrow> None
     | Some (Inl e, j) \<Rightarrow> Some (Inl e, j)
     | Some (Inr d, j) \<Rightarrow> Some (Inr (parsed_of (seg\<lparr> seg_data := d \<rparr>)), j))"
proof -
  let ?v = "seg_variant seg"
  define D L P S where "D = varu64_write [] (seg_doc_no seg)"
    and "L = opt (bit ?v 4) (varusize_write [] (word_of_nat (seg_doc_len seg)))"
    and "P = opt (bit ?v 3 \<or> bit ?v 2) (varu64_write [] (seg_doc_parent_no seg))"
    and "S = opt (\<not> bit ?v 2) (varusize_write [] (word_of_nat (seg_off seg)))"
  have B: "packet = pre @ D @ L @ P @ S @ rest" and H: "header_bytes ?v seg = D @ L @ P @ S"
    by (simp_all add: packet header_bytes_def D_def L_def P_def S_def)
  note sm = small [unfolded seg_small_def]
  have 1: "varu64_try_read packet (length pre) = (Some (seg_doc_no seg), length (pre @ D))"
    using read_field_u64 [of True "seg_doc_no seg" packet pre "L @ P @ S @ rest"] sm fits
    by (simp add: B opt_def D_def)
  have 2: "(if bit ?v 4 then varusize_try_read packet (length (pre @ D)) else (Some 0, length (pre @ D))) =
      (Some (if bit ?v 4 then word_of_nat (seg_doc_len seg) else 0), length (pre @ D @ L))"
    using read_field_usize [of "bit ?v 4" "seg_doc_len seg" packet "pre @ D" "P @ S @ rest"] sm fits
    unfolding L_def [symmetric] by (simp add: B)
  have 3: "(if bit ?v 3 \<or> bit ?v 2 then varu64_try_read packet (length (pre @ D @ L)) else (Some 0, length (pre @ D @ L))) =
      (Some (if bit ?v 3 \<or> bit ?v 2 then seg_doc_parent_no seg else 0), length (pre @ D @ L @ P))"
    using read_field_u64 [of "bit ?v 3 \<or> bit ?v 2" "seg_doc_parent_no seg" packet "pre @ D @ L" "S @ rest"] sm fits
    unfolding P_def [symmetric] by (simp add: B)
  have 4: "(if \<not> bit ?v 2 then varusize_try_read packet (length (pre @ D @ L @ P)) else (Some 0, length (pre @ D @ L @ P))) =
      (Some (if \<not> bit ?v 2 then word_of_nat (seg_off seg) else 0), length (pre @ D @ L @ P @ S))"
    using read_field_usize [of "\<not> bit ?v 2" "seg_off seg" packet "pre @ D @ L @ P" "rest"] sm fits
    unfolding S_def [symmetric] by (simp add: B)
  have bits: "bit v' 2 = bit ?v 2" "bit v' 3 = bit ?v 3" "bit v' 4 = bit ?v 4" "bit v' 5 = bit ?v 5" "bit v' 6 = bit ?v 6"
    by (simp_all add: v)
  have u: "unat (word_of_nat (seg_doc_len seg) :: usize) = seg_doc_len seg" "unat (word_of_nat (seg_off seg) :: usize) = seg_off seg"
    using sm by (simp_all add: unat_word_small)
  have "seg_variant (seg\<lparr> seg_data := d \<rparr>) = ?v" for d by (simp add: seg_variant_def)
  then show ?thesis
    using u unfolding parse_seg_def Let_def has_flag_bits bits 1 prod.case option.case 2 3 4 H
    by (intro exI [of _ "length (pre @ D @ L @ P)"])
      (auto simp: parsed_of_def Let_def split: option.splits sum.splits)
qed

lemma parse_header:
  assumes v: "\<And>n. 2 \<le> n \<Longrightarrow> bit v' n = bit (seg_variant seg) n" and small: "seg_small seg"
    and parent: "seg_doc_parent_no seg < seg_doc_no seg"
    and packet: "packet = pre @ header_bytes (seg_variant seg) seg @ rest" and fits: "fits_slice packet"
    and data: "parse_data (v' AND VARIANT_SEG_LEN_MASK) packet (length (pre @ header_bytes (seg_variant seg) seg)) =
      Some (Inr (seg_data seg), j)"
  shows "parse_seg v' packet (length pre) = Some (Inr (parsed_of seg), j)"
proof -
  have "\<not> ((bit (seg_variant seg) 3 \<or> bit (seg_variant seg) 2) \<and> seg_doc_no seg \<le> seg_doc_parent_no seg)"
    using parent by (simp add: not_le)
  then show ?thesis using parse_fields [OF v small packet fits] data by auto
qed

text \<open>A first segment that names no earlier document as its parent is refused.\<close>

lemma parse_seg_own_parent:
  assumes wf: "seg_wf seg" and small: "seg_small seg" and first: "bit (seg_variant seg) 2"
    and parent: "seg_doc_no seg \<le> seg_doc_parent_no seg"
    and packet: "packet = pre @ seg_frame cap seg @ post" and fits: "fits_slice packet"
  shows "\<exists>j. parse_seg (packet ! length pre) packet (length pre + 1) = Some (Inl Invalid, j)"
proof -
  let ?v = "seg_variant seg"
  define dc where "dc = cap - header_size ?v seg"
  define t where "t = len_variant dc (length (seg_data seg))"
  have t: "t \<in> {VARIANT_SEG_HAS_LEN, VARIANT_SEG_IS_TERMINATOR, VARIANT_SEG_HAS_TERMINATOR}"
    by (simp add: t_def len_variant_def)
  have no: "no_len_bits ?v" using wf by (simp add: seg_wf_def)
  have B: "packet = (pre @ [?v OR t]) @ header_bytes ?v seg @ data_bytes dc (seg_data seg) @ post"
    by (simp add: packet seg_frame_def Let_def dc_def t_def)
  then have "packet ! length pre = ?v OR t" by simp
  with parse_fields [OF len_bits_set(2) [OF no t] small B fits] first parent show ?thesis by auto
qed

lemma parse_seg_frame:
  assumes wf: "seg_wf seg" and small: "seg_small seg" and parent: "seg_doc_parent_no seg < seg_doc_no seg"
    and cap: "seg_header_len seg + length (seg_data seg) \<le> cap"
    and packet: "packet = pre @ seg_frame cap seg @ post" and fits: "fits_slice packet"
    and last: "packet ! length pre AND VARIANT_SEG_LEN_MASK \<noteq> VARIANT_SEG_HAS_LEN \<Longrightarrow> post = []"
  shows "parse_seg (packet ! length pre) packet (length pre + 1) =
           Some (Inr (parsed_of seg), length (pre @ seg_frame cap seg))"
proof -
  let ?v = "seg_variant seg" and ?h = "header_bytes (seg_variant seg) seg"
  define dc where "dc = cap - header_size ?v seg"
  define t where "t = len_variant dc (length (seg_data seg))"
  define d where "d = data_bytes dc (seg_data seg)"
  have t: "t \<in> {VARIANT_SEG_HAS_LEN, VARIANT_SEG_IS_TERMINATOR, VARIANT_SEG_HAS_TERMINATOR}"
    by (simp add: t_def len_variant_def)
  have no: "no_len_bits ?v" using wf by (simp add: seg_wf_def)
  note lb = len_bits_set [OF no t]
  have fr: "seg_frame cap seg = (?v OR t) # ?h @ d" by (simp add: seg_frame_def Let_def dc_def t_def d_def)
  have v': "packet ! length pre = ?v OR t" by (simp add: packet fr)
  have B: "packet = ((pre @ [?v OR t]) @ ?h) @ d @ post" by (simp add: packet fr)
  have "parse_data t packet (length ((pre @ [?v OR t]) @ ?h)) = Some (Inr (seg_data seg), length (((pre @ [?v OR t]) @ ?h) @ d))"
    unfolding t_def d_def
  proof (rule parse_data_bytes [OF _ _ _ fits])
    show "length (seg_data seg) \<le> dc" using cap wf by (simp add: dc_def seg_wf_def)
    show "length (seg_data seg) < 2 ^ 30" using small by (simp add: seg_small_def)
    show "packet = ((pre @ [?v OR len_variant dc (length (seg_data seg))]) @ ?h) @ data_bytes dc (seg_data seg) @ post"
      using B by (simp add: t_def d_def)
    show "len_variant dc (length (seg_data seg)) \<noteq> VARIANT_SEG_HAS_LEN \<Longrightarrow> post = []"
      using last lb(1) by (simp add: v' t_def)
  qed
  then have data: "parse_data ((?v OR t) AND VARIANT_SEG_LEN_MASK) packet (length ((pre @ [?v OR t]) @ ?h)) =
      Some (Inr (seg_data seg), length (pre @ seg_frame cap seg))"
    by (simp add: lb(1) fr)
  have "parse_seg (?v OR t) packet (length (pre @ [?v OR t])) = Some (Inr (parsed_of seg), length (pre @ seg_frame cap seg))"
    by (rule parse_header [OF lb(2) small parent _ fits data]) (simp_all add: B)
  then show ?thesis by (simp add: v')
qed

section \<open>Splitting a segment\<close>

text \<open>
  The rest of a split segment is well-formed when it does not need a longer offset field than the
  segment had: either the segment was the first one, or the offset field keeps its length.
\<close>

definition off_len_kept :: "segment \<Rightarrow> nat \<Rightarrow> bool" where
  "off_len_kept seg n \<longleftrightarrow> bit (seg_variant seg) 2 \<or> len_of_usize (seg_off seg + n) = len_of_usize (seg_off seg)"

lemma clear_flag_bits:
  "bit (v AND NOT VARIANT_SEG_FLAG_IS_FIRST) n \<longleftrightarrow> bit v n \<and> n \<noteq> 2"
  "bit (v AND NOT VARIANT_SEG_FLAG_IS_SINGLE_SEG) n \<longleftrightarrow> bit v n \<and> n \<noteq> 5"
  by (auto simp: bit_and_iff bit_not_iff_eq flag_bits dest: bit_imp_le_length)

lemma split_seg_ok:
  assumes h: "h = header_size v seg" and no: "no_len_bits v" 
  shows "\<exists>s1 s2. split_seg seg v h cap = Some (s1, s2) \<and> seg_wf s1 \<and> seg_header_len s1 = h \<and>
     (seg_wf s2 \<longleftrightarrow> bit v 2 \<or> len_of_usize (seg_off seg + (cap - h)) = len_of_usize (seg_off seg)) \<and>
     no_len_bits (seg_variant s2) \<and> seg_header_len s2 \<le> h + 8 \<and> seg_doc_no s1 = seg_doc_no seg \<and>
     seg_data s1 = take (cap - h) (seg_data seg) \<and> seg_data s2 = drop (cap - h) (seg_data seg) \<and>
     seg_off s1 = seg_off seg \<and> seg_off s2 = seg_off seg + (cap - h) \<and> seg_doc_no s2 = seg_doc_no seg"
proof -
  define n where "n = cap - h"
  let ?v2 = "if bit v 2 then v AND NOT VARIANT_SEG_FLAG_IS_FIRST else v"
  define s1 where "s1 = seg\<lparr> variant_and_header_len := pack_variant v h, seg_data := take n (seg_data seg) \<rparr>"
  define h2 where "h2 = (if bit v 2 then header_size ?v2 (seg\<lparr> seg_off := seg_off seg + n \<rparr>) else h)"
  define s2 where "s2 = seg\<lparr> variant_and_header_len := pack_variant ?v2 h2, seg_off := seg_off seg + n,
     seg_data := drop n (seg_data seg) \<rparr>"
  have "variant_and_header_len s1 = pack_variant v h" by (simp add: s1_def)
  moreover have "h = header_size v s1" unfolding h by (simp add: s1_def header_size_def)
  ultimately have 1: "seg_wf s1" "seg_header_len s1 = h" using no by (rule seg_wfI)+
  have s2: "variant_and_header_len s2 = pack_variant ?v2 h2" by (simp add: s2_def)
  have no2: "no_len_bits ?v2" using no by (simp add: no_len_bits_def clear_flag_bits)
  have small: "h2 < 2 ^ 56" using header_size_small(1) by (simp add: h2_def h)
  have "h2 \<le> h + 8"
    using varint_len_le(3) [of "seg_off seg + n"] unfolding h2_def h by (auto simp: header_size_def clear_flag_bits)
  then have le: "seg_header_len s2 \<le> h + 8" using s2 small by simp
  from small have "seg_wf s2 \<longleftrightarrow> h2 = header_size ?v2 s2" using s2 no2 by (simp add: seg_wf_def)
  also have "\<dots> \<longleftrightarrow> bit v 2 \<or> len_of_usize (seg_off seg + n) = len_of_usize (seg_off seg)"
    unfolding h2_def h by (auto simp: s2_def header_size_def clear_flag_bits)
  finally have 2: "seg_wf s2 \<longleftrightarrow> \<dots>" .
  have "(if bit v 2 then
              (if bit v 3 then Some (h + len_of_usize (seg_off seg + n))
               else checked_sub (h + len_of_usize (seg_off seg + n)) (varu64_len (seg_doc_parent_no seg)))
            else Some h) = Some h2"
    unfolding h2_def h by (auto simp: header_size_def clear_flag_bits checked_sub_def)
  then have "split_seg seg v h cap = Some (s1, s2)"
    unfolding split_seg_def Let_def has_flag_bits n_def by (simp only: option.case s1_def s2_def n_def)
  moreover have "no_len_bits (seg_variant s2)" using s2 no2 by simp
  ultimately show ?thesis using 1 2 le by (simp add: s1_def s2_def n_def)
qed

text \<open>
  What \<open>try_append_seg\<close> does: it appends the segment, or its first part and returns the rest, or
  leaves everything as it was because the packet is too full.
\<close>

definition append_outcome :: "packet_builder \<Rightarrow> segment \<Rightarrow> packet_builder \<Rightarrow> segment option \<Rightarrow> bool" where
  "append_outcome p seg p' rest \<longleftrightarrow>
     (rest = None \<and> eliciting_frames p' = eliciting_frames p @ [Seg seg]) \<or>
     (rest = Some seg \<and> p' = p) \<or>
     (\<exists>s1 s2. rest = Some s2 \<and> (seg_wf s2 \<longleftrightarrow> off_len_kept seg (length (seg_data s1))) \<and> eliciting_frames p' = eliciting_frames p @ [Seg s1] \<and>
        seg_data s1 @ seg_data s2 = seg_data seg \<and> seg_data s1 \<noteq> [] \<and> seg_data s2 \<noteq> [] \<and> seg_off s1 = seg_off seg \<and>
        seg_off s2 = seg_off seg + length (seg_data s1) \<and> seg_doc_no s1 = seg_doc_no seg \<and> seg_doc_no s2 = seg_doc_no seg \<and>
        seg_header_len s2 + length (seg_data s2) \<le> seg_header_len seg + length (seg_data seg))"

text \<open>The first part of a split segment goes into the packet, the rest is not longer than the whole.\<close>

lemma split_append_ok:
  fixes p :: packet_builder and seg :: segment and v :: u8
  defines "cap \<equiv> unat (pb_mtu p) - length (buf p)"
  assumes inv: "pb_inv p" and h: "h = header_size v seg" "no_len_bits v"
    and bits: "bit v 2 = bit (seg_variant seg) 2" "bit v 3 = bit (seg_variant seg) 3" "bit v 4 \<longleftrightarrow> bit (seg_variant seg) 4 \<or> bit (seg_variant seg) 5"
    and room: "h + MIN_SEG_DATA_LEN \<le> cap" "cap - h < length (seg_data seg)" and le: "h \<le> seg_header_len seg + 8"
  shows "\<exists>s1 s2 p' full. split_seg seg v h cap = Some (s1, s2) \<and> append_seg p s1 = Some (p', full) \<and> pb_inv p' \<and>
    pb_mtu p' = pb_mtu p \<and> append_outcome p seg p' (Some s2)"
proof -
  have n: "0 < cap - h" using room(1) by (auto simp: MIN_SEG_DATA_LEN_def)
  from split_seg_ok [OF h, of cap] n room(2)
  obtain s1 s2 where s: "split_seg seg v h cap = Some (s1, s2)" "seg_wf s1" "seg_header_len s1 = h"
    "seg_wf s2 \<longleftrightarrow> off_len_kept seg (cap - h)"
    "seg_data s1 = take (cap - h) (seg_data seg)" "seg_data s2 = drop (cap - h) (seg_data seg)"
    "seg_off s1 = seg_off seg" "seg_off s2 = seg_off seg + (cap - h)" "seg_doc_no s2 = seg_doc_no seg"
    "seg_doc_no s1 = seg_doc_no seg" "seg_header_len s2 \<le> h + 8"
    by (auto simp: off_len_kept_def bits)
  have "seg_header_len s2 + length (seg_data s2) \<le> seg_header_len seg + length (seg_data seg)"
    using s(6,11) n room le by (simp add: MIN_SEG_DATA_LEN_def)
  moreover obtain p' full where "append_seg p s1 = Some (p', full)" "pb_inv p'" "pb_mtu p' = pb_mtu p"
    "eliciting_frames p' = eliciting_frames p @ [Seg s1]"
    using append_seg_ok [OF inv s(2)] s(3,5) n room(2) by (auto simp: cap_def)
  ultimately show ?thesis using s n room(2) by (auto simp: append_outcome_def)
qed

lemma try_append_seg_ok:
  assumes inv: "pb_inv p" and wf: "seg_wf seg"
  shows "\<exists>p' full rest. try_append_seg p seg = Some (p', full, rest) \<and> pb_inv p' \<and> pb_mtu p' = pb_mtu p \<and>
           append_outcome p seg p' rest"
proof -
  define cap where "cap = unat (pb_mtu p) - length (buf p)"
  define v where "v = seg_variant seg"
  define h where "h = header_size v seg"
  have cap: "remaining_cap p = Some cap"
    using inv by (simp add: remaining_cap_def checked_sub_def pb_inv_def cap_def)
  have hl: "seg_header_len seg = h" and no: "no_len_bits v" using wf by (simp_all add: seg_wf_def h_def v_def)
  define v1 where "v1 = (if bit v 5 then v AND NOT VARIANT_SEG_FLAG_IS_SINGLE_SEG else v)"
  define add where "add \<longleftrightarrow> bit v 5 \<and> \<not> bit v1 4"
  define v2 where "v2 = (if add then v1 OR VARIANT_SEG_FLAG_HAS_DOC_LEN else v1)"
  define h2 where "h2 = (if add then h + len_of_usize (seg_doc_len seg) else h)"
  have bits: "bit v2 2 = bit v 2" "bit v2 3 = bit v 3" "bit v2 4 \<longleftrightarrow> bit v 4 \<or> bit v 5"
    by (auto simp: v2_def v1_def add_def clear_flag_bits bit_or_iff flag_bits)
  have "add \<longleftrightarrow> bit v 5 \<and> \<not> bit v 4" by (simp add: add_def v1_def clear_flag_bits)
  then have h2: "h2 = header_size v2 seg" by (auto simp: h2_def h_def header_size_def bits)
  have no2: "no_len_bits v2" using no by (simp add: no_len_bits_def v2_def v1_def clear_flag_bits bit_or_iff flag_bits)
  have un: "try_append_seg p seg =
      (if h + MIN_SEG_DATA_LEN > cap then Some (p, True, Some seg)
       else if h + length (seg_data seg) > cap then
         (if bit v 5 \<and> h2 + MIN_SEG_DATA_LEN > cap then Some (p, True, Some seg)
          else (case split_seg seg v2 h2 cap of
              None \<Rightarrow> None
            | Some (seg, rest) \<Rightarrow> map_option (\<lambda>(p, full). (p, full, Some rest)) (append_seg p seg)))
       else map_option (\<lambda>(p, full). (p, full, None)) (append_seg p seg))"
    unfolding try_append_seg_def cap option.case Let_def has_flag_bits hl v_def [symmetric]
    unfolding v1_def [symmetric] unfolding add_def [symmetric] unfolding v2_def [symmetric] h2_def [symmetric] ..
  consider (none) "h + MIN_SEG_DATA_LEN > cap" | (all) "h + MIN_SEG_DATA_LEN \<le> cap" "h + length (seg_data seg) \<le> cap"
    | (none2) "h + MIN_SEG_DATA_LEN \<le> cap" "h + length (seg_data seg) > cap" "h2 + MIN_SEG_DATA_LEN > cap"
    | (split) "h + MIN_SEG_DATA_LEN \<le> cap" "h + length (seg_data seg) > cap" "h2 + MIN_SEG_DATA_LEN \<le> cap"
    by linarith
  then show ?thesis
  proof cases
    case none
    then show ?thesis using inv by (auto simp: un append_outcome_def)
  next
    case all
    with append_seg_ok [OF inv wf] hl obtain p' full where "append_seg p seg = Some (p', full)" "pb_inv p'"
      "pb_mtu p' = pb_mtu p" "eliciting_frames p' = eliciting_frames p @ [Seg seg]" by (auto simp: cap_def)
    then show ?thesis using all by (auto simp: un append_outcome_def)
  next
    case none2
    then have "bit v 5" by (auto simp: h2_def add_def split: if_splits)
    then show ?thesis using none2 inv by (auto simp: un append_outcome_def)
  next
    case split
    have "h2 \<le> seg_header_len seg + 8" using varint_len_le(3) [of "seg_doc_len seg"] by (simp add: h2_def hl)
    moreover have "cap - h2 < length (seg_data seg)" "\<not> h2 + MIN_SEG_DATA_LEN > cap" using split by (auto simp: h2_def)
    ultimately show ?thesis
      using split_append_ok [OF inv h2 no2 bits [unfolded v_def]] split unfolding cap_def [symmetric] by (auto simp: un)
  qed
qed

section \<open>Properties\<close>

text \<open>
  C15. Cutting a document loses and repeats nothing.  Whatever room the packets offer, the data of the
  segments cut so far, put together, is the document up to the next offset, the segments lie one
  behind the other, each fits its packet and carries the length of its own header; and while there is
  data left, a packet that has room for the longest header and the least data takes some of it.
\<close>

theorem cut_document:
  assumes "sd_next_seg_off doc \<le> length (sd_data doc)" and "cut doc_no is_closed doc caps = (doc', segs)"
  shows "concat (map seg_data segs) =
           take (sd_next_seg_off doc' - sd_next_seg_off doc) (drop (sd_next_seg_off doc) (sd_data doc)) \<and>
         sd_next_seg_off doc \<le> sd_next_seg_off doc' \<and> sd_next_seg_off doc' \<le> length (sd_data doc) \<and>
         sd_data doc' = sd_data doc \<and> (\<forall>seg\<in>set segs. seg_wf seg \<and> (\<exists>cap\<in>set caps. seg_header_len seg + length (seg_data seg) \<le> cap)) \<and>
         ((\<exists>cap\<in>set caps. MAX_SEG_HEADER_LEN + MIN_SEG_DATA_LEN \<le> cap) \<longrightarrow>
            sd_next_seg_off doc < length (sd_data doc) \<longrightarrow> sd_next_seg_off doc < sd_next_seg_off doc')"
  using assms
proof (induction caps arbitrary: doc segs)
  case (Cons cap caps)
  show ?case
  proof (cases rule: seg_try_new_cases [of doc doc_no is_closed cap])
    case sent
    then show ?thesis using Cons.IH [of doc segs] Cons.prems by (auto split: prod.splits)
  next
    case full
    then show ?thesis using Cons.IH [of doc segs] Cons.prems by (auto split: prod.splits)
  next
    case (seg doc1 seg1)
    obtain segs1 where segs: "segs = seg1 # segs1" "cut doc_no is_closed doc1 caps = (doc', segs1)"
      using Cons.prems(2) seg(2) by (auto split: prod.splits)
    let ?o = "sd_next_seg_off doc" and ?n = "length (seg_data seg1)" and ?o' = "sd_next_seg_off doc'"
    have s: "seg_wf seg1" "seg_header_len seg1 + ?n \<le> cap" "seg_data seg1 = take ?n (drop ?o (sd_data doc))"
      "seg_data seg1 \<noteq> []" "doc1 = doc\<lparr> sd_next_seg_off := ?o + ?n \<rparr>"
      using seg(3) by (simp_all add: next_segment_def)
    have "?n = min ?n (length (sd_data doc) - ?o)" using arg_cong [OF s(3), of length] by simp
    then have on: "?o + ?n \<le> length (sd_data doc)" using seg(1) by linarith
    have IH: "concat (map seg_data segs1) = take (?o' - (?o + ?n)) (drop (?o + ?n) (sd_data doc))"
      "?o + ?n \<le> ?o'" "?o' \<le> length (sd_data doc)" "sd_data doc' = sd_data doc"
      "\<forall>seg\<in>set segs1. seg_wf seg \<and> (\<exists>cap\<in>set caps. seg_header_len seg + length (seg_data seg) \<le> cap)"
      using Cons.IH [of doc1 segs1] on segs(2) s(5) by simp_all
    have "take (?o' - ?o) (drop ?o (sd_data doc)) =
        take ?n (drop ?o (sd_data doc)) @ take (?o' - (?o + ?n)) (drop (?o + ?n) (sd_data doc))"
      using IH(2) take_add [of ?n "?o' - (?o + ?n)" "drop ?o (sd_data doc)"] by (simp add: add.commute)
    moreover have "?o < ?o'" using IH(2) s(4) by (metis add_0_right length_greater_0_conv less_le_trans nat_add_left_cancel_less)
    ultimately show ?thesis
      using IH s(1-3) segs(1) by auto
  qed
qed simp

theorem cut_document_witness:
  "\<exists>doc' segs. cut 5 False \<lparr> sd_parent_no = 3, sd_has_special_parent = False, sd_has_been_acked = False,
      sd_next_seg_off = 0, sd_data = [1, 2, 3], sd_flush_wakers = [] \<rparr> [10, 100] = (doc', segs) \<and>
     concat (map seg_data segs) = take (sd_next_seg_off doc') [1, 2, 3] \<and> 0 < sd_next_seg_off doc'"
proof -
  let ?doc = "\<lparr> sd_parent_no = 3, sd_has_special_parent = False, sd_has_been_acked = False,
      sd_next_seg_off = 0, sd_data = [1, 2, 3], sd_flush_wakers = [] \<rparr>"
  obtain doc' segs where c: "cut 5 False ?doc [10, 100] = (doc', segs)" by (meson surj_pair)
  then show ?thesis
    using cut_document [OF _ c] by (auto simp: MAX_SEG_HEADER_LEN_def MIN_SEG_DATA_LEN_def)
qed

text \<open>
  C12. A segment that was cut for the room left in a packet is appended without a panic: the packet
  keeps its invariant, so it stays within the MTU, the old content is a prefix, and the receiver's
  parser reads the frame back as the document number, length, parent, offset and data of the segment,
  with the index right behind the frame.  Frames can follow only if the frame has a length field.
\<close>

theorem append_seg_parsed_back:
  assumes "pb_inv p" and "remaining_cap p = Some cap"
    and "seg_try_new doc_no doc is_closed cap = (doc', Inr seg)"
    and "unat doc_no < 2 ^ 30" and "length (sd_data doc) < 2 ^ 30" and "sd_parent_no doc < doc_no"
  shows "\<exists>p' full frame. append_seg p seg = Some (p', full) \<and> pb_inv p' \<and> buf p' = buf p @ frame \<and>
     (\<forall>post. (frame ! 0 AND VARIANT_SEG_LEN_MASK \<noteq> VARIANT_SEG_HAS_LEN \<longrightarrow> post = []) \<longrightarrow>
        fits_slice (buf p' @ post) \<longrightarrow>
        parse_seg (frame ! 0) (buf p' @ post) (length (buf p) + 1) =
          Some (Inr \<lparr> ps_special = bit (seg_variant seg) 3, ps_is_closed = is_closed, ps_doc_no = doc_no,
            ps_doc_len = (if bit (seg_variant seg) 4 \<or> bit (seg_variant seg) 5 then Some (length (sd_data doc)) else None),
            ps_parent_no = (if bit (seg_variant seg) 3 \<or> sd_next_seg_off doc = 0 then Some (sd_parent_no doc) else None),
            ps_seg_off = sd_next_seg_off doc,
            ps_seg = take (sd_next_seg_off doc' - sd_next_seg_off doc) (drop (sd_next_seg_off doc) (sd_data doc)) \<rparr>,
            length (buf p')))"
proof -
  obtain "next_segment doc_no doc is_closed cap doc' seg" and "sd_next_seg_off doc < length (sd_data doc)"
    using assms(3) by (cases rule: seg_try_new_cases [of doc doc_no is_closed cap]) auto
  note ns = this(1) [unfolded next_segment_def] and left = this(2)
  have wf: "seg_wf seg" "seg_header_len seg + length (seg_data seg) \<le> cap"
    and f: "seg_doc_no seg = doc_no" "seg_off seg = sd_next_seg_off doc" "seg_doc_len seg = length (sd_data doc)"
      "seg_doc_parent_no seg = sd_parent_no doc" "bit (seg_variant seg) 2 \<longleftrightarrow> sd_next_seg_off doc = 0"
      "bit (seg_variant seg) 6 \<longleftrightarrow> is_closed" "bit (seg_variant seg) 5 \<longrightarrow> seg_data seg = sd_data doc"
    and data: "take (length (seg_data seg)) (drop (sd_next_seg_off doc) (sd_data doc)) = seg_data seg"
    and doc': "sd_next_seg_off doc' = sd_next_seg_off doc + length (seg_data seg)"
    using ns by (blast, blast, blast, blast, blast, blast, blast, blast, blast, metis, simp)
  have cap: "cap = unat (pb_mtu p) - length (buf p)"
    using assms(2) by (auto simp: remaining_cap_def checked_sub_def split: if_splits)
  obtain p' full where app: "append_seg p seg = Some (p', full)" "pb_inv p'" "buf p' = buf p @ seg_frame cap seg"
    using append_seg_ok [OF assms(1) wf(1)] wf(2) cap by auto
  have "length (seg_data seg) \<le> length (sd_data doc)" using arg_cong [OF data, of length] by simp
  moreover have "unat (sd_parent_no doc) < 2 ^ 30" using assms(4,6) by (simp add: word_less_nat_alt)
  ultimately have small: "seg_small seg" using f assms(4,5) left by (simp add: seg_small_def)
  have parse: "parse_seg (seg_frame cap seg ! 0) (buf p' @ post) (length (buf p) + 1) = Some (Inr (parsed_of seg), length (buf p'))"
    if "seg_frame cap seg ! 0 AND VARIANT_SEG_LEN_MASK \<noteq> VARIANT_SEG_HAS_LEN \<longrightarrow> post = []" "fits_slice (buf p' @ post)" for post
  proof -
    have "(buf p' @ post) ! length (buf p) = seg_frame cap seg ! 0"
      by (simp add: app(3) seg_frame_def Let_def)
    then show ?thesis
      using parse_seg_frame [OF wf(1) small _ wf(2), of "buf p' @ post" "buf p" post] that assms(6) app(3) f by simp
  qed
  have "parsed_of seg = \<lparr> ps_special = bit (seg_variant seg) 3, ps_is_closed = is_closed, ps_doc_no = doc_no,
            ps_doc_len = (if bit (seg_variant seg) 4 \<or> bit (seg_variant seg) 5 then Some (length (sd_data doc)) else None),
            ps_parent_no = (if bit (seg_variant seg) 3 \<or> sd_next_seg_off doc = 0 then Some (sd_parent_no doc) else None),
            ps_seg_off = sd_next_seg_off doc,
            ps_seg = take (sd_next_seg_off doc' - sd_next_seg_off doc) (drop (sd_next_seg_off doc) (sd_data doc)) \<rparr>"
    using f by (simp add: parsed_of_def Let_def data doc')
  with parse show ?thesis by (intro exI [of _ p'] exI [of _ full] exI [of _ "seg_frame cap seg"]) (simp add: app)
qed

theorem append_seg_parsed_back_witness:
  "\<exists>doc' seg p' full. seg_try_new 5 \<lparr> sd_parent_no = 3, sd_has_special_parent = False, sd_has_been_acked = False,
      sd_next_seg_off = 0, sd_data = [1, 2, 3], sd_flush_wakers = [] \<rparr> False 92 = (doc', Inr seg) \<and>
     append_seg (packet_new 100) seg = Some (p', full) \<and> pb_inv p'"
proof -
  let ?doc = "\<lparr> sd_parent_no = 3, sd_has_special_parent = False, sd_has_been_acked = False,
      sd_next_seg_off = 0, sd_data = [1, 2, 3], sd_flush_wakers = [] \<rparr>"
  obtain doc' seg where c: "seg_try_new 5 ?doc False 92 = (doc', Inr seg)"
    by (cases rule: seg_try_new_cases [of ?doc 5 False 92]) (auto simp: MAX_SEG_HEADER_LEN_def MIN_SEG_DATA_LEN_def)
  then show ?thesis
    using append_seg_parsed_back [OF _ _ c, of "packet_new 100"]
    by (auto simp: pb_inv_def packet_new_def HEADER_LEN_def remaining_cap_def checked_sub_def)
qed

text \<open>
  Sending a segment again.  For a well-formed segment and a packet that keeps its invariant,
  \<open>try_append_seg\<close> does not panic and the packet stays within the MTU; either the whole segment is
  appended, or nothing is and the segment comes back, or a first part of the data is appended and the
  rest comes back, at the offset behind that part and with no byte lost.  The header length of the
  rest is right exactly when the segment was the first one or its offset field keeps its length.
\<close>

theorem try_append_seg_conserves:
  assumes "pb_inv p" and "seg_wf seg"
  shows "\<exists>p' full rest. try_append_seg p seg = Some (p', full, rest) \<and> pb_inv p' \<and>
     ((rest = None \<and> eliciting_frames p' = eliciting_frames p @ [Seg seg]) \<or>
      (rest = Some seg \<and> p' = p) \<or>
      (\<exists>s1 s2. rest = Some s2 \<and> eliciting_frames p' = eliciting_frames p @ [Seg s1] \<and>
         seg_data s1 @ seg_data s2 = seg_data seg \<and> seg_data s1 \<noteq> [] \<and> seg_data s2 \<noteq> [] \<and>
         seg_off s1 = seg_off seg \<and> seg_off s2 = seg_off seg + length (seg_data s1) \<and>
         (seg_wf s2 \<longleftrightarrow> has_flag (seg_variant seg) VARIANT_SEG_FLAG_IS_FIRST \<or>
            len_of_usize (seg_off s2) = len_of_usize (seg_off seg))))"
  using try_append_seg_ok [OF assms] by (fastforce simp: append_outcome_def off_len_kept_def)

text \<open>A first segment of 40 bytes, used in examples: number 5, parent 3, the whole document.\<close>

definition sample_seg :: segment where
  "sample_seg = \<lparr> variant_and_header_len = pack_variant (VARIANT_SEG_FLAG_IS_FIRST OR VARIANT_SEG_FLAG_IS_SINGLE_SEG) 3,
     seg_doc_no = 5, seg_doc_len = 40, seg_doc_parent_no = 3, seg_off = 0, seg_data = replicate 40 7 \<rparr>"

lemma sample_seg_wf: "seg_wf sample_seg"
proof (rule seg_wfI(1))
  show "variant_and_header_len sample_seg = pack_variant (VARIANT_SEG_FLAG_IS_FIRST OR VARIANT_SEG_FLAG_IS_SINGLE_SEG) 3"
    by (simp add: sample_seg_def)
  show "3 = header_size (VARIANT_SEG_FLAG_IS_FIRST OR VARIANT_SEG_FLAG_IS_SINGLE_SEG) sample_seg"
    by (simp add: header_size_def bit_or_iff flag_bits sample_seg_def varu64_len_def VARINT_U16_MAX_def VARINT_U8_MAX_def)
qed (simp add: no_len_bits_def bit_or_iff flag_bits)

theorem try_append_seg_conserves_witness:
  "\<exists>p' full rest. try_append_seg (packet_new 40) sample_seg = Some (p', full, rest) \<and> pb_inv p'"
  using try_append_seg_conserves [of "packet_new 40", OF _ sample_seg_wf]
  by (auto simp: pb_inv_def packet_new_def HEADER_LEN_def)

text \<open>
  Splitting a segment that is not the first one of its document leaves the header length of the
  rest as it was, even when the new offset needs a longer field; appending that rest to any packet
  then panics in the check of the header length.
\<close>

theorem split_rest_cannot_be_appended:
  assumes "pb_inv p" and "seg_wf seg" and "remaining_cap p = Some cap"
    and "\<not> has_flag (seg_variant seg) VARIANT_SEG_FLAG_IS_FIRST" and "\<not> has_flag (seg_variant seg) VARIANT_SEG_FLAG_IS_SINGLE_SEG"
    and "seg_header_len seg + MIN_SEG_DATA_LEN \<le> cap" and "cap < seg_header_len seg + length (seg_data seg)"
    and "len_of_usize (seg_off seg + (cap - seg_header_len seg)) \<noteq> len_of_usize (seg_off seg)"
  shows "\<exists>p' full rest. try_append_seg p seg = Some (p', full, Some rest) \<and> (\<forall>q. append_seg q rest = None)"
proof -
  have h: "seg_header_len seg = header_size (seg_variant seg) seg" and no: "no_len_bits (seg_variant seg)"
    using assms(2) by (simp_all add: seg_wf_def)
  from split_seg_ok [OF h no, of cap] assms(4,8)
  obtain s1 s2 where s: "split_seg seg (seg_variant seg) (seg_header_len seg) cap = Some (s1, s2)" "seg_wf s1"
    "seg_header_len s1 = seg_header_len seg" "\<not> seg_wf s2" "no_len_bits (seg_variant s2)"
    "seg_data s1 = take (cap - seg_header_len seg) (seg_data seg)" by auto
  have "seg_header_len s1 + length (seg_data s1) \<le> unat (pb_mtu p) - length (buf p)"
    using s assms(3,6,7) by (auto simp: remaining_cap_def checked_sub_def split: if_splits)
  then obtain p' full where "append_seg p s1 = Some (p', full)" using append_seg_ok [OF assms(1) s(2)] by auto
  moreover have "append_seg q s2 = None" for q
    using s(4,5) length_header_bytes [of "seg_variant s2" s2]
    by (simp add: append_seg_def Let_def write_header_bytes seg_wf_def)
  ultimately show ?thesis
    using s(1) assms(3,5,6,7) by (auto simp: try_append_seg_def Let_def)
qed

text \<open>A later segment of 40 bytes at offset 60, used in the example.\<close>

definition sample_late_seg :: segment where
  "sample_late_seg = \<lparr> variant_and_header_len = pack_variant 0 3, seg_doc_no = 5, seg_doc_len = 100,
     seg_doc_parent_no = 3, seg_off = 60, seg_data = replicate 40 7 \<rparr>"

lemma sample_late_seg_wf:
  "seg_wf sample_late_seg" "seg_header_len sample_late_seg = 3" "seg_variant sample_late_seg = 0"
proof -
  have "variant_and_header_len sample_late_seg = pack_variant 0 3" by (simp add: sample_late_seg_def)
  moreover have "3 = header_size 0 sample_late_seg"
    by (simp add: header_size_def sample_late_seg_def varu64_len_def len_of_usize_def varusize_len_def
        VARINT_U16_MAX_def VARINT_U8_MAX_def)
  moreover have "no_len_bits 0" by (simp add: no_len_bits_def)
  ultimately show "seg_wf sample_late_seg" "seg_header_len sample_late_seg = 3" "seg_variant sample_late_seg = 0"
    by (rule seg_wfI)+
qed

theorem split_rest_cannot_be_appended_witness:
  "\<exists>p' full rest. try_append_seg (packet_new 40) sample_late_seg = Some (p', full, Some rest) \<and> append_seg (packet_new 1000) rest = None"
proof -
  have "pb_inv (packet_new 40)" "remaining_cap (packet_new 40) = Some 32"
    by (simp_all add: pb_inv_def packet_new_def HEADER_LEN_def remaining_cap_def checked_sub_def)
  moreover have "len_of_usize (60 + (32 - 3)) \<noteq> len_of_usize 60"
    by (simp add: len_of_usize_def varusize_len_def VARINT_U16_MAX_def VARINT_U8_MAX_def)
  moreover have "seg_off sample_late_seg = 60" "length (seg_data sample_late_seg) = 40"
    by (simp_all add: sample_late_seg_def)
  ultimately show ?thesis
    using split_rest_cannot_be_appended [of "packet_new 40" sample_late_seg 32]
    by (fastforce simp: sample_late_seg_wf MIN_SEG_DATA_LEN_def)
qed

section \<open>Packets that can be built\<close>

text \<open>
  The packets that the operations build, as \<open>transmit\<close> calls them: control frames only while the
  packet is not full, acknowledgements sorted, segments cut for the room there is or sent again.
\<close>

inductive built :: "u32 \<Rightarrow> packet_builder \<Rightarrow> bool" for m where
  built_new: "HEADER_LEN \<le> unat m \<Longrightarrow> built m (packet_new m)"
| built_acks: "built m p \<Longrightarrow> sorted_wrt (<) acks \<Longrightarrow> length acks \<le> 2 ^ 29 \<Longrightarrow> \<forall>a\<in>set acks. unat a < 2 ^ 32 - 1 \<Longrightarrow>
    append_sorted_acks p acks idx uid = Some (p', acks', full) \<Longrightarrow> built m p'"
| built_control: "built m p \<Longrightarrow> is_full p = Some False \<Longrightarrow> append_control p v d = Some (p', full) \<Longrightarrow> built m p'"
| built_seg: "built m p \<Longrightarrow> remaining_cap p = Some cap \<Longrightarrow> seg_try_new d doc c cap = (doc', Inr seg) \<Longrightarrow>
    append_seg p seg = Some (p', full) \<Longrightarrow> built m p'"
| built_resend: "built m p \<Longrightarrow> seg_wf seg \<Longrightarrow> try_append_seg p seg = Some (p', full, rest) \<Longrightarrow> built m p'"

lemma append_control_ok:
  assumes inv: "pb_inv p" and full: "is_full p = Some False"
  shows "\<exists>p' f. append_control p v d = Some (p', f) \<and> pb_inv p' \<and> pb_mtu p' = pb_mtu p \<and>
     buf p' = buf p @ v # varu64_write [] d"
proof -
  have room: "MIN_FRAME_APPEND_LEN \<le> unat (pb_mtu p) - length (buf p)" and le: "length (buf p) \<le> unat (pb_mtu p)"
    using full by (auto simp: is_full_def remaining_cap_def checked_sub_def split: if_splits)
  have b: "varu64_write (buf p @ [v]) d = buf p @ v # varu64_write [] d"
    by (subst v64.write_append) simp
  have l: "length (v # varu64_write [] d) \<le> 9" using varint_len_le(1) [of d] by (simp add: v64.length_written)
  then have l': "length (v # varu64_write [] d) \<le> unat (pb_mtu p) - length (buf p)"
    using room by (simp add: MIN_FRAME_APPEND_LEN_def)
  obtain r where r: "add_u32 (resend_len p) (word_of_nat (length (v # varu64_write [] d))) = Some r"
    "unat r \<le> length (buf p @ v # varu64_write [] d)"
    using add_resend_len [OF inv l'] by auto
  have "length (buf p @ v # varu64_write [] d) \<le> unat (pb_mtu p)" using l' le by simp
  then show ?thesis
    using r inv by (simp add: append_control_def b Let_def is_full_def remaining_cap_def checked_sub_def pb_inv_def)
qed

lemma append_sorted_acks_ok:
  assumes inv: "pb_inv p" and acks: "sorted_wrt (<) acks" "length acks \<le> 2 ^ 29" "\<forall>a\<in>set acks. unat a < 2 ^ 32 - 1"
  shows "\<exists>p' n full fr. append_sorted_acks p acks idx uid = Some (p', drop n acks, full) \<and> pb_inv p' \<and>
     pb_mtu p' = pb_mtu p \<and> buf p' = buf p @ fr \<and> decode_frames (buf p') (length (buf p)) = Some (take n acks)"
proof -
  have m: "length (buf p) \<le> unat (pb_mtu p)" "unat (pb_mtu p) < 2 ^ 32"
    using inv unsigned_less [of "pb_mtu p", where ?'a = nat] by (simp_all add: pb_inv_def)
  then have "max (length (buf p)) (unat (pb_mtu p)) < 2 ^ 63" by simp
  from encode_loop_ok [OF acks this, of 0] obtain fr n where
    e: "encode (buf p) acks (unat (pb_mtu p)) = Some (buf p @ fr, n)" "n \<le> length acks"
      "length (buf p @ fr) \<le> max (length (buf p)) (unat (pb_mtu p))"
      "decode_frames (buf p @ fr) (length (buf p)) = Some (map ((!) acks) [0..<n])"
    by (auto simp: encode_def)
  moreover have "map ((!) acks) [0..<n] = take n acks" using e(2) by (intro nth_equalityI) simp_all
  ultimately show ?thesis
    using m inv by (auto simp: append_sorted_acks_def Let_def is_full_def remaining_cap_def checked_sub_def pb_inv_def
        intro: exI [of _ n])
qed

lemma built_inv: "built m p \<Longrightarrow> pb_inv p \<and> pb_mtu p = m"
proof (induction rule: built.induct)
  case built_new
  then show ?case by (simp add: pb_inv_def packet_new_def)
next
  case (built_acks p acks idx uid p' acks' full)
  then show ?case using append_sorted_acks_ok [of p acks idx uid] by auto
next
  case (built_control p v d p' full)
  then show ?case using append_control_ok [of p v d] by auto
next
  case (built_seg p cap d doc c doc' seg p' full)
  have "seg_wf seg" "seg_header_len seg + length (seg_data seg) \<le> cap"
    using built_seg.hyps(3) by (cases rule: seg_try_new_cases [of doc d c cap]; simp add: next_segment_def)+
  moreover have "cap = unat (pb_mtu p) - length (buf p)"
    using built_seg.hyps(2) by (auto simp: remaining_cap_def checked_sub_def split: if_splits)
  ultimately show ?case using append_seg_ok [of p seg] built_seg by auto
next
  case (built_resend p seg p' full rest)
  then show ?case using try_append_seg_ok [of p seg] by auto
qed



text \<open>
  Acknowledgements in a packet.  Appending sorted acknowledgements to a packet keeps it within
  the MTU and its old content, removes exactly the numbers from the list that were written, and the
  decoder reads those numbers back.
\<close>

theorem append_sorted_acks_readable:
  assumes "pb_inv p" and "sorted_wrt (<) acks" and "length acks \<le> 2 ^ 29" and "\<forall>a\<in>set acks. unat a < 2 ^ 32 - 1"
  shows "\<exists>p' n full fr. append_sorted_acks p acks idx uid = Some (p', drop n acks, full) \<and> pb_inv p' \<and>
     buf p' = buf p @ fr \<and> decode_frames (buf p') (length (buf p)) = Some (take n acks)"
  using append_sorted_acks_ok [OF assms] by blast

theorem append_sorted_acks_readable_witness:
  "\<exists>p' n full. append_sorted_acks (packet_new 100) [3, 4, 9] False 1 = Some (p', drop n [3, 4, 9], full) \<and> pb_inv p'"
  using append_sorted_acks_readable [of "packet_new 100" "[3, 4, 9]" False 1]
  by (fastforce simp: pb_inv_def packet_new_def HEADER_LEN_def)

end
