(* ===== verification/Session_Recv.thy ===== *)
theory Session_Recv
  imports Recv_Parse
begin

text \<open>
  Receiving documents: \<open>session/src/recv.rs\<close> with the operations of \<open>session copy.rs\<close> it calls.

  The model is sequential: one call runs at a time, so a lock is the slot it protects.  \<open>None\<close> is a
  panic, and also a wait on the condition variable of a slot that nobody will notify.  The memory of
  a new document starts as zeros; the source leaves it uninitialised and hands it over only when all
  of it has been written.  The bodies of \<open>schedule_send_control\<close> and \<open>abandon\<close> end in \<open>todo!()\<close>; the
  model goes on behind these calls.
\<close>

section \<open>Dropping documents and channels\<close>

text \<open>\<open>AtomicUsize::fetch_sub\<close> wraps around.\<close>

definition fetch_sub :: "nat \<Rightarrow> nat \<Rightarrow> nat" where
  "fetch_sub a b = (a + usize_bound - b mod usize_bound) mod usize_bound"

definition set_recv_slot :: "nat \<Rightarrow> recv_slot \<Rightarrow> session \<Rightarrow> session" where
  "set_recv_slot i e s = s\<lparr> recv_table := (recv_table s)[i := e] \<rparr>"

definition set_send_slot :: "nat \<Rightarrow> send_slot \<Rightarrow> session \<Rightarrow> session" where
  "set_send_slot i e s = s\<lparr> send_table := (send_table s)[i := e] \<rparr>"

text \<open>Assigning to the state of a document drops the old one, which wakes its flushers.\<close>

definition drop_doc_state :: "recv_doc_state \<Rightarrow> session \<Rightarrow> session" where
  "drop_doc_state d s = (case d of Finishing flushers \<Rightarrow> drop_flushers flushers s | _ \<Rightarrow> s)"

text \<open>
  One round of the loop of \<open>drop_unfinished_recv_doc\<close>: the session after it and the documents that
  the closed channel held.
\<close>

definition drop_one :: "u64 \<Rightarrow> nat \<Rightarrow> session \<Rightarrow> (session \<times> unfinished_recv_doc list) option" where
  "drop_one doc_no doc_len s =
     (let s = schedule_send_control VARIANT_CONTROL_FIN_PARENT_CLOSED doc_no
                (s\<lparr> recv_bytes_total := fetch_sub (recv_bytes_total s) doc_len \<rparr>)
      in case slot_idx doc_no (recv_table s) of
           None \<Rightarrow> None
         | Some i \<Rightarrow>
             let entry = recv_table s ! i in
             if rs_doc_no entry = doc_no then
               (if \<not> slot_is_fin (rs_doc entry) then None
                else
                  let s = drop_doc_state (rs_doc entry) s;
                      s = set_recv_slot i (entry\<lparr> rs_doc := FinParentClose, rs_channel := None, rs_needs_send_control := True \<rparr>) s
                  in case rs_channel entry of
                       Some channel \<Rightarrow> Some (s, ready_docs channel)
                     | None \<Rightarrow> Some (s, []))
             else Some (s, []))"

text \<open>The documents that open channels of the receive table hold.\<close>

definition held_docs :: "session \<Rightarrow> nat" where
  "held_docs s = (\<Sum>e\<leftarrow>recv_table s. case rs_channel e of None \<Rightarrow> 0 | Some ch \<Rightarrow> length (ready_docs ch))"

lemma sum_list_update_nat:
  fixes f :: "'a \<Rightarrow> nat"
  assumes "i < length xs"
  shows "(\<Sum>x\<leftarrow>xs[i := y]. f x) + f (xs ! i) = (\<Sum>x\<leftarrow>xs. f x) + f y"
  using assms
proof (induction xs arbitrary: i)
  case (Cons x xs)
  then show ?case by (cases i) auto
qed simp

lemma session_simps [simp]:
  "recv_table (wake_all ws s) = recv_table s"
  "recv_table (drop_doc_state d s) = recv_table s"
  "recv_table (schedule_send_control v n s) = recv_table s"
  "recv_table (set_recv_slot i e s) = (recv_table s)[i := e]"
  "recv_table (set_send_slot j e' s) = recv_table s"
  by (simp_all add: wake_all_def drop_doc_state_def drop_flushers_def schedule_send_control_def set_recv_slot_def set_send_slot_def
      split: recv_doc_state.splits)

lemma slot_idx_less: "slot_idx n t = Some i \<Longrightarrow> i < length t"
  by (auto simp: slot_idx_def split: if_splits)

lemma drop_one_measure:
  assumes "drop_one doc_no doc_len s = Some (s', docs)"
  shows "held_docs s' + length docs \<le> held_docs s"
proof -
  obtain i where i: "slot_idx doc_no (recv_table s) = Some i" "i < length (recv_table s)"
    using assms by (auto simp: drop_one_def Let_def dest: slot_idx_less split: option.splits)
  let ?f = "\<lambda>e. case rs_channel e of None \<Rightarrow> 0 | Some ch \<Rightarrow> length (ready_docs ch)"
  show ?thesis
    using assms i sum_list_update_nat [OF i(2), where f = ?f
        and y = "(recv_table s ! i)\<lparr> rs_doc := FinParentClose, rs_channel := None, rs_needs_send_control := True \<rparr>"]
    by (auto simp: drop_one_def Let_def held_docs_def split: if_splits option.splits)
qed

text \<open>
  The loop of \<open>drop_unfinished_recv_doc\<close>; the head of the list is the top of the stack.  It ends
  because a channel is closed before the documents it holds are pushed.
\<close>

function drop_loop :: "(u64 \<times> nat) list \<Rightarrow> session \<Rightarrow> session option" where
  "drop_loop [] s = Some s"
| "drop_loop ((doc_no, doc_len) # stack) s =
     (case drop_one doc_no doc_len s of
        None \<Rightarrow> None
      | Some (s', docs) \<Rightarrow> drop_loop (map (\<lambda>d. (ur_doc_no d, length (ur_buf d))) docs @ stack) s')"
  by pat_completeness auto

termination
  by (relation "measure (\<lambda>(stack, s). held_docs s + length stack)") (auto dest: drop_one_measure)

definition drop_unfinished_recv_doc :: "u64 \<Rightarrow> nat \<Rightarrow> session \<Rightarrow> session option" where
  "drop_unfinished_recv_doc doc_no doc_len s = drop_loop [(doc_no, doc_len)] s"

fun drop_unfinished_docs :: "unfinished_recv_doc list \<Rightarrow> session \<Rightarrow> session option" where
  "drop_unfinished_docs [] s = Some s"
| "drop_unfinished_docs (d # ds) s =
     do { s \<leftarrow> drop_unfinished_recv_doc (ur_doc_no d) (length (ur_buf d)) s; drop_unfinished_docs ds s }"

definition drop_closed_channel :: "open_channel option \<Rightarrow> session \<Rightarrow> session option" where
  "drop_closed_channel channel s =
     (case channel of
        None \<Rightarrow> Some s
      | Some channel \<Rightarrow> do {
          s \<leftarrow> drop_unfinished_docs (rev (ready_docs channel)) s;
          Some (reply_wake (reply_buffer channel) (wake_all (ready_wakers channel) s))
        })"

section \<open>The memory of a document\<close>

definition doc_mem_len :: "doc_mem \<Rightarrow> nat" where
  "doc_mem_len m = (case m of Simple b \<Rightarrow> length b | ReplyBuf a e \<Rightarrow> e - a)"

definition doc_mem_write :: "doc_mem \<Rightarrow> nat \<Rightarrow> bytes \<Rightarrow> (address \<Rightarrow> u8) \<Rightarrow> (doc_mem \<times> (address \<Rightarrow> u8)) option" where
  "doc_mem_write m off seg h =
     (case m of
        Simple b \<Rightarrow> map_option (\<lambda>b. (Simple b, h)) (copy_range b off (off + length seg) seg)
      | ReplyBuf a e \<Rightarrow>
          if \<not> length seg < e - a then None
          else Some (m, \<lambda>x. if a \<le> x \<and> x < a + length seg then seg ! (x - a) else h x))"

text \<open>The number of ones in a word.\<close>

definition count_ones :: "u64 \<Rightarrow> nat" where
  "count_ones w = length (filter (bit w) [0..<64])"

definition check_overlap :: "u64 list \<Rightarrow> nat \<Rightarrow> u64 \<Rightarrow> (u64 list \<times> nat) option" where
  "check_overlap segs i set_bits =
     do {
       pre_bits \<leftarrow> get_idx segs i;
       segs \<leftarrow> set_idx segs i (pre_bits OR set_bits);
       Some (segs, count_ones (NOT pre_bits AND set_bits))
     }"

fun check_words :: "u64 list \<Rightarrow> nat list \<Rightarrow> (u64 list \<times> nat) option" where
  "check_words segs [] = Some (segs, 0)"
| "check_words segs (i # is) =
     do {
       (segs, n) \<leftarrow> check_overlap segs i (- 1);
       (segs, m) \<leftarrow> check_words segs is;
       Some (segs, n + m)
     }"

text \<open>\<open>recv_doc\<close> returns \<open>true\<close> when the document is complete.\<close>

definition recv_doc_seg ::
  "recv_doc \<Rightarrow> nat \<Rightarrow> bytes \<Rightarrow> (address \<Rightarrow> u8) \<Rightarrow> (recv_doc \<times> (address \<Rightarrow> u8) \<times> (recv_error + bool)) option" where
  "recv_doc_seg doc off seg h =
     (let doc_len = doc_mem_len (rd_mem doc) in
      if seg = [] then Some (doc, h, Inr (doc_len = 0))
      else do {
        seg_stop \<leftarrow> checked_add off (length seg);
        let seg_end = seg_stop - 1;
        if seg_end \<ge> doc_len then Some (doc, h, Inl Invalid)
        else do {
          let seg_off_idx = off div 64;
          let seg_off_rem = off mod 64;
          let seg_end_idx = seg_end div 64;
          let seg_end_rem = seg_end mod 64;
          let seg_off_set = drop_bit seg_off_rem (- 1 :: u64);
          let seg_end_set = push_bit (64 - seg_end_rem - 1) (- 1 :: u64);
          (segs, total_new_bytes) \<leftarrow>
            (if seg_off_idx = seg_end_idx then check_overlap (rd_set_segs doc) seg_off_idx (seg_off_set AND seg_end_set)
             else do {
               (segs, n1) \<leftarrow> check_overlap (rd_set_segs doc) seg_off_idx seg_off_set;
               (segs, n2) \<leftarrow> check_words segs [seg_off_idx + 1..<seg_end_idx - 1];
               (segs, n3) \<leftarrow> check_overlap segs seg_end_idx seg_end_set;
               Some (segs, n1 + n2 + n3)
             });
          let total = rd_total_recv doc + total_new_bytes;
          (mem, h) \<leftarrow> doc_mem_write (rd_mem doc) off seg h;
          Some (doc\<lparr> rd_set_segs := segs, rd_total_recv := total, rd_mem := mem \<rparr>, h, Inr (total = doc_len))
        }
      })"

section \<open>Finishing a document\<close>

definition post_to_channel :: "recv_doc \<Rightarrow> u64 \<Rightarrow> bool \<Rightarrow> open_channel \<Rightarrow> (open_channel \<times> waker option) option" where
  "post_to_channel doc doc_no is_closed channel =
     (case rd_mem doc of
        Simple b \<Rightarrow>
          let channel = channel\<lparr> ready_docs := ready_docs channel @
                [\<lparr> ur_buf = b, ur_doc_no = doc_no, ur_has_special_parent = rd_has_special_parent doc, ur_is_closed = is_closed \<rparr>] \<rparr>
          in (if ready_wakers channel = [] then Some (channel, None)
              else Some (channel\<lparr> ready_wakers := butlast (ready_wakers channel) \<rparr>, Some (last (ready_wakers channel))))
      | ReplyBuf _ _ \<Rightarrow>
          (case reply_buffer channel of
             Awaiting _ w \<Rightarrow>
               Some (channel\<lparr> reply_buffer := RecvReply (rd_total_recv doc)
                       \<lparr> uc_doc_no = doc_no, uc_has_special_parent = rd_has_special_parent doc, uc_is_closed = is_closed \<rparr> \<rparr>, Some w)
           | _ \<Rightarrow> None))"

definition wake_opt :: "waker option \<Rightarrow> session \<Rightarrow> session" where
  "wake_opt w s = (case w of None \<Rightarrow> s | Some w \<Rightarrow> wake_all [w] s)"

text \<open>The part of \<open>fin_doc\<close> behind the release of the slot: the document finds its parent.\<close>

definition fin_to_parent :: "u64 \<Rightarrow> recv_doc \<Rightarrow> u64 \<Rightarrow> bool \<Rightarrow> session \<Rightarrow> (session \<times> (recv_error + unit)) option" where
  "fin_to_parent doc_no doc parent_no is_closed s =
     (if is_sending s parent_no then do {
        send_idx \<leftarrow> slot_idx parent_no (send_table s);
        let entry = send_table s ! send_idx;
        case (if ss_doc_no entry = parent_no then ss_channel entry else None) of
          Some channel \<Rightarrow> do {
            (channel, waker) \<leftarrow> post_to_channel doc doc_no is_closed channel;
            Some (wake_opt waker (set_send_slot send_idx (entry\<lparr> ss_channel := Some channel \<rparr>) s), Inr ())
          }
        | None \<Rightarrow>
            if ss_doc_no entry \<ge> parent_no then do {
              s \<leftarrow> drop_unfinished_recv_doc doc_no (rd_total_recv doc) s;
              Some (s, Inr ())
            }
            else Some (s, Inl Invalid)
      }
      else do {
        recv_idx \<leftarrow> slot_idx parent_no (recv_table s);
        let entry = recv_table s ! recv_idx;
        case (if rs_doc_no entry = parent_no then rs_channel entry else None) of
          Some channel \<Rightarrow> do {
            (channel, waker) \<leftarrow> post_to_channel doc doc_no is_closed channel;
            Some (wake_opt waker (set_recv_slot recv_idx (entry\<lparr> rs_channel := Some channel \<rparr>) s), Inr ())
          }
        | None \<Rightarrow>
            if rs_doc_no entry \<ge> parent_no then do {
              s \<leftarrow> drop_unfinished_recv_doc doc_no (rd_total_recv doc) s;
              Some (s, Inr ())
            }
            else if slot_is_fin (rs_doc entry) \<and>
                    (rs_orphans_expected_parent_no entry = None \<or> rs_orphans_expected_parent_no entry = Some parent_no) then
              (case rd_mem doc of
                 ReplyBuf _ _ \<Rightarrow> None
               | Simple b \<Rightarrow>
                   Some (set_recv_slot recv_idx
                     (entry\<lparr> rs_orphans_expected_parent_no := Some parent_no,
                        rs_adoptable_orphans := rs_adoptable_orphans entry @
                          [\<lparr> ur_buf = b, ur_doc_no = doc_no, ur_has_special_parent = rd_has_special_parent doc,
                             ur_is_closed = is_closed \<rparr>] \<rparr>) s, Inr ()))
            else Some (s, Inl Invalid)
      })"

definition fin_doc :: "u64 \<Rightarrow> nat \<Rightarrow> session \<Rightarrow> (session \<times> (recv_error + unit)) option" where
  "fin_doc doc_no i s =
     (let entry = recv_table s ! i in
      case rs_doc entry of
        Active doc \<Rightarrow>
          (let entry = entry\<lparr> rs_doc := Finishing [] \<rparr> in
           case rd_parent_no doc of
             None \<Rightarrow> Some (set_recv_slot i entry s, Inl Invalid)
           | Some parent_no \<Rightarrow>
               let entry = entry\<lparr> rs_channel := map_option (\<lambda>ch. ch\<lparr> ref_count := ref_count ch + 1 \<rparr>) (rs_channel entry) \<rparr>
               in fin_to_parent doc_no doc parent_no (rs_channel entry = None) (set_recv_slot i entry s))
      | _ \<Rightarrow> None)"

section \<open>Receiving a segment\<close>

text \<open>A segment of the document that is in its slot (\<open>DOCUMENT UPDATE\<close>).\<close>

definition update_doc :: "parsed_seg \<Rightarrow> nat \<Rightarrow> session \<Rightarrow> (session \<times> (recv_error + unit)) option" where
  "update_doc p i s =
     (let entry = recv_table s ! i;
          closed_channel = (if ps_is_closed p then rs_channel entry else None);
          entry = (if ps_is_closed p then entry\<lparr> rs_channel := None \<rparr> else entry);
          s = set_recv_slot i entry s
      in case rs_doc entry of
           ActiveReserved \<Rightarrow> None
         | Active doc \<Rightarrow> do {
             (doc, h, result) \<leftarrow> recv_doc_seg doc (ps_seg_off p) (ps_seg p) (heap s);
             let s = set_recv_slot i (entry\<lparr> rs_doc := Active doc \<rparr>) (s\<lparr> heap := h \<rparr>);
             (s, ret) \<leftarrow>
               (case result of
                  Inr False \<Rightarrow> Some (s, Inr ())
                | Inr True \<Rightarrow> fin_doc (ps_doc_no p) i s
                | Inl e \<Rightarrow> Some (s, Inl e));
             s \<leftarrow> drop_closed_channel closed_channel s;
             Some (s, ret)
           }
         | _ \<Rightarrow> do {
             s \<leftarrow> drop_closed_channel closed_channel s;
             Some (s, Inr ())
           })"

text \<open>
  The first segment of a new document (\<open>DOCUMENT CREATION\<close>).  First the slot is reserved for it: the
  orphans that wait in the slot become the ready documents of its channel, unless it arrives closed.
\<close>

definition reserve_slot :: "parsed_seg \<Rightarrow> nat \<Rightarrow> session \<Rightarrow> session" where
  "reserve_slot p i s =
     (let entry = recv_table s ! i;
          channel = (if ps_is_closed p then None
                     else Some \<lparr> ref_count = 0, ready_wakers = [], ready_docs = rs_adoptable_orphans entry,
                                 reply_buffer = NoReply \<rparr>)
      in set_recv_slot i (entry\<lparr> rs_doc_no := ps_doc_no p, rs_needs_send_control := False, rs_doc := ActiveReserved,
           rs_adoptable_orphans := [], rs_channel := channel \<rparr>) s)"

text \<open>A document with a special parent goes into the reply buffer that waits there, if there is one.\<close>

definition reply_mem :: "parsed_seg \<Rightarrow> session \<Rightarrow> (session \<times> doc_mem option) option" where
  "reply_mem p s =
     (case (if ps_special p then ps_parent_no p else None) of
        Some parent_no \<Rightarrow> do {
          (s, r) \<leftarrow> update_channel parent_no
            (\<lambda>ch. let (reply, range) = try_incoming (reply_buffer ch) in (ch\<lparr> reply_buffer := reply \<rparr>, range)) s;
          Some (s, Option.bind r (\<lambda>r. map_option (\<lambda>(a, e). ReplyBuf a e) r))
        }
      | None \<Rightarrow> Some (s, None))"

definition new_doc :: "parsed_seg \<Rightarrow> nat \<Rightarrow> doc_mem option \<Rightarrow> recv_doc" where
  "new_doc p doc_len mem =
     \<lparr> rd_has_special_parent = ps_special p, rd_parent_no = ps_parent_no p,
       rd_mem = (case mem of None \<Rightarrow> Simple (replicate doc_len 0) | Some m \<Rightarrow> m), rd_total_recv = 0,
       rd_set_segs = replicate ((doc_len + 63) div 64) 0 \<rparr>"

definition first_seg :: "parsed_seg \<Rightarrow> nat \<Rightarrow> recv_doc \<Rightarrow> session \<Rightarrow> (session \<times> (recv_error + unit)) option" where
  "first_seg p i doc s =
     (let entry = recv_table s ! i in
      if rs_doc entry \<noteq> ActiveReserved then None
      else do {
        (doc, h, result) \<leftarrow> recv_doc_seg doc (ps_seg_off p) (ps_seg p) (heap s);
        let s = s\<lparr> heap := h \<rparr>;
        case result of
          Inr False \<Rightarrow> Some (set_recv_slot i (entry\<lparr> rs_doc := Active doc \<rparr>) s, Inr ())
        | Inr True \<Rightarrow> fin_doc (ps_doc_no p) i (set_recv_slot i (entry\<lparr> rs_doc := Active doc \<rparr>) s)
        | Inl e \<Rightarrow> Some (s, Inl e)
      })"

definition create_doc :: "parsed_seg \<Rightarrow> nat \<Rightarrow> session \<Rightarrow> (session \<times> (recv_error + unit)) option" where
  "create_doc p i s =
     (let entry = recv_table s ! i in
      case ps_doc_len p of
        None \<Rightarrow> Some (s, Inr ())
      | Some doc_len \<Rightarrow>
          if \<not> slot_is_fin (rs_doc entry) then Some (s, Inl Invalid)
          else if (case rs_orphans_expected_parent_no entry of None \<Rightarrow> False | Some q \<Rightarrow> q \<noteq> ps_doc_no p) then Some (s, Inl Invalid)
          else case checked_add (recv_bytes_total s) doc_len of
            None \<Rightarrow> Some (s, Inl Invalid)
          | Some next_total \<Rightarrow>
              if \<not> next_total \<le> recv_bytes_max s then Some (s, Inl Invalid)
              else do {
                let recv_flushers = (case rs_doc entry of Finishing f \<Rightarrow> f | _ \<Rightarrow> []);
                let closed_orphans = (if ps_is_closed p then rs_adoptable_orphans entry else []);
                let closed_channel = rs_channel entry;
                (s, mem) \<leftarrow> reply_mem p (reserve_slot p i (s\<lparr> recv_bytes_total := next_total \<rparr>));
                (s, ret) \<leftarrow> first_seg p i (new_doc p doc_len mem) s;
                let s = drop_flushers recv_flushers s;
                s \<leftarrow> drop_unfinished_docs closed_orphans s;
                s \<leftarrow> drop_closed_channel closed_channel s;
                Some (s, ret)
              })"

definition recv_seg :: "u8 \<Rightarrow> bytes \<Rightarrow> nat \<Rightarrow> session \<Rightarrow> (session \<times> nat \<times> (recv_error + unit)) option" where
  "recv_seg variant packet i s =
     (case parse_seg variant packet i of
        None \<Rightarrow> None
      | Some (Inl e, i) \<Rightarrow> Some (s, i, Inl e)
      | Some (Inr p, i) \<Rightarrow>
          if is_sending s (ps_doc_no p) then Some (s, i, Inl Invalid)
          else do {
            recv_idx \<leftarrow> slot_idx (ps_doc_no p) (recv_table s);
            let entry = recv_table s ! recv_idx;
            (s, ret) \<leftarrow>
              (if rs_doc_no entry = ps_doc_no p then update_doc p recv_idx s
               else if rs_doc_no entry < ps_doc_no p then create_doc p recv_idx s
               else Some (s, Inr ()));
            Some (s, i, ret)
          })"

section \<open>Receiving a packet\<close>

lemma read_forward:
  "varu64_try_read packet i = (r, j) \<Longrightarrow> i \<le> length packet \<Longrightarrow> i \<le> j \<and> j \<le> length packet"
  "varusize_try_read packet i = (r', j) \<Longrightarrow> i \<le> length packet \<Longrightarrow> i \<le> j \<and> j \<le> length packet"
  unfolding varu64_try_read_def varusize_try_read_def using impl_try_read_index by blast+

lemma parse_data_forward:
  "parse_data v packet i = Some (Inr seg, j) \<Longrightarrow> i \<le> length packet \<Longrightarrow> i \<le> j \<and> j \<le> length packet"
  by (auto simp: parse_data_def Let_def slice_def dest!: read_forward(2) split: if_splits option.splits prod.splits)

lemma parse_seg_forward:
  assumes "parse_seg v packet i = Some (Inr p, j)" and "i \<le> length packet"
  shows "i \<le> j \<and> j \<le> length packet"
  using assms unfolding parse_seg_def Let_def
  by (simp split: prod.splits option.splits if_splits sum.splits)
     (fastforce dest: read_forward parse_data_forward)+

lemma recv_seg_forward:
  "recv_seg v packet i s = Some (s', j, Inr u) \<Longrightarrow> i \<le> length packet \<Longrightarrow> i \<le> j \<and> j \<le> length packet"
  by (auto simp: recv_seg_def Let_def dest: parse_seg_forward split: option.splits sum.splits if_split_asm bind_splits)

text \<open>
  The loop of \<open>recv\<close>.  Acknowledgements, padding and unknown variants are skipped, their first byte
  only.  The loop ends because every frame moves the index forward.
\<close>

function recv_packet :: "bytes \<Rightarrow> nat \<Rightarrow> session \<Rightarrow> (session \<times> nat) option" where
  "recv_packet packet idx s =
     (if idx \<ge> length packet then Some (s, idx)
      else
        let variant = packet ! idx in
        if variant = VARIANT_NULL_TERMINATOR then Some (s, idx + 1)
        else if VARIANT_SEG_MIN \<le> variant \<and> variant \<le> VARIANT_SEG_MAX then
          (case recv_seg variant packet (idx + 1) s of
             None \<Rightarrow> None
           | Some (s, idx', Inl e) \<Rightarrow> Some (abandon s, idx')
           | Some (s, idx', Inr _) \<Rightarrow> recv_packet packet idx' s)
        else recv_packet packet (idx + 1) s)"
  by pat_completeness auto

termination
  by (relation "measure (\<lambda>(packet, idx, s). length packet - idx)") (auto dest!: recv_seg_forward)

declare recv_packet.simps [simp del]

end
