(* ===== verification/Recv_Correct.thy ===== *)
theory Recv_Correct
  imports Session_Recv Desegmenter_Correct
begin

text \<open>
  What receiving documents guarantees.  First the memory of one document (\<open>recv_doc\<close>): its bit set
  counts every byte once, whatever overlaps, and it provides the interface of a reassembler for
  segments that lie in two neighbouring words.  Then the tables.
\<close>

section \<open>The bit set of a document\<close>

text \<open>The first byte of a word of the bit set is its highest bit.\<close>

definition rmarks :: "u64 list \<Rightarrow> nat set" where
  "rmarks segs = {p. p div 64 < length segs \<and> bit (segs ! (p div 64)) (63 - p mod 64)}"

definition word_marks :: "nat \<Rightarrow> u64 \<Rightarrow> nat set" where
  "word_marks i w = {p. p div 64 = i \<and> bit w (63 - p mod 64)}"

lemma finite_rmarks [simp]: "finite (rmarks segs)"
proof (rule finite_subset)
  show "rmarks segs \<subseteq> {..<64 * length segs}" by (auto simp: rmarks_def)
qed simp

lemma rmarks_replicate_0 [simp]: "rmarks (replicate n 0) = {}"
  by (simp add: rmarks_def)

lemma count_ones_card: "count_ones w = card {k. k < 64 \<and> bit w k}"
proof -
  have "count_ones w = card (set (filter (bit w) [0..<64]))"
    by (simp add: count_ones_def distinct_card del: set_filter)
  also have "set (filter (bit w) [0..<64]) = {k. k < 64 \<and> bit w k}" by auto
  finally show ?thesis .
qed

lemma card_word_marks: "finite (word_marks i w) \<and> card (word_marks i w) = count_ones w"
proof -
  have "bij_betw (\<lambda>k. i * 64 + (63 - k)) {k. k < 64 \<and> bit w k} (word_marks i w)"
    unfolding bij_betw_def
  proof
    show "inj_on (\<lambda>k. i * 64 + (63 - k)) {k. k < 64 \<and> bit w k}" by (auto simp: inj_on_def)
    show "(\<lambda>k. i * 64 + (63 - k)) ` {k. k < 64 \<and> bit w k} = word_marks i w"
    proof (intro set_eqI iffI)
      fix p assume "p \<in> word_marks i w"
      then have "p div 64 = i" "bit w (63 - p mod 64)" by (auto simp: word_marks_def)
      then have "p = i * 64 + (63 - (63 - p mod 64))" using div_mult_mod_eq [of p 64] by (simp add: less_Suc_eq_le)
      then show "p \<in> (\<lambda>k. i * 64 + (63 - k)) ` {k. k < 64 \<and> bit w k}"
        using \<open>bit w (63 - p mod 64)\<close> by (intro image_eqI [of _ _ "63 - p mod 64"]) auto
    next
      fix p assume "p \<in> (\<lambda>k. i * 64 + (63 - k)) ` {k. k < 64 \<and> bit w k}"
      then obtain k where k: "p = i * 64 + (63 - k)" "k < 64" "bit w k" by blast
      have "(i * 64 + q) div 64 = i \<and> (i * 64 + q) mod 64 = q" if "q < 64" for q using that by simp
      from this [of "63 - k"] have "p div 64 = i" "63 - p mod 64 = k" unfolding k(1) using k(2) by simp_all
      then show "p \<in> word_marks i w" using k(3) by (simp add: word_marks_def)
    qed
  qed
  from bij_betw_same_card [OF this] bij_betw_finite [OF this] show ?thesis by (simp add: count_ones_card)
qed

lemma check_overlap_marks:
  assumes "i < length segs"
  shows "\<exists>segs' n. check_overlap segs i w = Some (segs', n) \<and> length segs' = length segs \<and>
    rmarks segs' = rmarks segs \<union> word_marks i w \<and> card (rmarks segs') = card (rmarks segs) + n"
proof -
  let ?segs = "segs[i := segs ! i OR w]" and ?new = "word_marks i (NOT (segs ! i) AND w)"
  have "rmarks ?segs = rmarks segs \<union> ?new" "rmarks segs \<inter> ?new = {}"
    using assms by (auto simp: rmarks_def word_marks_def nth_list_update bit_or_iff bit_and_iff bit_not_iff)
  moreover have "rmarks ?segs = rmarks segs \<union> word_marks i w"
    using assms by (auto simp: rmarks_def word_marks_def nth_list_update bit_or_iff)
  moreover have "card (rmarks segs \<union> ?new) = card (rmarks segs) + count_ones (NOT (segs ! i) AND w)"
    using card_Un_disjoint [OF finite_rmarks _ calculation(2)] card_word_marks by simp
  ultimately show ?thesis using assms by (simp add: check_overlap_def get_idx_def set_idx_def)
qed

lemma word_marks_full: "word_marks i (- 1) = {p. p div 64 = i}"
  by (auto simp: word_marks_def)

lemma check_words_marks:
  assumes "\<forall>i\<in>set is. i < length segs"
  shows "\<exists>segs' n. check_words segs is = Some (segs', n) \<and> length segs' = length segs \<and>
    rmarks segs' = rmarks segs \<union> {p. p div 64 \<in> set is} \<and> card (rmarks segs') = card (rmarks segs) + n"
  using assms
proof (induction "is" arbitrary: segs)
  case (Cons i "is")
  obtain s1 n1 where 1: "check_overlap segs i (- 1) = Some (s1, n1)" "length s1 = length segs"
    "rmarks s1 = rmarks segs \<union> {p. p div 64 = i}" "card (rmarks s1) = card (rmarks segs) + n1"
    using check_overlap_marks [of i segs "- 1"] Cons.prems by (auto simp: word_marks_full)
  obtain s2 n2 where 2: "check_words s1 is = Some (s2, n2)" "length s2 = length s1"
    "rmarks s2 = rmarks s1 \<union> {p. p div 64 \<in> set is}" "card (rmarks s2) = card (rmarks s1) + n2"
    using Cons.IH [of s1] Cons.prems 1(2) by auto
  show ?case using 1 2 by auto
qed simp

lemma first_mask: "r < 64 \<Longrightarrow> word_marks i (drop_bit r (- 1)) = {p. p div 64 = i \<and> r \<le> p mod 64}"
  using mod_less_divisor [of 64] by (fastforce simp: word_marks_def bit_mask_iff)

lemma last_mask: "e < 64 \<Longrightarrow> word_marks i (push_bit (64 - e - 1) (- 1)) = {p. p div 64 = i \<and> p mod 64 \<le> e}"
  using mod_less_divisor [of 64] by (fastforce simp: word_marks_def bit_mask_iff bit_not_iff)

lemma word_marks_and: "word_marks i (v AND w) = word_marks i v \<inter> word_marks i w"
  by (auto simp: word_marks_def bit_and_iff)

text \<open>
  The bytes of a segment that its bits account for: when it reaches over more than two words, the
  word before the last one is left out.
\<close>

definition seg_marks :: "nat \<Rightarrow> nat \<Rightarrow> nat set" where
  "seg_marks off n = {p \<in> {off..<off + n}. \<not> (off div 64 < p div 64 \<and> p div 64 + 1 = (off + n - 1) div 64)}"

lemma seg_marks_short: "(off + n - 1) div 64 \<le> off div 64 + 1 \<Longrightarrow> seg_marks off n = {off..<off + n}"
  by (auto simp: seg_marks_def)

lemma in_segment_iff:
  fixes off n p :: nat
  assumes "0 < n"
  shows "p \<in> {off..<off + n} \<longleftrightarrow>
    (off div 64 < p div 64 \<or> off div 64 = p div 64 \<and> off mod 64 \<le> p mod 64) \<and>
    (p div 64 < (off + n - 1) div 64 \<or> p div 64 = (off + n - 1) div 64 \<and> p mod 64 \<le> (off + n - 1) mod 64)"
proof -
  have le: "a \<le> b \<longleftrightarrow> a div 64 < b div 64 \<or> a div 64 = b div 64 \<and> a mod 64 \<le> b mod 64" for a b :: nat
  proof -
    have "A * 64 + x \<le> B * 64 + y \<longleftrightarrow> A < B \<or> A = B \<and> x \<le> y" if "x < 64" "y < 64" for A B x y :: nat
      using that by (cases A B rule: linorder_cases) auto
    from this [of "a mod 64" "b mod 64" "a div 64" "b div 64"] show ?thesis by simp
  qed
  have "p \<in> {off..<off + n} \<longleftrightarrow> off \<le> p \<and> p \<le> off + n - 1" using assms by auto
  then show ?thesis using le [of off p] le [of p "off + n - 1"] by blast
qed

text \<open>The positions of a segment, by word and position in the word.\<close>

lemma one_word:
  fixes w :: nat
  assumes "first = final"
  shows "(w = first \<and> a \<le> r) \<and> (w = first \<and> r \<le> z) \<longleftrightarrow>
    ((first < w \<or> first = w \<and> a \<le> r) \<and> (w < final \<or> w = final \<and> r \<le> z)) \<and> \<not> (first < w \<and> w + 1 = final)"
  using assms by auto

lemma more_words:
  fixes w :: nat
  assumes "first \<le> final" and "first \<noteq> final"
  shows "((first < w \<or> first = w \<and> a \<le> r) \<and> (w < final \<or> w = final \<and> r \<le> z)) \<and> \<not> (first < w \<and> w + 1 = final) \<longleftrightarrow>
    (w = first \<and> a \<le> r \<or> first + 1 \<le> w \<and> w < final - 1) \<or> w = final \<and> r \<le> z"
  using assms by auto

lemma seg_marks_words:
  fixes off n :: nat
  assumes n: "0 < n"
  defines "e \<equiv> off + n - 1"
  shows "off div 64 = e div 64 \<Longrightarrow>
      word_marks (off div 64) (drop_bit (off mod 64) (- 1) AND push_bit (64 - e mod 64 - 1) (- 1)) = seg_marks off n"
    and "off div 64 \<noteq> e div 64 \<Longrightarrow> seg_marks off n = word_marks (off div 64) (drop_bit (off mod 64) (- 1)) \<union>
      {p. p div 64 \<in> set [off div 64 + 1..<e div 64 - 1]} \<union> word_marks (e div 64) (push_bit (64 - e mod 64 - 1) (- 1))"
proof -
  have off: "off div 64 \<le> e div 64" using n div_le_mono [of off e 64] by (simp add: e_def)
  note iff = in_segment_iff [OF n, of _ off, folded e_def]
  have "off mod 64 < 64" "e mod 64 < 64" by simp_all
  note masks = first_mask [OF this(1)] last_mask [OF this(2)]
  show "word_marks (off div 64) (drop_bit (off mod 64) (- 1) AND push_bit (64 - e mod 64 - 1) (- 1)) = seg_marks off n"
    if one: "off div 64 = e div 64"
    by (rule set_eqI, unfold word_marks_and masks seg_marks_def e_def [symmetric] mem_Collect_eq Int_iff iff) (rule one_word [OF one])
  show "seg_marks off n = word_marks (off div 64) (drop_bit (off mod 64) (- 1)) \<union>
      {p. p div 64 \<in> set [off div 64 + 1..<e div 64 - 1]} \<union> word_marks (e div 64) (push_bit (64 - e mod 64 - 1) (- 1))"
    if more: "off div 64 \<noteq> e div 64"
    by (rule set_eqI, unfold masks seg_marks_def e_def [symmetric] mem_Collect_eq Un_iff iff, unfold set_upt atLeastLessThan_iff)
       (rule more_words [OF off more])
qed

lemma seg_words_marks:
  assumes n: "0 < n" and len: "off + n \<le> 64 * length segs"
  defines "e \<equiv> off + n - 1"
  shows "\<exists>segs' k. (if off div 64 = e div 64
      then check_overlap segs (off div 64) (drop_bit (off mod 64) (- 1) AND push_bit (64 - e mod 64 - 1) (- 1))
      else do {
        (segs, n1) \<leftarrow> check_overlap segs (off div 64) (drop_bit (off mod 64) (- 1));
        (segs, n2) \<leftarrow> check_words segs [off div 64 + 1..<e div 64 - 1];
        (segs, n3) \<leftarrow> check_overlap segs (e div 64) (push_bit (64 - e mod 64 - 1) (- 1));
        Some (segs, n1 + n2 + n3)
      }) = Some (segs', k) \<and> length segs' = length segs \<and>
    rmarks segs' = rmarks segs \<union> seg_marks off n \<and> card (rmarks segs') = card (rmarks segs) + k"
proof -
  have e: "off \<le> e" "e div 64 < length segs" using n len by (auto simp: e_def)
  then have off: "off div 64 \<le> e div 64" "off div 64 < length segs" using div_le_mono [of off e 64] by auto
  note marks = seg_marks_words [OF n, of off, folded e_def]
  show ?thesis
  proof (cases "off div 64 = e div 64")
    case True
    show ?thesis
      using marks(1) [OF True] check_overlap_marks [OF off(2), of "drop_bit (off mod 64) (- 1) AND push_bit (64 - e mod 64 - 1) (- 1)"] True
      unfolding if_P [OF True] by metis
  next
    case False
    obtain s1 n1 where 1: "check_overlap segs (off div 64) (drop_bit (off mod 64) (- 1)) = Some (s1, n1)" "length s1 = length segs"
      "rmarks s1 = rmarks segs \<union> word_marks (off div 64) (drop_bit (off mod 64) (- 1))" "card (rmarks s1) = card (rmarks segs) + n1"
      using check_overlap_marks [OF off(2)] by blast
    obtain s2 n2 where 2: "check_words s1 [off div 64 + 1..<e div 64 - 1] = Some (s2, n2)" "length s2 = length s1"
      "rmarks s2 = rmarks s1 \<union> {p. p div 64 \<in> set [off div 64 + 1..<e div 64 - 1]}" "card (rmarks s2) = card (rmarks s1) + n2"
    proof -
      have "\<forall>i\<in>set [off div 64 + 1..<e div 64 - 1]. i < length s1" using e(2) 1(2) by auto
      from check_words_marks [OF this] show ?thesis using that by blast
    qed
    obtain s3 n3 where 3: "check_overlap s2 (e div 64) (push_bit (64 - e mod 64 - 1) (- 1)) = Some (s3, n3)" "length s3 = length s2"
      "rmarks s3 = rmarks s2 \<union> word_marks (e div 64) (push_bit (64 - e mod 64 - 1) (- 1))" "card (rmarks s3) = card (rmarks s2) + n3"
    proof -
      have "e div 64 < length s2" using e(2) 1(2) 2(2) by simp
      from check_overlap_marks [OF this] show ?thesis using that by blast
    qed
    have "rmarks s3 = rmarks segs \<union> seg_marks off n" using 1(3) 2(3) 3(3) marks(2) [OF False] by (simp add: Un_assoc)
    then show ?thesis using 1 2 3 False by simp
  qed
qed

text \<open>One segment of a document in ordinary memory.\<close>

text \<open>A segment is marked and counted the same way in every kind of memory.\<close>

lemma recv_doc_seg_stored:
  assumes n: "0 < length data" and fit: "off + length data \<le> doc_mem_len (rd_mem doc)" "doc_mem_len (rd_mem doc) < usize_bound"
    and words: "off + length data \<le> 64 * length (rd_set_segs doc)" and wr: "doc_mem_write (rd_mem doc) off data h = Some (m, h')"
  obtains segs k where "recv_doc_seg doc off data h =
      Some (doc\<lparr> rd_set_segs := segs, rd_total_recv := rd_total_recv doc + k, rd_mem := m \<rparr>, h',
        Inr (rd_total_recv doc + k = doc_mem_len (rd_mem doc)))"
    and "length segs = length (rd_set_segs doc)" and "rmarks segs = rmarks (rd_set_segs doc) \<union> seg_marks off (length data)"
    and "card (rmarks segs) = card (rmarks (rd_set_segs doc)) + k"
proof -
  from seg_words_marks [OF n words] obtain segs k where
    w: "(if off div 64 = (off + length data - 1) div 64
      then check_overlap (rd_set_segs doc) (off div 64)
        (drop_bit (off mod 64) (- 1) AND push_bit (64 - (off + length data - 1) mod 64 - 1) (- 1))
      else do {
        (segs, n1) \<leftarrow> check_overlap (rd_set_segs doc) (off div 64) (drop_bit (off mod 64) (- 1));
        (segs, n2) \<leftarrow> check_words segs [off div 64 + 1..<(off + length data - 1) div 64 - 1];
        (segs, n3) \<leftarrow> check_overlap segs ((off + length data - 1) div 64) (push_bit (64 - (off + length data - 1) mod 64 - 1) (- 1));
        Some (segs, n1 + n2 + n3)
      }) = Some (segs, k)" "length segs = length (rd_set_segs doc)"
      "rmarks segs = rmarks (rd_set_segs doc) \<union> seg_marks off (length data)"
      "card (rmarks segs) = card (rmarks (rd_set_segs doc)) + k" by blast
  have ne: "data \<noteq> []" "\<not> off + length data - 1 \<ge> doc_mem_len (rd_mem doc)" using n fit(1) by (simp, linarith)
  have ca: "checked_add off (length data) = Some (off + length data)" using fit by (simp add: checked_add_def)
  have "recv_doc_seg doc off data h =
      Some (doc\<lparr> rd_set_segs := segs, rd_total_recv := rd_total_recv doc + k, rd_mem := m \<rparr>, h',
        Inr (rd_total_recv doc + k = doc_mem_len (rd_mem doc)))"
    unfolding recv_doc_seg_def Let_def ca bind.simps w(1) prod.case wr using ne by simp
  then show thesis using that w(2-4) by blast
qed

lemma recv_doc_seg_marks:
  assumes mem: "rd_mem doc = Simple b" and n: "0 < length data" and fit: "off + length data \<le> length b"
    and words: "length b \<le> 64 * length (rd_set_segs doc)" and bound: "length b < usize_bound"
    and total: "rd_total_recv doc = card (rmarks (rd_set_segs doc))"
  shows "\<exists>doc'. recv_doc_seg doc off data h = Some (doc', h, Inr (rd_total_recv doc' = length b)) \<and>
    rd_mem doc' = Simple (take off b @ data @ drop (off + length data) b) \<and>
    length (rd_set_segs doc') = length (rd_set_segs doc) \<and>
    rmarks (rd_set_segs doc') = rmarks (rd_set_segs doc) \<union> seg_marks off (length data) \<and>
    rd_total_recv doc' = card (rmarks (rd_set_segs doc')) \<and>
    rd_parent_no doc' = rd_parent_no doc \<and> rd_has_special_parent doc' = rd_has_special_parent doc"
proof -
  have len: "doc_mem_len (rd_mem doc) = length b" by (simp add: doc_mem_len_def mem)
  have wr: "doc_mem_write (rd_mem doc) off data h = Some (Simple (take off b @ data @ drop (off + length data) b), h)"
    using fit by (simp add: doc_mem_write_def copy_range_def mem)
  have le: "off + length data \<le> doc_mem_len (rd_mem doc)" "doc_mem_len (rd_mem doc) < usize_bound" "off + length data \<le> 64 * length (rd_set_segs doc)"
    using fit bound words len by simp_all
  from recv_doc_seg_stored [OF n le wr] obtain segs k where
    s: "recv_doc_seg doc off data h = Some (doc\<lparr> rd_set_segs := segs, rd_total_recv := rd_total_recv doc + k,
        rd_mem := Simple (take off b @ data @ drop (off + length data) b) \<rparr>, h, Inr (rd_total_recv doc + k = length b))"
      "length segs = length (rd_set_segs doc)" "rmarks segs = rmarks (rd_set_segs doc) \<union> seg_marks off (length data)"
      "card (rmarks segs) = card (rmarks (rd_set_segs doc)) + k"
    unfolding len by blast
  let ?doc = "doc\<lparr> rd_set_segs := segs, rd_total_recv := rd_total_recv doc + k,
      rd_mem := Simple (take off b @ data @ drop (off + length data) b) \<rparr>"
  show ?thesis using s total by (intro exI [of _ ?doc]) simp
qed

section \<open>Reassembly of a document\<close>

text \<open>The document holds the bytes \<open>got\<close> of a message, in ordinary memory.\<close>

definition rdoc_holds :: "recv_doc \<Rightarrow> bytes \<Rightarrow> nat set \<Rightarrow> bool" where
  "rdoc_holds d msg got \<longleftrightarrow> length msg < usize_bound \<and> length msg \<le> 64 * length (rd_set_segs d) \<and>
     got \<subseteq> {..<length msg} \<and> rmarks (rd_set_segs d) = got \<and> rd_total_recv d = card got \<and>
     (\<exists>b. rd_mem d = Simple b \<and> length b = length msg \<and> (\<forall>k\<in>got. b ! k = msg ! k))"

text \<open>One call of \<open>recv_doc\<close>; the result is the content of a completed document.\<close>

definition rdoc_step :: "recv_doc \<Rightarrow> nat \<Rightarrow> bytes \<Rightarrow> (recv_doc \<times> bytes option) option" where
  "rdoc_step d off data =
     (case recv_doc_seg d off data (\<lambda>_. 0) of
        Some (d', _, Inr complete) \<Rightarrow>
          Some (d', if complete then (case rd_mem d' of Simple b \<Rightarrow> Some b | _ \<Rightarrow> None) else None)
      | _ \<Rightarrow> None)"

text \<open>A segment in one word of the bit set or in two neighbouring ones.\<close>

definition two_words :: "nat set \<Rightarrow> nat \<Rightarrow> nat \<Rightarrow> bool" where
  "two_words got off n \<longleftrightarrow> (off + n - 1) div 64 \<le> off div 64 + 1"

lemma written_bytes:
  assumes "off + n \<le> length msg" and "length b = length msg" and "\<forall>k\<in>got. b ! k = msg ! k"
    and "k \<in> got \<union> {off..<off + n}" and "k < length msg"
  shows "(take off b @ take n (drop off msg) @ drop (off + n) b) ! k = msg ! k"
  using assms by (auto simp: nth_append min_def)

text \<open>One segment, whether all of it is accounted for or not.\<close>

lemma recv_doc_seg_holds:
  assumes h: "rdoc_holds d msg got" and n: "0 < n" and fit: "off + n \<le> length msg"
  shows "\<exists>d'. recv_doc_seg d off (take n (drop off msg)) hp =
      Some (d', hp, Inr (got \<union> seg_marks off n = {..<length msg})) \<and> rdoc_holds d' msg (got \<union> seg_marks off n) \<and>
    rd_parent_no d' = rd_parent_no d \<and> rd_has_special_parent d' = rd_has_special_parent d"
proof -
  obtain b where b: "rd_mem d = Simple b" "length b = length msg" "\<forall>k\<in>got. b ! k = msg ! k"
    using h by (auto simp: rdoc_holds_def)
  let ?data = "take n (drop off msg)" and ?got = "got \<union> seg_marks off n"
  have l: "length ?data = n" using fit by simp
  have sub: "?got \<subseteq> {..<length msg}" using h fit by (auto simp: rdoc_holds_def seg_marks_def)
  obtain d' where d': "recv_doc_seg d off ?data hp = Some (d', hp, Inr (rd_total_recv d' = length b))"
    "rd_mem d' = Simple (take off b @ ?data @ drop (off + n) b)" "length (rd_set_segs d') = length (rd_set_segs d)"
    "rmarks (rd_set_segs d') = ?got" "rd_total_recv d' = card ?got"
    "rd_parent_no d' = rd_parent_no d" "rd_has_special_parent d' = rd_has_special_parent d"
    using recv_doc_seg_marks [OF b(1), of ?data off hp] h n fit b(2) unfolding l by (auto simp: rdoc_holds_def)
  have "(take off b @ ?data @ drop (off + n) b) ! k = msg ! k" if "k \<in> ?got" for k
  proof (rule written_bytes [OF fit b(2,3)])
    show "k \<in> got \<union> {off..<off + n}" using that by (auto simp: seg_marks_def)
    show "k < length msg" using that sub by auto
  qed
  then have hold: "rdoc_holds d' msg ?got"
    using h d' sub b(2) fit by (auto simp: rdoc_holds_def)
  have "card ?got = length msg \<longleftrightarrow> ?got = {..<length msg}"
    using sub card_subset_eq [of "{..<length msg}" ?got] by auto
  then show ?thesis using hold d' b(2) by (intro exI [of _ d']) simp
qed

lemma rdoc_step_marks:
  assumes "rdoc_holds d msg got" and "0 < n" and "off + n \<le> length msg"
  shows "\<exists>d'. rdoc_holds d' msg (got \<union> seg_marks off n) \<and>
     (\<exists>b. rd_mem d' = Simple b \<and> rdoc_step d off (take n (drop off msg)) =
        Some (d', if got \<union> seg_marks off n = {..<length msg} then Some b else None))"
  using recv_doc_seg_holds [OF assms, of "\<lambda>_. 0"] by (auto simp: rdoc_step_def rdoc_holds_def)

text \<open>The memory of a complete document is the message.\<close>

lemma rdoc_complete: "rdoc_holds d msg {..<length msg} \<Longrightarrow> rd_mem d = Simple msg"
  by (auto simp: rdoc_holds_def intro!: nth_equalityI)

interpretation rdoc: reassembler rdoc_step "\<lambda>msg m. m = msg" rdoc_holds two_words
proof unfold_locales
  fix s msg got
  assume h: "rdoc_holds s msg got"
  then show "got \<subseteq> {..<length msg}" by (simp add: rdoc_holds_def)
  fix n off :: nat
  assume n: "0 < n" "off + n \<le> length msg" and two: "two_words got off n"
  have marks: "seg_marks off n = {off..<off + n}" using two by (simp add: two_words_def seg_marks_short)
  obtain d' b where d': "rdoc_holds d' msg (got \<union> {off..<off + n})" "rd_mem d' = Simple b"
    "rdoc_step s off (take n (drop off msg)) =
       Some (d', if got \<union> {off..<off + n} = {..<length msg} then Some b else None)"
    using rdoc_step_marks [OF h n] unfolding marks by blast
  have "b = msg" if "got \<union> {off..<off + n} = {..<length msg}"
    using d'(1,2) unfolding that by (auto simp: rdoc_holds_def intro: nth_equalityI)
  then show "\<exists>s' r. rdoc_step s off (take n (drop off msg)) = Some (s', r) \<and>
        (if got \<union> {off..<off + n} = {..<length msg} then \<exists>m. r = Some m \<and> m = msg
         else r = None \<and> rdoc_holds s' msg (got \<union> {off..<off + n}))"
    using d' by auto
qed

text \<open>A segment for the examples: the first one of document 8, with parent 3.\<close>

definition sample_parsed :: "bytes \<Rightarrow> parsed_seg" where
  "sample_parsed data = \<lparr> ps_special = False, ps_is_closed = False, ps_doc_no = 8, ps_doc_len = Some (length data),
     ps_parent_no = Some 3, ps_seg_off = 0, ps_seg = data \<rparr>"

lemma new_doc_holds: "length msg < usize_bound \<Longrightarrow> rdoc_holds (new_doc p (length msg) None) msg {}"
  by (simp add: rdoc_holds_def new_doc_def)

section \<open>Properties of a document\<close>

text \<open>
  C5. Segments of a document that each lie in one word of the bit set or in two neighbouring ones, in
  any order, with duplicates and overlaps: \<open>recv_doc\<close> never panics, reports the document as complete
  exactly when they cover it, and then the memory of the document is the message.
\<close>

theorem recv_doc_reassembles:
  assumes "length msg < usize_bound" and "msg \<noteq> []" and "\<forall>x\<in>set xs. 0 < snd x \<and> fst x + snd x \<le> length msg"
    and "\<forall>x\<in>set xs. (fst x + snd x - 1) div 64 \<le> fst x div 64 + 1"
  shows "\<exists>d'. deliver rdoc_step msg (new_doc p (length msg) None) xs =
    Some (d', if covered xs = {..<length msg} then Some msg else None)"
proof -
  have acc: "all_accepted two_words got xs" for got
    using assms(4) by (induction xs arbitrary: got) (auto simp: two_words_def)
  note new = new_doc_holds [OF assms(1), of p]
  show ?thesis
    using rdoc.deliver_all [OF new _ assms(3) acc] rdoc.deliver_partial [OF new assms(3) acc] assms(2)
    by auto
qed

theorem recv_doc_reassembles_witness:
  "\<exists>d'. deliver rdoc_step (replicate 100 7) (new_doc (sample_parsed []) 100 None) [(60, 40), (0, 30), (20, 50)] =
    Some (d', Some (replicate 100 7))"
proof -
  have "covered [(60, 40), (0, 30), (20, 50)] = {..<100::nat}" by auto
  then show ?thesis
    using recv_doc_reassembles [of "replicate 100 7" "[(60, 40), (0, 30), (20, 50)]" "sample_parsed []"]
    by (simp add: usize_bound_def)
qed

text \<open>
  C36. A document of more than 128 bytes that arrives as one segment is never complete, however often
  the segment is sent: the loop over the words between the first and the last one stops one word
  early, and the 64 bytes of that word are not counted although they are written.
\<close>

theorem long_segment_never_completes:
  assumes "128 < length msg" and "length msg < usize_bound"
  shows "\<exists>d'. deliver rdoc_step msg (new_doc p (length msg) None) (replicate k (0, length msg)) = Some (d', None)"
proof -
  let ?n = "length msg"
  let ?skip = "((?n - 1) div 64 - 1) * 64"
  have two: "2 \<le> (?n - 1) div 64" using assms(1) by simp
  have "?skip \<le> ?n - 1" using times_div_less_eq_dividend [of 64 "?n - 1"] by (simp add: diff_mult_distrib)
  moreover have "?n - 1 < ?n" using assms(1) by simp
  ultimately have "?skip < ?n" by (rule le_less_trans)
  moreover have "?skip div 64 = (?n - 1) div 64 - 1" by (rule nonzero_mult_div_cancel_right) simp
  moreover have "0 < (?n - 1) div 64 - 1" "(?n - 1) div 64 - 1 + 1 = (?n - 1) div 64" using two by simp_all
  ultimately have skip: "?skip \<in> {..<?n} - seg_marks 0 ?n" unfolding seg_marks_def by simp
  have "\<exists>d'. deliver rdoc_step msg d (replicate k (0, ?n)) = Some (d', None)"
    if "rdoc_holds d msg got" "got \<subseteq> seg_marks 0 ?n" for d got
    using that
  proof (induction k arbitrary: d got)
    case (Suc k)
    have ne: "got \<union> seg_marks 0 ?n \<noteq> {..<?n}" using Suc.prems(2) skip by auto
    obtain d' where d': "rdoc_holds d' msg (got \<union> seg_marks 0 ?n)" "rdoc_step d 0 (take ?n (drop 0 msg)) = Some (d', None)"
    proof -
      have "0 < ?n" "0 + ?n \<le> ?n" using assms(1) by auto
      from rdoc_step_marks [OF Suc.prems(1) this] show ?thesis using that unfolding if_not_P [OF ne] by blast
    qed
    show ?case using Suc.IH [OF d'(1)] Suc.prems(2) d'(2) by simp
  qed simp
  from this [OF new_doc_holds [OF assms(2)]] show ?thesis by simp
qed

theorem long_segment_never_completes_witness:
  "\<exists>d'. deliver rdoc_step (replicate 200 7) (new_doc (sample_parsed []) 200 None) [(0, 200), (0, 200)] = Some (d', None)"
proof -
  have "replicate 2 (0 :: nat, 200 :: nat) = [(0, 200), (0, 200)]" by (simp add: numeral_2_eq_2)
  then show ?thesis using long_segment_never_completes [of "replicate 200 7" "sample_parsed []" 2] by (simp add: usize_bound_def)
qed

end
