(* ===== verification/Recv_Tables.thy ===== *)
theory Recv_Tables
  imports Recv_Correct
begin

text \<open>
  What receiving does to the tables of a session: slots are reused only when they are free, finished
  documents find their parents, and the ways in which a slot is lost for good.
\<close>

section \<open>Document numbers of the receive table\<close>

text \<open>The numbers in the slots of the receive table.\<close>

definition slot_nos :: "session \<Rightarrow> u64 list" where
  "slot_nos s = map rs_doc_no (recv_table s)"

lemma slot_nos_set [simp]:
  "i < length (recv_table s) \<Longrightarrow> slot_nos (set_recv_slot i e s) = (slot_nos s)[i := rs_doc_no e]"
  by (simp add: slot_nos_def map_update)

lemma slot_nos_other [simp]:
  "slot_nos (wake_all ws s) = slot_nos s" "slot_nos (drop_doc_state d s) = slot_nos s"
  "slot_nos (schedule_send_control v n s) = slot_nos s" "slot_nos (set_send_slot j e s) = slot_nos s"
  "slot_nos (wake_opt w s) = slot_nos s" "slot_nos (reply_wake r s) = slot_nos s" "slot_nos (drop_flushers ws s) = slot_nos s"
  "slot_nos (abandon s) = slot_nos s" "slot_nos (s\<lparr> heap := h \<rparr>) = slot_nos s" "slot_nos (s\<lparr> recv_bytes_total := b \<rparr>) = slot_nos s"
  "slot_nos (s\<lparr> send_table := t \<rparr>) = slot_nos s"
  by (simp_all add: slot_nos_def wake_opt_def reply_wake_def drop_flushers_def abandon_def
      split: option.splits special_reply_state.splits)

lemma slot_nos_same [simp]:
  "i < length (recv_table s) \<Longrightarrow> (slot_nos s)[i := rs_doc_no (recv_table s ! i)] = slot_nos s"
  by (simp add: slot_nos_def list_update_same_conv)

lemma length_recv_table: "slot_nos s' = slot_nos s \<Longrightarrow> length (recv_table s') = length (recv_table s)"
  by (metis length_map slot_nos_def)

lemma drop_one_nos:
  assumes "drop_one n k s = Some (s', docs)"
  shows "slot_nos s' = slot_nos s"
proof -
  have [simp]: "slot_idx n (recv_table s) = Some i \<Longrightarrow> i < length (recv_table s)" for i by (rule slot_idx_less)
  show ?thesis
    using assms by (auto simp: drop_one_def Let_def split: option.splits if_splits)
qed

lemma drop_loop_nos: "drop_loop stack s = Some s' \<Longrightarrow> slot_nos s' = slot_nos s"
  by (induction stack s rule: drop_loop.induct) (auto dest: drop_one_nos split: option.splits)

lemma drop_unfinished_nos: "drop_unfinished_recv_doc n k s = Some s' \<Longrightarrow> slot_nos s' = slot_nos s"
  unfolding drop_unfinished_recv_doc_def by (rule drop_loop_nos)

lemma drop_docs_nos: "drop_unfinished_docs ds s = Some s' \<Longrightarrow> slot_nos s' = slot_nos s"
  by (induction ds arbitrary: s) (auto dest: drop_unfinished_nos split: bind_splits)

lemma drop_closed_channel_nos: "drop_closed_channel ch s = Some s' \<Longrightarrow> slot_nos s' = slot_nos s"
  by (auto simp: drop_closed_channel_def dest: drop_docs_nos split: option.splits bind_splits)

lemma update_channel_nos:
  assumes "update_channel n f s = Some (s', r)"
  shows "slot_nos s' = slot_nos s"
proof -
  have [simp]: "slot_idx n (recv_table s) = Some i \<Longrightarrow> i < length (recv_table s)" for i by (rule slot_idx_less)
  have upd: "i < length (recv_table s) \<Longrightarrow>
      slot_nos (s\<lparr> recv_table := (recv_table s)[i := (recv_table s ! i)\<lparr> rs_channel := c \<rparr>] \<rparr>) = slot_nos s" for i c
    by (simp add: slot_nos_def map_update list_update_same_conv)
  show ?thesis
    using assms by (auto simp: update_channel_def Let_def upd split: option.splits if_splits prod.splits)
qed

lemma fin_to_parent_nos:
  assumes "fin_to_parent n d p c s = Some (s', r)"
  shows "slot_nos s' = slot_nos s"
proof -
  have [simp]: "slot_idx p (recv_table s) = Some i \<Longrightarrow> i < length (recv_table s)" for i by (rule slot_idx_less)
  show ?thesis
    using assms
    by (auto simp: fin_to_parent_def Let_def dest: drop_unfinished_nos
        split: option.splits if_split_asm bind_splits doc_mem.splits)
qed

lemma fin_doc_nos:
  assumes "fin_doc n i s = Some (s', r)" and "i < length (recv_table s)"
  shows "slot_nos s' = slot_nos s"
  using assms
  by (auto simp: fin_doc_def Let_def dest!: fin_to_parent_nos split: option.splits recv_doc_state.splits)

lemma update_doc_nos:
  assumes "update_doc p i s = Some (s', r)" and "i < length (recv_table s)"
  shows "slot_nos s' = slot_nos s"
  using assms
  by (auto simp: update_doc_def Let_def dest!: fin_doc_nos drop_closed_channel_nos
      split: recv_doc_state.splits bind_splits sum.splits bool.splits if_splits)

lemma reserve_slot_nos:
  "i < length (recv_table s) \<Longrightarrow> slot_nos (reserve_slot p i s) = (slot_nos s)[i := ps_doc_no p]"
  by (simp add: reserve_slot_def Let_def)

lemma reply_mem_nos: "reply_mem p s = Some (s', m) \<Longrightarrow> slot_nos s' = slot_nos s"
  by (auto simp: reply_mem_def dest: update_channel_nos split: option.splits bind_splits)

lemma first_seg_nos:
  assumes "first_seg p i d s = Some (s', r)" and "i < length (recv_table s)"
  shows "slot_nos s' = slot_nos s"
  using assms
  by (auto simp: first_seg_def Let_def dest!: fin_doc_nos split: if_splits bind_splits sum.splits bool.splits)

lemma create_doc_nos:
  assumes "create_doc p i s = Some (s', r)" and i: "i < length (recv_table s)"
  shows "slot_nos s' = slot_nos s \<or> slot_nos s' = (slot_nos s)[i := ps_doc_no p] \<and> slot_is_fin (rs_doc (recv_table s ! i))"
proof (cases "slot_nos s' = slot_nos s")
  case False
  then obtain total s1 m d s2 fl orphans s3 ch where fin: "slot_is_fin (rs_doc (recv_table s ! i))"
    and 1: "reply_mem p (reserve_slot p i (s\<lparr> recv_bytes_total := total \<rparr>)) = Some (s1, m)"
    and 2: "first_seg p i d s1 = Some (s2, r)"
    and 3: "drop_unfinished_docs orphans (drop_flushers fl s2) = Some s3"
    and 4: "drop_closed_channel ch s3 = Some s'"
    using assms(1)
    by (auto simp: create_doc_def Let_def simp del: drop_unfinished_docs.simps split: option.splits if_split_asm bind_splits)
  have nos: "slot_nos s1 = (slot_nos s)[i := ps_doc_no p]"
    using reply_mem_nos [OF 1] reserve_slot_nos [of i "s\<lparr> recv_bytes_total := total \<rparr>" p] i by simp
  then have "i < length (recv_table s1)" using i by (metis length_list_update length_map slot_nos_def)
  then have "slot_nos s' = (slot_nos s)[i := ps_doc_no p]"
    using first_seg_nos [OF 2] drop_docs_nos [OF 3] drop_closed_channel_nos [OF 4] nos by simp
  then show ?thesis using fin by simp
qed simp

text \<open>Where a number may be written: into its own slot, over a smaller number of a free slot.\<close>

definition slot_taken :: "session \<Rightarrow> nat \<Rightarrow> u64 \<Rightarrow> bool" where
  "slot_taken s i n \<longleftrightarrow> rs_doc_no (recv_table s ! i) < n \<and> slot_is_fin (rs_doc (recv_table s ! i)) \<and>
     slot_idx n (recv_table s) = Some i \<and> \<not> is_sending s n"

lemma slot_taken_less: "slot_taken s i n \<Longrightarrow> slot_nos s ! i < n"
  by (auto simp: slot_taken_def slot_nos_def dest: slot_idx_less)

lemma recv_seg_nos:
  assumes "recv_seg v packet j s = Some (s', j', r)"
  shows "slot_nos s' = slot_nos s \<or> (\<exists>i n. slot_nos s' = (slot_nos s)[i := n] \<and> slot_taken s i n)"
proof (cases "slot_nos s' = slot_nos s")
  case False
  then obtain p i where p: "\<not> is_sending s (ps_doc_no p)" "slot_idx (ps_doc_no p) (recv_table s) = Some i"
    and step: "(if rs_doc_no (recv_table s ! i) = ps_doc_no p then update_doc p i s
      else if rs_doc_no (recv_table s ! i) < ps_doc_no p then create_doc p i s else Some (s, Inr ())) = Some (s', r)"
    using assms by (auto simp: recv_seg_def Let_def split: option.splits sum.splits if_split_asm bind_splits)
  note i = slot_idx_less [OF p(2)]
  show ?thesis
    using step False update_doc_nos [OF _ i, of p s' r] create_doc_nos [OF _ i, of p s' r] p
    by (auto simp: slot_taken_def split: if_splits)
qed simp

lemma nth_list_update': "k < length xs \<Longrightarrow> xs[i := x] ! k = (if i = k then x else xs ! k)"
  by (cases "i < length xs") (auto simp: nth_list_update)

lemma recv_packet_nos:
  "recv_packet packet j s = Some (s', j') \<Longrightarrow>
     length (slot_nos s') = length (slot_nos s) \<and> (\<forall>k < length (slot_nos s). slot_nos s ! k \<le> slot_nos s' ! k)"
proof (induction packet j s rule: recv_packet.induct)
  case (1 packet j s)
  have one: "length (slot_nos s1) = length (slot_nos s) \<and> (\<forall>k < length (slot_nos s). slot_nos s ! k \<le> slot_nos s1 ! k)"
    if "recv_seg v packet (j + 1) s = Some (s1, j1, r)" for v s1 j1 r
    using recv_seg_nos [OF that] by (auto simp: nth_list_update' dest!: slot_taken_less)
  show ?case
    using 1 one
    by (subst (asm) (3) recv_packet.simps)
       (fastforce simp: Let_def intro: order_trans split: if_split_asm option.splits sum.splits)
qed

section \<open>Properties of the tables\<close>

text \<open>A document of one segment is complete at once, unless the segment is too long.\<close>

lemma whole_doc:
  assumes "0 < length data" and "length data \<le> 128"
  shows "\<exists>d. recv_doc_seg (new_doc p (length data) None) 0 data h = Some (d, h, Inr True) \<and> rd_mem d = Simple data \<and>
    rd_parent_no d = ps_parent_no p \<and> rd_has_special_parent d = ps_special p"
proof -
  let ?n = "length data" and ?d = "new_doc p (length data) None"
  have marks: "seg_marks 0 ?n = {0..<?n}" using assms by (simp add: seg_marks_short)
  have "?n \<le> 64 * ((?n + 63) div 64)" by linarith
  then obtain d where d: "recv_doc_seg ?d 0 data h = Some (d, h, Inr (rd_total_recv d = ?n))"
    "rd_mem d = Simple data" "rmarks (rd_set_segs d) = {0..<?n}" "rd_total_recv d = card (rmarks (rd_set_segs d))"
    "rd_parent_no d = ps_parent_no p" "rd_has_special_parent d = ps_special p"
    using recv_doc_seg_marks [of ?d "replicate ?n 0" data 0 h] assms marks by (auto simp: new_doc_def usize_bound_def)
  then show ?thesis by auto
qed

lemma session_fields [simp]:
  "send_table (set_recv_slot i e s) = send_table s" "send_table (wake_all ws s) = send_table s"
  "send_table (set_send_slot k f s) = (send_table s)[k := f]" "woken (set_recv_slot i e s) = woken s"
  "woken (set_send_slot k f s) = woken s" "woken (wake_all ws s) = woken s @ rev ws"
  "recv_bytes_total (set_recv_slot i e s) = recv_bytes_total s" "recv_bytes_total (set_send_slot k f s) = recv_bytes_total s"
  "recv_bytes_total (wake_all ws s) = recv_bytes_total s" "is_sending (set_recv_slot i e s) = is_sending s"
  "is_sending (set_send_slot k f s) = is_sending s" "is_sending (s\<lparr> heap := h \<rparr>) = is_sending s"
  "is_sending (s\<lparr> recv_bytes_total := b \<rparr>) = is_sending s"
  by (simp_all add: set_recv_slot_def set_send_slot_def wake_all_def is_sending_def fun_eq_iff)

text \<open>A complete document goes to the open channel of its parent, one that this side sent.\<close>

lemma fin_doc_to_sender:
  assumes "i < length (recv_table s)" and "rs_doc e = Active d" and "rd_parent_no d = Some q" and "is_sending s q"
    and "slot_idx q (send_table s) = Some k" and "ss_doc_no (send_table s ! k) = q" and "ss_channel (send_table s ! k) = Some ch"
    and "post_to_channel d n (rs_channel e = None) ch = Some (ch', w)"
  shows "fin_doc n i (set_recv_slot i e s) =
    Some (wake_opt w (set_send_slot k ((send_table s ! k)\<lparr> ss_channel := Some ch' \<rparr>)
      (set_recv_slot i (e\<lparr> rs_doc := Finishing [],
         rs_channel := map_option (\<lambda>ch. ch\<lparr> ref_count := ref_count ch + 1 \<rparr>) (rs_channel e) \<rparr>) (set_recv_slot i e s))), Inr ())"
  using assms by (simp add: fin_doc_def Let_def fin_to_parent_def)

lemma reserve_slot_fields:
  assumes "i < length (recv_table s)"
  shows "recv_table (reserve_slot p i s) ! i = (recv_table s ! i)\<lparr> rs_doc_no := ps_doc_no p, rs_needs_send_control := False,
      rs_doc := ActiveReserved, rs_adoptable_orphans := [],
      rs_channel := (if ps_is_closed p then None
        else Some \<lparr> ref_count = 0, ready_wakers = [], ready_docs = rs_adoptable_orphans (recv_table s ! i), reply_buffer = NoReply \<rparr>) \<rparr>"
    "send_table (reserve_slot p i s) = send_table s" "length (recv_table (reserve_slot p i s)) = length (recv_table s)"
    "is_sending (reserve_slot p i s) = is_sending s" "woken (reserve_slot p i s) = woken s"
    "recv_bytes_total (reserve_slot p i s) = recv_bytes_total s"
  using assms by (simp_all add: reserve_slot_def Let_def)

lemma single_segment_created:
  fixes s :: session and parent :: u64 and p :: parsed_seg
  defines "data \<equiv> ps_seg p" and "n \<equiv> ps_doc_no p"
  assumes "ps_doc_len p = Some (length data)" and "ps_seg_off p = 0"
    and "0 < length data" and "length data \<le> 128" and "\<not> ps_special p" and "\<not> ps_is_closed p" and "ps_parent_no p = Some parent"
    and "i < length (recv_table s)" and "rs_doc (recv_table s ! i) = FinAck" and "rs_channel (recv_table s ! i) = None"
    and "rs_orphans_expected_parent_no (recv_table s ! i) = None"
    and "recv_bytes_total s + length data \<le> recv_bytes_max s" and "recv_bytes_max s < usize_bound"
    and "is_sending s parent" and "slot_idx parent (send_table s) = Some k" and "ss_doc_no (send_table s ! k) = parent"
    and "ss_channel (send_table s ! k) = Some ch"
  shows "\<exists>s' ch'. create_doc p i s = Some (s', Inr ()) \<and> ss_channel (send_table s' ! k) = Some ch' \<and>
    ready_docs ch' = ready_docs ch @ [\<lparr> ur_buf = data, ur_doc_no = n, ur_has_special_parent = False, ur_is_closed = False \<rparr>] \<and>
    woken s' = woken s @ (if ready_wakers ch = [] then [] else [last (ready_wakers ch)]) \<and>
    recv_bytes_total s' = recv_bytes_total s + length data \<and> rs_doc_no (recv_table s' ! i) = n \<and>
    rs_doc (recv_table s' ! i) = Finishing [] \<and> (\<exists>own. rs_channel (recv_table s' ! i) = Some own \<and> ref_count own = 1)"
proof -
  note i = assms(10)
  have k: "k < length (send_table s)" by (rule slot_idx_less [OF assms(17)])
  have ca: "checked_add (recv_bytes_total s) (length data) = Some (recv_bytes_total s + length data)"
    using assms by (simp add: checked_add_def)
  define s1 where "s1 = reserve_slot p i (s\<lparr> recv_bytes_total := recv_bytes_total s + length data \<rparr>)"
  note tab = reserve_slot_fields [of i "s\<lparr> recv_bytes_total := recv_bytes_total s + length data \<rparr>" p, simplified, OF i, folded s1_def]
  have mem: "reply_mem p s1 = Some (s1, None)" using assms(7) by (simp add: reply_mem_def)
  obtain d where d: "recv_doc_seg (new_doc p (length data) None) 0 data (heap s1) = Some (d, heap s1, Inr True)"
    "rd_mem d = Simple data" "rd_parent_no d = Some parent" "\<not> rd_has_special_parent d"
    using whole_doc [OF assms(5,6), of p "heap s1"] assms(7,9) by auto
  define e where "e = (recv_table s1 ! i)\<lparr> rs_doc := Active d \<rparr>"
  have e: "rs_doc e = Active d" "rs_doc_no e = n" "rs_channel e = Some \<lparr> ref_count = 0, ready_wakers = [],
      ready_docs = rs_adoptable_orphans (recv_table s ! i), reply_buffer = NoReply \<rparr>"
    using tab(1) assms(8) by (simp_all add: e_def n_def)
  obtain ch' w where post: "post_to_channel d n (rs_channel e = None) ch = Some (ch', w)"
    "ready_docs ch' = ready_docs ch @ [\<lparr> ur_buf = data, ur_doc_no = n, ur_has_special_parent = False, ur_is_closed = False \<rparr>]"
    "w = (if ready_wakers ch = [] then None else Some (last (ready_wakers ch)))"
    using d e(3) by (cases "ready_wakers ch = []") (simp_all add: post_to_channel_def)
  let ?e = "e\<lparr> rs_doc := Finishing [], rs_channel := map_option (\<lambda>ch. ch\<lparr> ref_count := ref_count ch + 1 \<rparr>) (rs_channel e) \<rparr>"
  let ?s2 = "wake_opt w (set_send_slot k ((send_table s1 ! k)\<lparr> ss_channel := Some ch' \<rparr>) (set_recv_slot i ?e (set_recv_slot i e s1)))"
  have fin: "fin_doc n i (set_recv_slot i e s1) = Some (?s2, Inr ())"
    by (rule fin_doc_to_sender [OF _ e(1) d(3) _ _ _ _ post(1)]) (use i tab assms in simp_all)
  have first: "first_seg p i (new_doc p (length data) None) s1 = Some (?s2, Inr ())"
    using d(1) fin assms(4) tab(1) by (simp add: first_seg_def Let_def data_def [symmetric] n_def [symmetric] e_def)
  have "create_doc p i s = Some (?s2, Inr ())"
    using assms(3,8,11-15) ca mem first
    by (simp add: create_doc_def Let_def s1_def [symmetric] drop_flushers_def wake_all_def drop_closed_channel_def slot_is_fin_def)
  then show ?thesis
    using post(2,3) i k tab e by (intro exI [of _ ?s2] exI [of _ ch']) (simp add: wake_opt_def)
qed

text \<open>
  A document of one segment of at most 128 bytes, with an open channel as its parent, is delivered
  as soon as it arrives, if the slot it maps to is free and the receive limit leaves room for it:
  exactly its bytes are put behind the ready documents of the parent's channel, one task that waits
  there is woken, the bytes are counted, and the document's own slot waits for the end with an open
  channel.
\<close>

theorem single_segment_delivered:
  fixes s :: session and parent :: u64 and p :: parsed_seg
  defines "data \<equiv> ps_seg p" and "n \<equiv> ps_doc_no p"
  assumes "parse_seg v packet j = Some (Inr p, j')" and "ps_doc_len p = Some (length data)" and "ps_seg_off p = 0"
    and "0 < length data" and "length data \<le> 128" and "\<not> ps_special p" and "\<not> ps_is_closed p" and "ps_parent_no p = Some parent"
    and "\<not> is_sending s n" and "slot_idx n (recv_table s) = Some i" and "rs_doc_no (recv_table s ! i) < n"
    and "rs_doc (recv_table s ! i) = FinAck" and "rs_channel (recv_table s ! i) = None"
    and "rs_orphans_expected_parent_no (recv_table s ! i) = None"
    and "recv_bytes_total s + length data \<le> recv_bytes_max s" and "recv_bytes_max s < usize_bound"
    and "is_sending s parent" and "slot_idx parent (send_table s) = Some k" and "ss_doc_no (send_table s ! k) = parent"
    and "ss_channel (send_table s ! k) = Some ch"
  shows "\<exists>s' ch'. recv_seg v packet j s = Some (s', j', Inr ()) \<and> ss_channel (send_table s' ! k) = Some ch' \<and>
    ready_docs ch' = ready_docs ch @ [\<lparr> ur_buf = data, ur_doc_no = n, ur_has_special_parent = False, ur_is_closed = False \<rparr>] \<and>
    woken s' = woken s @ (if ready_wakers ch = [] then [] else [last (ready_wakers ch)]) \<and>
    recv_bytes_total s' = recv_bytes_total s + length data \<and> rs_doc_no (recv_table s' ! i) = n \<and>
    rs_doc (recv_table s' ! i) = Finishing [] \<and> (\<exists>own. rs_channel (recv_table s' ! i) = Some own \<and> ref_count own = 1)"
proof -
  obtain s' ch' where "create_doc p i s = Some (s', Inr ())" and out: "ss_channel (send_table s' ! k) = Some ch'"
    "ready_docs ch' = ready_docs ch @ [\<lparr> ur_buf = data, ur_doc_no = n, ur_has_special_parent = False, ur_is_closed = False \<rparr>]"
    "woken s' = woken s @ (if ready_wakers ch = [] then [] else [last (ready_wakers ch)])"
    "recv_bytes_total s' = recv_bytes_total s + length data" "rs_doc_no (recv_table s' ! i) = n"
    "rs_doc (recv_table s' ! i) = Finishing []" "\<exists>own. rs_channel (recv_table s' ! i) = Some own \<and> ref_count own = 1"
    using single_segment_created [where p = p and i = i and s = s and parent = parent and k = k and ch = ch, folded data_def n_def,
        OF assms(4-10) slot_idx_less [OF assms(12)] assms(14-)] by blast
  then have "recv_seg v packet j s = Some (s', j', Inr ())"
    using assms(3,11-13) less_irrefl by (auto simp: recv_seg_def Let_def n_def [symmetric])
  then show ?thesis using out by blast
qed

text \<open>
  A session for the examples, of an initiator: document 3 was sent and has an open channel on which
  task 1 waits; the only slot of the receive table is free.
\<close>

definition sample_channel :: open_channel where
  "sample_channel = \<lparr> ref_count = 1, ready_wakers = [1], ready_docs = [], reply_buffer = NoReply \<rparr>"

definition sample_session :: session where
  "sample_session = \<lparr> is_initiator = True, session_mtu = 100, recv_bytes_total = 0, recv_bytes_max = 1000,
     recv_table = [\<lparr> rs_doc_no = 0, rs_doc = FinAck, rs_channel = None, rs_adoptable_orphans = [],
       rs_orphans_expected_parent_no = None, rs_needs_send_control = False \<rparr>],
     send_bytes_total = 0, send_bytes_max = 1000, send_total = 1, send_doc_no = 5, send_wakers = [],
     send_table = [\<lparr> ss_doc_no = 3, ss_needs_send_close = False, ss_doc = None, ss_channel = Some sample_channel \<rparr>],
     send_queue = [], heap = (\<lambda>_. 0), woken = [], scheduled = [] \<rparr>"

text \<open>Document 8 with parent 3, three bytes in one segment that ends the packet.\<close>

definition sample_packet :: bytes where
  "sample_packet = [0x26, 8, 3, 10, 20, 30]"

lemma sample_parse: "parse_seg 0x26 sample_packet 1 = Some (Inr (sample_parsed [10, 20, 30]), 6)"
  by (simp add: parse_seg_def sample_packet_def sample_parsed_def has_flag_def VARIANT_SEG_FLAG_HAS_SPECIAL_PARENT_def
      VARIANT_SEG_FLAG_HAS_DOC_LEN_def VARIANT_SEG_FLAG_IS_SINGLE_SEG_def VARIANT_SEG_FLAG_IS_FIRST_def VARIANT_SEG_FLAG_IS_CLOSED_def
      varu64_try_read_def impl_try_read_def checked_add_def usize_bound_def parse_data_def VARIANT_SEG_LEN_MASK_def
      VARIANT_SEG_IS_TERMINATOR_def)

theorem single_segment_delivered_witness:
  "\<exists>s' ch'. recv_seg 0x26 sample_packet 1 sample_session = Some (s', 6, Inr ()) \<and> ss_channel (send_table s' ! 0) = Some ch' \<and>
     map ur_buf (ready_docs ch') = [[10, 20, 30]] \<and> woken s' = [1]"
  using single_segment_delivered [OF sample_parse, of 3 sample_session 0 0 sample_channel]
  by (auto simp: sample_parsed_def sample_session_def sample_channel_def is_sending_def slot_idx_def usize_bound_def)

lemma sample_recv:
  "\<exists>s'. recv_seg 0x26 sample_packet 1 sample_session = Some (s', 6, Inr ()) \<and> rs_doc_no (recv_table s' ! 0) = 8"
proof -
  let ?p = "sample_parsed [10, 20, 30]"
  obtain s' where "create_doc ?p 0 sample_session = Some (s', Inr ())" "rs_doc_no (recv_table s' ! 0) = 8"
    using single_segment_created [where p = ?p and i = 0 and s = sample_session and parent = 3 and k = 0 and ch = sample_channel]
    by (auto simp: sample_parsed_def sample_session_def sample_channel_def is_sending_def slot_idx_def usize_bound_def)
  moreover have "\<not> is_sending sample_session 8" "slot_idx 8 (recv_table sample_session) = Some 0"
    "rs_doc_no (recv_table sample_session ! 0) = 0" "ps_doc_no ?p = 8"
    by (simp_all add: sample_session_def sample_parsed_def is_sending_def slot_idx_def)
  ultimately show ?thesis unfolding recv_seg_def sample_parse by simp
qed

text \<open>
  C23. Receiving never takes a slot from a document that is not finished, and never puts an older
  document into a slot.  A segment leaves all document numbers of the receive table as they are or
  puts its own number into the slot it maps to, over a smaller number whose document is finished; a
  packet, whatever it holds, only increases numbers.
\<close>

theorem slots_only_advance:
  "(recv_seg v packet j s = Some (s', j', r) \<longrightarrow>
     slot_nos s' = slot_nos s \<or> (\<exists>i n. slot_nos s' = (slot_nos s)[i := n] \<and> slot_taken s i n)) \<and>
   (recv_packet packet j s = Some (s2, j2) \<longrightarrow>
     length (slot_nos s2) = length (slot_nos s) \<and> (\<forall>k < length (slot_nos s). slot_nos s ! k \<le> slot_nos s2 ! k))"
  using recv_seg_nos recv_packet_nos by blast

theorem slots_only_advance_witness:
  "\<exists>s'. recv_seg 0x26 sample_packet 1 sample_session = Some (s', 6, Inr ()) \<and> rs_doc_no (recv_table s' ! 0) = 8 \<and>
     (\<exists>i n. slot_nos s' = (slot_nos sample_session)[i := n] \<and> slot_taken sample_session i n)"
proof -
  obtain s' where s': "recv_seg 0x26 sample_packet 1 sample_session = Some (s', 6, Inr ())" "rs_doc_no (recv_table s' ! 0) = 8"
    using sample_recv by blast
  have "slot_nos s' \<noteq> slot_nos sample_session"
    using s'(2) by (auto simp: slot_nos_def sample_session_def)
  then show ?thesis using slots_only_advance [where v = "0x26" and packet = sample_packet and j = 1 and s = sample_session and s' = s' and j' = 6 and r = "Inr ()"] s' by blast
qed

section \<open>Orphans\<close>

lemma create_doc_refuses:
  assumes "ps_doc_len p \<noteq> None"
    and "\<not> slot_is_fin (rs_doc (recv_table s ! i)) \<or> (\<exists>q. rs_orphans_expected_parent_no (recv_table s ! i) = Some q \<and> q \<noteq> ps_doc_no p)"
  shows "create_doc p i s = Some (s, Inl Invalid)"
  using assms by (auto simp: create_doc_def Let_def split: option.splits)

text \<open>
  C29. A document that completes before its parent has arrived waits as an orphan in the slot of the
  parent, and the parent adopts it: when the parent's first segment arrives, the orphans of the slot
  become the ready documents of the parent's channel, in the order of their arrival, and none is left
  behind.  But the slot still expects this parent, so it will refuse every other document from then
  on.
\<close>

theorem orphan_adopted:
  fixes s :: session and parent :: u64 and p :: parsed_seg
  assumes "\<not> is_sending s parent" and "slot_idx parent (recv_table s) = Some i" and "rs_doc_no (recv_table s ! i) < parent"
    and "rs_doc (recv_table s ! i) = FinAck" and "rs_channel (recv_table s ! i) = None"
    and "rs_orphans_expected_parent_no (recv_table s ! i) \<in> {None, Some parent}" and "rd_mem doc = Simple b"
    and "ps_doc_no p = parent" and "ps_doc_len p = Some len" and "\<not> ps_special p" and "\<not> ps_is_closed p"
    and "recv_bytes_total s + len \<le> recv_bytes_max s" and "recv_bytes_max s < usize_bound"
    and "recv_doc_seg (new_doc p len None) (ps_seg_off p) (ps_seg p) (heap s) = Some (d, heap s, Inr False)"
  shows "\<exists>s1 s2 ch. fin_to_parent n doc parent closed s = Some (s1, Inr ()) \<and> create_doc p i s1 = Some (s2, Inr ()) \<and>
    rs_doc_no (recv_table s2 ! i) = parent \<and> rs_doc (recv_table s2 ! i) = Active d \<and> rs_channel (recv_table s2 ! i) = Some ch \<and>
    ready_docs ch = rs_adoptable_orphans (recv_table s ! i) @
      [\<lparr> ur_buf = b, ur_doc_no = n, ur_has_special_parent = rd_has_special_parent doc, ur_is_closed = closed \<rparr>] \<and>
    rs_adoptable_orphans (recv_table s2 ! i) = [] \<and> rs_orphans_expected_parent_no (recv_table s2 ! i) = Some parent \<and>
    (\<forall>s3 p'. rs_orphans_expected_parent_no (recv_table s3 ! i) = Some parent \<longrightarrow> ps_doc_no p' \<noteq> parent \<longrightarrow> ps_doc_len p' \<noteq> None \<longrightarrow>
       create_doc p' i s3 = Some (s3, Inl Invalid))"
proof -
  note i = slot_idx_less [OF assms(2)]
  define e where "e = (recv_table s ! i)\<lparr> rs_orphans_expected_parent_no := Some parent,
    rs_adoptable_orphans := rs_adoptable_orphans (recv_table s ! i) @
      [\<lparr> ur_buf = b, ur_doc_no = n, ur_has_special_parent = rd_has_special_parent doc, ur_is_closed = closed \<rparr>] \<rparr>"
  define s1 where "s1 = set_recv_slot i e s"
  have orphan: "fin_to_parent n doc parent closed s = Some (s1, Inr ())"
    using assms(1-7) by (auto simp: fin_to_parent_def Let_def slot_is_fin_def s1_def e_def)
  have tab1: "recv_table s1 ! i = e" "i < length (recv_table s1)" "recv_bytes_total s1 = recv_bytes_total s"
    "recv_bytes_max s1 = recv_bytes_max s" "heap s1 = heap s"
    using i by (simp_all add: s1_def set_recv_slot_def)
  have ca: "checked_add (recv_bytes_total s) len = Some (recv_bytes_total s + len)"
    using assms(12,13) by (simp add: checked_add_def)
  define s2 where "s2 = reserve_slot p i (s1\<lparr> recv_bytes_total := recv_bytes_total s + len \<rparr>)"
  note tab2 = reserve_slot_fields [of i "s1\<lparr> recv_bytes_total := recv_bytes_total s + len \<rparr>" p, simplified, OF tab1(2), folded s2_def]
  have heap2: "heap s2 = heap s" by (simp add: s2_def reserve_slot_def set_recv_slot_def Let_def tab1(5))
  have mem: "reply_mem p s2 = Some (s2, None)" using assms(10) by (simp add: reply_mem_def)
  let ?e = "(recv_table s2 ! i)\<lparr> rs_doc := Active d \<rparr>"
  have first: "first_seg p i (new_doc p len None) s2 = Some (set_recv_slot i ?e s2, Inr ())"
    using assms(14) tab2(1) by (simp add: first_seg_def Let_def heap2 set_recv_slot_def)
  have e: "rs_doc e = FinAck" "rs_orphans_expected_parent_no e = Some parent" "rs_channel e = None"
    using assms(4,5) by (simp_all add: e_def)
  have create: "create_doc p i s1 = Some (set_recv_slot i ?e s2, Inr ())"
    using assms(8,9,11,12) e tab1 ca mem first
    by (simp add: create_doc_def Let_def slot_is_fin_def s2_def [symmetric] drop_flushers_def wake_all_def drop_closed_channel_def)
  have refuse: "\<forall>s3 p'. rs_orphans_expected_parent_no (recv_table s3 ! i) = Some parent \<longrightarrow> ps_doc_no p' \<noteq> parent \<longrightarrow> ps_doc_len p' \<noteq> None \<longrightarrow>
       create_doc p' i s3 = Some (s3, Inl Invalid)"
    using create_doc_refuses by blast
  show ?thesis
    using orphan create refuse tab2(1,3) tab1(1,2) assms(8,11)
    by (intro exI [of _ s1] exI [of _ "set_recv_slot i ?e s2"]
        exI [of _ "\<lparr> ref_count = 0, ready_wakers = [], ready_docs = rs_adoptable_orphans e, reply_buffer = NoReply \<rparr>"])
       (simp add: e_def)
qed

section \<open>Lost slots\<close>

lemma drop_one_closed:
  assumes "drop_one m k s = Some (s', docs)" and "rs_doc (recv_table s ! i) = FinParentClose"
  shows "rs_doc (recv_table s' ! i) = FinParentClose"
  using assms
  by (auto simp: drop_one_def Let_def slot_is_fin_def nth_list_update dest!: slot_idx_less split: option.splits if_splits)

lemma drop_loop_closed:
  "drop_loop stack s = Some s' \<Longrightarrow> rs_doc (recv_table s ! i) = FinParentClose \<Longrightarrow> rs_doc (recv_table s' ! i) = FinParentClose"
  by (induction stack s rule: drop_loop.induct) (auto dest: drop_one_closed split: option.splits)

text \<open>
  A slot whose document is dropped because its parent was closed is lost: the document ends in
  the state \<open>FinParentClose\<close>, which does not count as finished, so every later document of the slot is
  refused as invalid, and the session is abandoned for it.
\<close>

theorem parent_closed_slot_lost:
  assumes "drop_unfinished_recv_doc n len s = Some s'" and "slot_idx n (recv_table s) = Some i" and "rs_doc_no (recv_table s ! i) = n"
    and "ps_doc_len p \<noteq> None"
  shows "rs_doc (recv_table s' ! i) = FinParentClose \<and> create_doc p i s' = Some (s', Inl Invalid)"
proof -
  obtain s1 docs where 1: "drop_one n len s = Some (s1, docs)"
    and 2: "drop_loop (map (\<lambda>d. (ur_doc_no d, length (ur_buf d))) docs) s1 = Some s'"
    using assms(1) by (auto simp: drop_unfinished_recv_doc_def split: option.splits)
  have "rs_doc (recv_table s1 ! i) = FinParentClose"
    using 1 assms(2,3) slot_idx_less [OF assms(2)]
    by (auto simp: drop_one_def Let_def split: option.splits if_splits)
  then have "rs_doc (recv_table s' ! i) = FinParentClose" using drop_loop_closed [OF 2] by blast
  then show ?thesis using create_doc_refuses [of p s' i] assms(4) by (simp add: slot_is_fin_def)
qed

theorem parent_closed_slot_lost_witness:
  "\<exists>s'. drop_unfinished_recv_doc 0 0 sample_session = Some s' \<and>
     create_doc (sample_parsed [10]) 0 s' = Some (s', Inl Invalid)"
proof -
  have "drop_unfinished_recv_doc 0 0 sample_session \<noteq> None"
    by (simp add: drop_unfinished_recv_doc_def drop_one_def sample_session_def slot_idx_def slot_is_fin_def schedule_send_control_def
        drop_doc_state_def set_recv_slot_def)
  then obtain s' where s': "drop_unfinished_recv_doc 0 0 sample_session = Some s'" by blast
  then show ?thesis
    using parent_closed_slot_lost [OF s', of 0 "sample_parsed [10]"] by (auto simp: sample_session_def slot_idx_def sample_parsed_def)
qed

theorem orphan_adopted_witness:
  "\<exists>s1 s2 ch. fin_to_parent 10 (new_doc (sample_parsed []) 5 None) 8 False sample_session = Some (s1, Inr ()) \<and>
     create_doc ((sample_parsed [10, 20])\<lparr> ps_doc_len := Some 5 \<rparr>) 0 s1 = Some (s2, Inr ()) \<and>
     rs_channel (recv_table s2 ! 0) = Some ch \<and> map ur_doc_no (ready_docs ch) = [10]"
proof -
  let ?p = "(sample_parsed [10, 20])\<lparr> ps_doc_len := Some 5 \<rparr>"
  have marks: "seg_marks 0 (length [10 :: u8, 20]) = {0..<2}" by (subst seg_marks_short) (simp_all add: numeral_2_eq_2)
  have new: "rd_mem (new_doc ?p 5 None) = Simple (replicate 5 0)" "rd_set_segs (new_doc ?p 5 None) = replicate 1 0"
    "rd_total_recv (new_doc ?p 5 None) = 0" by (simp_all add: new_doc_def)
  have "\<exists>d. recv_doc_seg (new_doc ?p 5 None) 0 [10, 20] (heap sample_session) = Some (d, heap sample_session, Inr (rd_total_recv d = length (replicate 5 (0 :: u8)))) \<and>
      rmarks (rd_set_segs d) = rmarks (rd_set_segs (new_doc ?p 5 None)) \<union> seg_marks 0 (length [10 :: u8, 20]) \<and>
      rd_total_recv d = card (rmarks (rd_set_segs d))"
    using recv_doc_seg_marks [OF new(1), of "[10, 20]" 0 "heap sample_session"] unfolding new
    by (simp add: usize_bound_def del: replicate.simps) blast
  then obtain d where "recv_doc_seg (new_doc ?p 5 None) 0 [10, 20] (heap sample_session) = Some (d, heap sample_session, Inr False)"
    unfolding marks new rmarks_replicate_0 by auto
  then show ?thesis
    using orphan_adopted [of sample_session 8 0 "new_doc (sample_parsed []) 5 None" "replicate 5 0" ?p 5 d 10 False]
    by (auto simp: sample_session_def sample_parsed_def is_sending_def slot_idx_def new_doc_def usize_bound_def)
qed

end
