(* ===== verification/Channel.thy ===== *)
theory Channel
  imports Session_Recv
begin

text \<open>
  Channels, \<open>session/src/channel.rs\<close>: the handle that the application has on a document, for sending
  and receiving further documents.  A handle is its tagged document number; the session it points to
  is an argument.  The constants of the tags are those of \<open>unbound_recv.rs\<close>, the only file that
  declares them.

  The futures are their \<open>poll\<close> functions.  The waker of the task that polls is an argument, and the
  state of a future that \<open>poll\<close> changes is returned.
\<close>

section \<open>Handles\<close>

type_synonym channel = u64

definition FLAG_IS_CLOSED :: u64 where "FLAG_IS_CLOSED = push_bit 63 1"
definition FLAG_HAS_SPECIAL_PARENT :: u64 where "FLAG_HAS_SPECIAL_PARENT = push_bit 62 1"
definition DOC_NO_MASK :: u64 where "DOC_NO_MASK = drop_bit 2 (- 1)"

datatype recv_doc_data = Doc bytes channel | DocUnbound bytes channel | Datagram bytes

datatype channel_error = Closed | Abandoned

datatype send_error = Send_Closed | Send_Abandoned | Send_TooLarge

datatype try_send_error = Try_Full | Try_Closed | Try_Abandoned | Try_TooLarge

definition channel_new :: "u64 \<Rightarrow> bool \<Rightarrow> bool \<Rightarrow> channel" where
  "channel_new doc_no has_special_parent closed =
     doc_no OR (if has_special_parent then FLAG_HAS_SPECIAL_PARENT else 0) OR (if closed then FLAG_IS_CLOSED else 0)"

definition check_basic :: "channel \<Rightarrow> session \<Rightarrow> channel_error + unit" where
  "check_basic c s =
     (if send_bytes_max s > 0 then (if c AND FLAG_IS_CLOSED > 0 then Inl Closed else Inr ()) else Inl Abandoned)"

definition parent_was_local :: "channel \<Rightarrow> session \<Rightarrow> bool" where
  "parent_was_local c s \<longleftrightarrow> (c AND 1 > 0) = is_initiator s"

definition has_special_parent :: "channel \<Rightarrow> bool" where
  "has_special_parent c \<longleftrightarrow> c AND FLAG_HAS_SPECIAL_PARENT > 0"

definition channel_doc_no :: "channel \<Rightarrow> u64" where
  "channel_doc_no c = c AND DOC_NO_MASK"

section \<open>Receiving\<close>

text \<open>
  What the closures of \<open>try_recv\<close> and \<open>RecvFuture\<close> do with a ready document once they have taken it from
  the channel.
\<close>

definition release_doc :: "unfinished_recv_doc \<Rightarrow> session \<Rightarrow> session \<times> recv_doc_data" where
  "release_doc d s =
     (schedule_send_control VARIANT_CONTROL_FIN (ur_doc_no d)
        (s\<lparr> recv_bytes_total := fetch_sub (recv_bytes_total s) (length (ur_buf d)) \<rparr>),
      Doc (ur_buf d) (channel_new (ur_doc_no d) (ur_has_special_parent d) (ur_is_closed d)))"

definition pop_ready :: "open_channel \<Rightarrow> open_channel \<times> unfinished_recv_doc option" where
  "pop_ready ch =
     (if ready_docs ch = [] then (ch, None)
      else (ch\<lparr> ready_docs := butlast (ready_docs ch) \<rparr>, Some (last (ready_docs ch))))"

definition try_recv :: "channel \<Rightarrow> session \<Rightarrow> (session \<times> (channel_error + recv_doc_data option)) option" where
  "try_recv c s =
     (case check_basic c s of
        Inl e \<Rightarrow> Some (s, Inl e)
      | Inr _ \<Rightarrow> do {
          (s, r) \<leftarrow> update_channel (channel_doc_no c) pop_ready s;
          case r of
            None \<Rightarrow> Some (s, Inl Closed)
          | Some None \<Rightarrow> Some (s, Inr None)
          | Some (Some d) \<Rightarrow> (let (s, doc) = release_doc d s in Some (s, Inr (Some doc)))
        })"

text \<open>The result of polling a future.\<close>

datatype 'a poll = Pending | Ready 'a

definition recv_poll :: "channel \<Rightarrow> waker \<Rightarrow> session \<Rightarrow> (session \<times> (channel_error + recv_doc_data) poll) option" where
  "recv_poll c w s =
     (case check_basic c s of
        Inl e \<Rightarrow> Some (s, Ready (Inl e))
      | Inr _ \<Rightarrow> do {
          (s, r) \<leftarrow> update_channel (channel_doc_no c)
            (\<lambda>ch. case pop_ready ch of
                    (ch, Some d) \<Rightarrow> (ch, Some d)
                  | (ch, None) \<Rightarrow> (ch\<lparr> ready_wakers := ready_wakers ch @ [w] \<rparr>, None)) s;
          case r of
            None \<Rightarrow> Some (s, Ready (Inl Closed))
          | Some None \<Rightarrow> Some (s, Pending)
          | Some (Some d) \<Rightarrow> (let (s, doc) = release_doc d s in Some (s, Ready (Inr doc)))
        })"

section \<open>Sending\<close>

definition fetch_add :: "nat \<Rightarrow> nat \<Rightarrow> nat" where
  "fetch_add a b = (a + b) mod usize_bound"

text \<open>
  The loop that looks for an unused document number.  It may run forever: the result is then \<open>None\<close>.
\<close>

partial_function (option) find_slot :: "session \<Rightarrow> (session \<times> u64 \<times> nat) option" where
  "find_slot s =
     (let doc_no = send_doc_no s; s = s\<lparr> send_doc_no := doc_no + 2 \<rparr> in
      case slot_idx doc_no (send_table s) of
        None \<Rightarrow> None
      | Some i \<Rightarrow>
          if ss_channel (send_table s ! i) \<noteq> None \<or> ss_doc (send_table s ! i) \<noteq> None then find_slot s
          else Some (s, doc_no, i))"

definition fill_slot :: "channel \<Rightarrow> bytes \<Rightarrow> special_reply_state \<Rightarrow> u64 \<Rightarrow> nat \<Rightarrow> session \<Rightarrow> session" where
  "fill_slot c doc reply doc_no i s =
     set_send_slot i ((send_table s ! i)\<lparr> ss_doc_no := doc_no,
       ss_doc := Some \<lparr> sd_parent_no = doc_no, sd_has_special_parent = has_special_parent c, sd_has_been_acked = False,
                        sd_next_seg_off = 0, sd_data = doc, sd_flush_wakers = [] \<rparr>,
       ss_channel := Some \<lparr> ref_count = 1, ready_wakers = [], ready_docs = [], reply_buffer = reply \<rparr>,
       ss_needs_send_close := False \<rparr>) s"

text \<open>The parameter \<open>reply\<close> is what the closure \<open>f\<close> of \<open>try_send_any\<close> returns.\<close>

definition try_send_any ::
  "channel \<Rightarrow> bytes \<Rightarrow> special_reply_state \<Rightarrow> session \<Rightarrow> (session \<times> ((try_send_error \<times> bytes) + channel)) option" where
  "try_send_any c doc reply s =
     (let total = send_total s; s = s\<lparr> send_total := fetch_add total 1 \<rparr>;
          len = (word_of_nat (length doc) :: u64) in
      do {
        next \<leftarrow> checked_add total 1;
        if next \<ge> length (send_table s) then
          Some (s\<lparr> send_total := fetch_sub (send_total s) 1 \<rparr>, Inl (Try_Full, doc))
        else if send_bytes_max s = 0 then Some (s, Inl (Try_Abandoned, doc))
        else if len \<ge> send_bytes_max s then Some (s, Inl (Try_TooLarge, doc))
        else do {
          let bytes_total = send_bytes_total s;
          let s = s\<lparr> send_bytes_total := bytes_total + len \<rparr>;
          if unat bytes_total + unat len \<ge> 2 ^ 64 then None
          else if bytes_total + len \<ge> send_bytes_max s then
            Some (s\<lparr> send_bytes_total := send_bytes_total s - len, send_total := fetch_sub (send_total s) 1 \<rparr>,
                  Inl (Try_Full, doc))
          else do {
            (s, doc_no, i) \<leftarrow> find_slot s;
            Some (fill_slot c doc reply doc_no i s, Inr doc_no)
          }
        }
      })"

definition try_send :: "channel \<Rightarrow> bytes \<Rightarrow> session \<Rightarrow> (session \<times> ((try_send_error \<times> bytes) + channel)) option" where
  "try_send c doc = try_send_any c doc NoReply"

definition wake_next_sender :: "bool \<Rightarrow> session \<Rightarrow> session" where
  "wake_next_sender has_waited s =
     (if has_waited then
        (case send_wakers s of [] \<Rightarrow> s | w # ws \<Rightarrow> wake_all [w] (s\<lparr> send_wakers := ws \<rparr>))
      else s)"

text \<open>\<open>SendFuture\<close> is its document and whether it has waited; a future polled after its end panics.\<close>

type_synonym send_future = "bytes option \<times> bool"

fun send_poll ::
  "channel \<Rightarrow> waker \<Rightarrow> send_future \<Rightarrow> session \<Rightarrow> (session \<times> send_future \<times> ((send_error \<times> bytes) + channel) poll) option" where
  "send_poll c w (None, has_waited) s = None"
| "send_poll c w (Some doc, has_waited) s =
     do {
       (s, r) \<leftarrow> try_send c doc s;
       case r of
         Inr ch \<Rightarrow> Some (wake_next_sender has_waited s, (None, has_waited), Ready (Inr ch))
       | Inl (Try_Full, doc) \<Rightarrow> Some (s\<lparr> send_wakers := send_wakers s @ [w] \<rparr>, (Some doc, True), Pending)
       | Inl (Try_Closed, doc) \<Rightarrow> Some (s, (None, has_waited), Ready (Inl (Send_Closed, doc)))
       | Inl (Try_Abandoned, doc) \<Rightarrow> Some (s, (None, has_waited), Ready (Inl (Send_Abandoned, doc)))
       | Inl (Try_TooLarge, doc) \<Rightarrow> Some (s, (None, has_waited), Ready (Inl (Send_TooLarge, doc)))
     }"

section \<open>Status and flushing\<close>

definition status :: "channel \<Rightarrow> session \<Rightarrow> (channel_error + bool) option" where
  "status c s =
     (case check_basic c s of
        Inl e \<Rightarrow> Some (Inl e)
      | Inr _ \<Rightarrow>
          let doc_no = channel_doc_no c in
          if parent_was_local c s then do {
            i \<leftarrow> slot_idx doc_no (send_table s);
            let entry = send_table s ! i;
            Some (if ss_doc_no entry = doc_no \<and> ss_channel entry \<noteq> None then Inr (ss_doc entry \<noteq> None) else Inl Closed)
          }
          else do {
            i \<leftarrow> slot_idx doc_no (recv_table s);
            let entry = recv_table s ! i;
            Some (if rs_doc_no entry = doc_no \<and> rs_channel entry \<noteq> None
                  then Inr (case rs_doc entry of Finishing _ \<Rightarrow> True | _ \<Rightarrow> False) else Inl Closed)
          })"

definition flush_poll :: "channel \<Rightarrow> waker \<Rightarrow> bool \<Rightarrow> session \<Rightarrow> (session \<times> bool \<times> unit poll) option" where
  "flush_poll c w has_waited s =
     (if has_waited then Some (s, True, Ready ())
      else
        let doc_no = channel_doc_no c in
        if parent_was_local c s then do {
          i \<leftarrow> slot_idx doc_no (send_table s);
          let entry = send_table s ! i;
          case (if ss_doc_no entry = doc_no \<and> ss_channel entry \<noteq> None then ss_doc entry else None) of
            Some doc \<Rightarrow>
              Some (set_send_slot i (entry\<lparr> ss_doc := Some (doc\<lparr> sd_flush_wakers := sd_flush_wakers doc @ [w] \<rparr>) \<rparr>) s, True, Pending)
          | None \<Rightarrow> Some (s, True, Ready ())
        }
        else do {
          i \<leftarrow> slot_idx doc_no (recv_table s);
          let entry = recv_table s ! i;
          case (if rs_doc_no entry = doc_no \<and> rs_channel entry \<noteq> None then rs_doc entry else FinAck) of
            Finishing flush_wakers \<Rightarrow>
              Some (set_recv_slot i (entry\<lparr> rs_doc := Finishing (flush_wakers @ [w]) \<rparr>) s, True, Pending)
          | _ \<Rightarrow> Some (s, True, Ready ())
        })"

section \<open>Closing\<close>

text \<open>
  The closure of \<open>close_if_inner\<close> changes the channel and says whether it is to be closed.
\<close>

definition close_if_inner ::
  "channel \<Rightarrow> (open_channel \<Rightarrow> (open_channel \<times> bool) option) \<Rightarrow> session \<Rightarrow> (session \<times> (channel_error + unit)) option" where
  "close_if_inner c f s =
     (let doc_no = channel_doc_no c in
      do {
        (s, closed_channel) \<leftarrow>
          (if is_sending s doc_no then do {
             i \<leftarrow> slot_idx doc_no (send_table s);
             let entry = send_table s ! i;
             case (if ss_doc_no entry = doc_no then ss_channel entry else None) of
               None \<Rightarrow> Some (s, None)
             | Some ch \<Rightarrow> do {
                 (ch, cl) \<leftarrow> f ch;
                 Some (if cl then (set_send_slot i (entry\<lparr> ss_channel := None, ss_needs_send_close := True \<rparr>) s, Some ch)
                       else (set_send_slot i (entry\<lparr> ss_channel := Some ch \<rparr>) s, None))
               }
           }
           else do {
             i \<leftarrow> slot_idx doc_no (recv_table s);
             let entry = recv_table s ! i;
             case (if rs_doc_no entry = doc_no then rs_channel entry else None) of
               None \<Rightarrow> Some (s, None)
             | Some ch \<Rightarrow> do {
                 (ch, cl) \<leftarrow> f ch;
                 Some (if cl then (set_recv_slot i (entry\<lparr> rs_channel := None, rs_needs_send_control := True \<rparr>) s, Some ch)
                       else (set_recv_slot i (entry\<lparr> rs_channel := Some ch \<rparr>) s, None))
               }
           });
        let (s, ret) =
          (if closed_channel \<noteq> None then (schedule_send_control VARIANT_CONTROL_CLOSE doc_no s, Inr ()) else (s, Inl Closed));
        s \<leftarrow> drop_closed_channel closed_channel s;
        Some (s, ret)
      })"

definition close_channel :: "channel \<Rightarrow> session \<Rightarrow> (session \<times> (channel_error + unit)) option" where
  "close_channel c s =
     (case check_basic c s of
        Inl e \<Rightarrow> Some (s, Inl e)
      | Inr _ \<Rightarrow> close_if_inner c (\<lambda>ch. Some (ch, True)) s)"

definition close_if :: "channel \<Rightarrow> bool \<Rightarrow> session \<Rightarrow> (session \<times> (channel_error + unit)) option" where
  "close_if c f s =
     (case check_basic c s of
        Inl e \<Rightarrow> Some (s, Inl e)
      | Inr _ \<Rightarrow> close_if_inner c (\<lambda>ch. Some (ch, f)) s)"

text \<open>A count at the limit of \<open>usize\<close> panics.\<close>

definition clone_channel :: "channel \<Rightarrow> session \<Rightarrow> (session \<times> channel) option" where
  "clone_channel c s =
     do {
       (s, r) \<leftarrow> update_channel (channel_doc_no c)
         (\<lambda>ch. (ch\<lparr> ref_count := ref_count ch + 1 \<rparr>, ref_count ch + 1 < usize_bound)) s;
       if r = Some False then None else Some (s, c)
     }"

text \<open>Decrementing a count of zero panics.\<close>

definition drop_channel :: "channel \<Rightarrow> session \<Rightarrow> session option" where
  "drop_channel c s =
     map_option fst (close_if_inner c
       (\<lambda>ch. do {
          n \<leftarrow> checked_sub (ref_count ch) 1;
          Some (ch\<lparr> ref_count := n \<rparr>, n = 0)
        }) s)"

section \<open>Sending with a buffer for the reply\<close>

datatype send_reply_state = Sending "bytes option" bool | Sent channel

text \<open>The states in which \<open>send\<close>, \<open>flush_parent\<close> and \<open>send_with_reply_buffer\<close> start their futures.\<close>

definition send_start :: "bytes \<Rightarrow> send_future" where
  "send_start doc = (Some doc, False)"

definition flush_parent :: bool where
  "flush_parent = False"

definition send_with_reply_buffer :: "bytes \<Rightarrow> send_reply_state" where
  "send_with_reply_buffer doc = Sending (Some doc) False"

fun send_reply_poll ::
  "channel \<Rightarrow> address \<times> address \<Rightarrow> waker \<Rightarrow> send_reply_state \<Rightarrow> session \<Rightarrow>
   (session \<times> send_reply_state \<times> (send_error + nat \<times> channel) poll) option" where
  "send_reply_poll c buffer w (Sending None has_waited) s = None"
| "send_reply_poll c buffer w (Sending (Some doc) has_waited) s =
     do {
       (s, r) \<leftarrow> try_send_any c doc (Awaiting (Some buffer) w) s;
       case r of
         Inr reply_channel \<Rightarrow> Some (wake_next_sender has_waited s, Sent reply_channel, Pending)
       | Inl (Try_Full, doc) \<Rightarrow> Some (s\<lparr> send_wakers := send_wakers s @ [w] \<rparr>, Sending (Some doc) True, Pending)
       | Inl (Try_Closed, _) \<Rightarrow> Some (s, Sending None has_waited, Ready (Inl Send_Closed))
       | Inl (Try_Abandoned, _) \<Rightarrow> Some (s, Sending None has_waited, Ready (Inl Send_Abandoned))
       | Inl (Try_TooLarge, _) \<Rightarrow> Some (s, Sending None has_waited, Ready (Inl Send_TooLarge))
     }"
| "send_reply_poll c buffer w (Sent reply_channel) s =
     do {
       (s, r) \<leftarrow> update_channel (channel_doc_no reply_channel)
         (\<lambda>ch. case reply_buffer ch of
                 Awaiting b _ \<Rightarrow> (ch\<lparr> reply_buffer := Awaiting b w \<rparr>, Pending)
               | RecvReply len u \<Rightarrow>
                   (ch\<lparr> reply_buffer := NoReply \<rparr>,
                    Ready (Inr (len, channel_new (uc_doc_no u) (uc_has_special_parent u) (uc_is_closed u))))
               | NoReply \<Rightarrow> (ch, Ready (Inl Send_Closed))) s;
       Some (s, Sent reply_channel, case r of None \<Rightarrow> Ready (Inl Send_Closed) | Some p \<Rightarrow> p)
     }"

end
