(* ===== verification/Channel_Correct.thy ===== *)
theory Channel_Correct
  imports Channel Packet_Correct Recv_Tables
begin

text \<open>
  What channels guarantee: sending finds a slot whenever the count of the session allows it, closing
  wakes whoever waits; and two ways in which sending goes wrong.
\<close>

section \<open>Finding a slot\<close>

definition slot_free :: "session \<Rightarrow> nat \<Rightarrow> bool" where
  "slot_free s i \<longleftrightarrow> ss_channel (send_table s ! i) = None \<and> ss_doc (send_table s ! i) = None"

text \<open>The number of slots of the send table that are in use.\<close>

definition occupied :: "session \<Rightarrow> nat" where
  "occupied s = card {i. i < length (send_table s) \<and> \<not> slot_free s i}"

lemma occupied_free:
  assumes "occupied s < length (send_table s)"
  shows "\<exists>j < length (send_table s). slot_free s j"
proof (rule ccontr)
  assume "\<not> ?thesis"
  then have "{i. i < length (send_table s) \<and> \<not> slot_free s i} = {..<length (send_table s)}" by auto
  then show False using assms by (simp add: occupied_def)
qed

lemma occupied_fill:
  assumes "i < length (send_table s)" and "slot_free s i" and "\<not> slot_free s' i" and "send_table s' = (send_table s)[i := e]"
  shows "occupied s' = occupied s + 1"
proof -
  have "{k. k < length (send_table s') \<and> \<not> slot_free s' k} = insert i {k. k < length (send_table s) \<and> \<not> slot_free s k}"
    using assms by (auto simp: slot_free_def nth_list_update split: if_splits)
  moreover have "i \<notin> {k. k < length (send_table s) \<and> \<not> slot_free s k}" using assms(2) by simp
  ultimately show ?thesis by (simp add: occupied_def)
qed

lemma find_slot_reaches:
  assumes "j < length (send_table s)" and "slot_free s j"
    and "(unat (send_doc_no s) div 2 + k) mod length (send_table s) = j"
    and "unat (send_doc_no s) + 2 * k + 2 < 2 ^ 64"
  shows "\<exists>n i. find_slot s = Some (s\<lparr> send_doc_no := n + 2 \<rparr>, n, i) \<and> slot_idx n (send_table s) = Some i \<and> slot_free s i"
  using assms
proof (induction k arbitrary: s)
  case 0
  then have "slot_idx (send_doc_no s) (send_table s) = Some j" by (auto simp: slot_idx_def unat_drop_bit)
  then show ?case using 0 by (subst find_slot.simps) (simp add: Let_def slot_free_def)
next
  case (Suc k)
  let ?i = "unat (send_doc_no s) div 2 mod length (send_table s)" and ?s = "s\<lparr> send_doc_no := send_doc_no s + 2 \<rparr>"
  have i: "slot_idx (send_doc_no s) (send_table s) = Some ?i" using Suc.prems(1) by (auto simp: slot_idx_def unat_drop_bit)
  show ?case
  proof (cases "slot_free s ?i")
    case True
    then show ?thesis using i by (subst find_slot.simps) (simp add: Let_def slot_free_def)
  next
    case False
    have u: "unat (send_doc_no ?s) = unat (send_doc_no s) + 2"
      using Suc.prems(4) by (simp add: unat_plus_if')
    have "\<exists>n i. find_slot ?s = Some (?s\<lparr> send_doc_no := n + 2 \<rparr>, n, i) \<and> slot_idx n (send_table ?s) = Some i \<and> slot_free ?s i"
    proof (rule Suc.IH)
      show "(unat (send_doc_no ?s) div 2 + k) mod length (send_table ?s) = j" using Suc.prems(3) unfolding u by simp
      show "unat (send_doc_no ?s) + 2 * k + 2 < 2 ^ 64" using Suc.prems(4) unfolding u by simp
    qed (use Suc.prems in \<open>simp_all add: slot_free_def\<close>)
    moreover have "find_slot s = find_slot ?s"
      using i False by (subst find_slot.simps) (simp add: Let_def slot_free_def)
    ultimately show ?thesis by (simp add: slot_free_def)
  qed
qed

lemma find_slot_ok:
  assumes j: "j < length (send_table s)" "slot_free s j" and small: "unat (send_doc_no s) + 2 * length (send_table s) < 2 ^ 64"
  shows "\<exists>n i. find_slot s = Some (s\<lparr> send_doc_no := n + 2 \<rparr>, n, i) \<and> slot_idx n (send_table s) = Some i \<and> slot_free s i"
proof -
  let ?D = "unat (send_doc_no s) div 2" and ?l = "length (send_table s)"
  let ?k = "(j + (?l - ?D mod ?l)) mod ?l"
  have "0 < ?l" using j(1) by linarith
  then have le: "?D mod ?l \<le> ?l" "?k < ?l" by (simp_all add: less_imp_le)
  have "(?D + ?k) mod ?l = (?D mod ?l + (j + (?l - ?D mod ?l))) mod ?l" by (simp add: mod_simps)
  also have "\<dots> = (j + ?l) mod ?l" using le(1) by simp
  also have "\<dots> = j" using j(1) by simp
  finally have "(?D + ?k) mod ?l = j" .
  moreover have "unat (send_doc_no s) + 2 * ?k + 2 < 2 ^ 64" using le(2) small by linarith
  ultimately show ?thesis using find_slot_reaches [OF j] by blast
qed

text \<open>When the search returns, the slot has no channel and nothing that receives has changed.\<close>

lemma find_slot_free:
  "find_slot s = Some (s', n, i) \<Longrightarrow> recv_table s' = recv_table s \<and> send_table s' = send_table s \<and> i < length (send_table s') \<and>
     ss_channel (send_table s' ! i) = None \<and> recv_bytes_total s' = recv_bytes_total s \<and> recv_bytes_max s' = recv_bytes_max s \<and>
     is_initiator s' = is_initiator s \<and> send_bytes_max s' = send_bytes_max s"
proof -
  let ?P = "\<lambda>s (s', n :: u64, i). recv_table s' = recv_table s \<and> send_table s' = send_table s \<and> i < length (send_table s') \<and>
    ss_channel (send_table s' ! i) = None \<and> recv_bytes_total s' = recv_bytes_total s \<and> recv_bytes_max s' = recv_bytes_max s \<and>
     is_initiator s' = is_initiator s \<and> send_bytes_max s' = send_bytes_max s"
  have "?P s r" if "find_slot s = Some r" for r
  proof (rule find_slot.raw_induct [OF _ that])
    fix find s r
    assume "\<And>s r. find s = Some r \<Longrightarrow> ?P s r"
      and "(let doc_no = send_doc_no s; s = s\<lparr> send_doc_no := doc_no + 2 \<rparr>
            in case slot_idx doc_no (send_table s) of
                 None \<Rightarrow> None
               | Some i \<Rightarrow> if ss_channel (send_table s ! i) \<noteq> None \<or> ss_doc (send_table s ! i) \<noteq> None then find s
                           else Some (s, doc_no, i)) = Some r"
    then show "?P s r"
      by (fastforce simp: Let_def dest: slot_idx_less split: option.splits if_splits)
  qed
  then show "find_slot s = Some (s', n, i) \<Longrightarrow> recv_table s' = recv_table s \<and> send_table s' = send_table s \<and>
     i < length (send_table s') \<and> ss_channel (send_table s' ! i) = None \<and> recv_bytes_total s' = recv_bytes_total s \<and>
     recv_bytes_max s' = recv_bytes_max s \<and> is_initiator s' = is_initiator s \<and> send_bytes_max s' = send_bytes_max s" by fastforce
qed

section \<open>Sending\<close>

lemma fetch_add_sub:
  assumes "n + 1 < usize_bound"
  shows "fetch_add n 1 = n + 1" and "fetch_sub (n + 1) 1 = n"
  using assms by (simp_all add: fetch_add_def fetch_sub_def usize_bound_def)

lemmas fill_simps = fill_slot_def set_send_slot_def slot_free_def

text \<open>
  The two refusals behind which the count stays incremented, and the two with which it does not; what
  happens when the document is accepted.
\<close>

definition too_large :: "session \<Rightarrow> bytes \<Rightarrow> bool" where
  "too_large s doc \<longleftrightarrow> send_bytes_max s = 0 \<or> word_of_nat (length doc) \<ge> send_bytes_max s"

lemma try_send_cases:
  assumes n: "send_total s + 1 < usize_bound" and b: "unat (send_bytes_total s) + length doc < 2 ^ 64"
  obtains
    (full) "send_total s + 1 \<ge> length (send_table s)" and "try_send_any c doc r s = Some (s, Inl (Try_Full, doc))"
  | (large) e where "send_total s + 1 < length (send_table s)" and "too_large s doc"
      and "e = Try_Abandoned \<or> e = Try_TooLarge"
      and "try_send_any c doc r s = Some (s\<lparr> send_total := send_total s + 1 \<rparr>, Inl (e, doc))"
  | (bytes) "send_total s + 1 < length (send_table s)" and "\<not> too_large s doc"
      and "try_send_any c doc r s = Some (s, Inl (Try_Full, doc))"
  | (accept) "send_total s + 1 < length (send_table s)" and "\<not> too_large s doc"
      and "send_bytes_total s + word_of_nat (length doc) < send_bytes_max s"
      and "try_send_any c doc r s =
        (let s = s\<lparr> send_total := send_total s + 1, send_bytes_total := send_bytes_total s + word_of_nat (length doc) \<rparr> in
         do { (s, doc_no, i) \<leftarrow> find_slot s; Some (fill_slot c doc r doc_no i s, Inr doc_no) })"
proof -
  have l: "unat (word_of_nat (length doc) :: u64) = length doc" using b by (simp add: unat_of_nat take_bit_nat_eq_self)
  note fs = fetch_add_sub [OF n, simplified]
  have ca: "checked_add (send_total s) 1 = Some (send_total s + 1)" using n by (simp add: checked_add_def)
  show thesis
  proof (cases "send_total s + 1 \<ge> length (send_table s)")
    case True
    then show thesis using full ca by (simp add: try_send_any_def Let_def fs)
  next
    case ok: False
    show thesis
    proof (cases "too_large s doc")
      case True
      then show thesis using large [of "if send_bytes_max s = 0 then Try_Abandoned else Try_TooLarge"] ok ca
        by (auto simp: try_send_any_def Let_def fs too_large_def)
    next
      case small: False
      note unfolds = try_send_any_def Let_def fs l
      show thesis
      proof (cases "send_bytes_total s + word_of_nat (length doc) < send_bytes_max s")
        case True
        then show thesis
          by (intro accept [OF _ small]) (use ok small ca b in \<open>simp_all add: unfolds too_large_def flip: not_le\<close>)
      next
        case False
        then show thesis
          by (intro bytes [OF _ small]) (use ok small ca b in \<open>simp_all add: unfolds too_large_def flip: not_le\<close>)
      qed
    qed
  qed
qed


text \<open>A session with two free slots in its send table, for the examples.\<close>

definition sample_sender :: session where
  "sample_sender = sample_session\<lparr> send_total := 0,
     send_table := replicate 2 \<lparr> ss_doc_no = 0, ss_needs_send_close = False, ss_doc = None, ss_channel = None \<rparr> \<rparr>"

lemma sample_sender_free: "occupied sample_sender = 0"
proof -
  have "length (send_table sample_sender) = 2" "slot_free sample_sender 0" "slot_free sample_sender 1"
    by (simp_all add: sample_sender_def slot_free_def)
  then have "{i. i < length (send_table sample_sender) \<and> \<not> slot_free sample_sender i} = {}"
    by (auto dest!: less_2_cases)
  then show ?thesis by (simp add: occupied_def)
qed


section \<open>Refused documents\<close>

lemma refused_step:
  assumes "n + 1 < usize_bound" and "too_large s doc" and "unat (send_bytes_total s) + length doc < 2 ^ 64"
  shows "fst (the (try_send c doc (s\<lparr> send_total := n \<rparr>))) =
           s\<lparr> send_total := if n + 1 < length (send_table s) then n + 1 else n \<rparr>"
proof -
  let ?s = "s\<lparr> send_total := n \<rparr>"
  have "send_total ?s + 1 < usize_bound" "unat (send_bytes_total ?s) + length doc < 2 ^ 64" using assms by simp_all
  then show ?thesis
    by (cases rule: try_send_cases [where c = c and r = NoReply]) (use assms(2) in \<open>simp_all add: try_send_def too_large_def\<close>)
qed

lemma refused_steps:
  assumes "too_large s doc" and "unat (send_bytes_total s) + length doc < 2 ^ 64"
    and "max n (length (send_table s)) + 1 < usize_bound"
  shows "((\<lambda>s. fst (the (try_send c doc s))) ^^ k) (s\<lparr> send_total := n \<rparr>) =
           s\<lparr> send_total := max n (min (n + k) (length (send_table s) - 1)) \<rparr>"
proof (induction k)
  case (Suc k)
  let ?m = "max n (min (n + k) (length (send_table s) - 1))"
  have "?m + 1 < usize_bound" using assms(3) by linarith
  from refused_step [OF this assms(1,2), of c] Suc show ?case by (auto simp: min_def max_def)
qed (simp add: min_def max_def)

text \<open>
   Refused documents eat the session's slots.  A document that is refused as too large (or because
  the session is abandoned) leaves \<open>send_total\<close> incremented.  After as many refusals as the send table
  has slots, no document can be sent any more: \<open>try_send\<close> returns \<open>Full\<close> for every document although
  the table is exactly as it was, all slots free if they were.
\<close>

theorem failed_sends_leak:
  assumes "too_large s doc" and "unat (send_bytes_total s) + length doc < 2 ^ 64"
    and "max (send_total s) (length (send_table s)) + 1 < usize_bound"
    and "s' = ((\<lambda>s. fst (the (try_send c doc s))) ^^ length (send_table s)) s"
  shows "send_table s' = send_table s \<and> send_bytes_total s' = send_bytes_total s \<and>
    try_send c' doc' s' = Some (s', Inl (Try_Full, doc'))"
proof -
  let ?m = "max (send_total s) (length (send_table s) - 1)"
  have s': "s' = s\<lparr> send_total := ?m \<rparr>"
    using refused_steps [OF assms(1,2,3), where c = c and k = "length (send_table s)"] assms(4) by simp
  have m: "?m + 1 < usize_bound" "length (send_table s) \<le> ?m + 1" using assms(3) by linarith+
  then have "try_send c' doc' s' = Some (s', Inl (Try_Full, doc'))"
    unfolding s' try_send_def try_send_any_def using fetch_add_sub [OF m(1)]
    by (simp add: Let_def checked_add_def)
  then show ?thesis by (simp add: s')
qed

theorem failed_sends_leak_witness:
  "\<exists>s'. s' = ((\<lambda>s. fst (the (try_send 3 (replicate 1000 0) s))) ^^ 2) sample_sender \<and> occupied s' = 0 \<and>
     try_send 3 [1, 2, 3] s' = Some (s', Inl (Try_Full, [1, 2, 3]))"
proof -
  let ?s' = "((\<lambda>s. fst (the (try_send 3 (replicate 1000 0) s))) ^^ 2) sample_sender"
  have "?s' = ((\<lambda>s. fst (the (try_send 3 (replicate 1000 0) s))) ^^ length (send_table sample_sender)) sample_sender"
    by (simp add: sample_sender_def)
  from failed_sends_leak [OF _ _ _ this]
  have "send_table ?s' = send_table sample_sender" "try_send 3 [1, 2, 3] ?s' = Some (?s', Inl (Try_Full, [1, 2, 3]))"
    by (simp_all add: too_large_def sample_sender_def sample_session_def usize_bound_def)
  moreover from this(1) have "occupied ?s' = occupied sample_sender" by (simp add: occupied_def slot_free_def)
  ultimately show ?thesis using sample_sender_free by metis
qed

section \<open>What the receiver makes of a document\<close>

lemma find_slot_result:
  assumes "find_slot s = Some (s', n, i)"
  shows "send_table s' = send_table s \<and> slot_idx n (send_table s) = Some i"
proof -
  have "case r of (s', n, i) \<Rightarrow> send_table s' = send_table s \<and> slot_idx n (send_table s) = Some i"
    if "find_slot s = Some r" for r
  proof (rule find_slot.raw_induct [OF _ that])
    fix find s r
    assume "\<And>s r. find s = Some r \<Longrightarrow> case r of (s', n, i) \<Rightarrow> send_table s' = send_table s \<and> slot_idx n (send_table s) = Some i"
      and "(let doc_no = send_doc_no s; s = s\<lparr> send_doc_no := doc_no + 2 \<rparr>
            in case slot_idx doc_no (send_table s) of
                 None \<Rightarrow> None
               | Some i \<Rightarrow> if ss_channel (send_table s ! i) \<noteq> None \<or> ss_doc (send_table s ! i) \<noteq> None then find s
                           else Some (s, doc_no, i)) = Some r"
    then show "case r of (s', n, i) \<Rightarrow> send_table s' = send_table s \<and> slot_idx n (send_table s) = Some i"
      by (fastforce simp: Let_def split: option.splits if_splits)
  qed
  then show ?thesis using assms by auto
qed

lemma try_send_entry:
  assumes "try_send c doc s = Some (s', Inr n)" and "slot_idx n (send_table s') = Some i"
    and "ss_doc (send_table s' ! i) = Some d"
  shows "sd_parent_no d = n" and "sd_data d = doc" and "sd_next_seg_off d = 0"
proof -
  obtain s0 s1 k where s1: "find_slot s0 = Some (s1, n, k)" "s' = fill_slot c doc NoReply n k s1"
    using assms(1) by (auto simp: try_send_def try_send_any_def Let_def split: bind_splits if_splits prod.splits)
  then have "slot_idx n (send_table s1) = Some k" using find_slot_result by metis
  moreover have "length (send_table s') = length (send_table s1)" by (simp add: s1(2) fill_simps)
  ultimately have "k = i" "k < length (send_table s1)" using assms(2) by (auto simp: slot_idx_def split: if_splits)
  then show "sd_parent_no d = n" "sd_data d = doc" "sd_next_seg_off d = 0"
    using assms(3) s1(2) by (auto simp: fill_simps)
qed

text \<open>
  C34.  A document that a channel sends never arrives.  The slot that \<open>try_send\<close> fills names the
  document's own number as its parent; its first segment, cut from the slot and appended to any packet,
  is refused by every receiver as invalid, since a parent has to be an earlier document, and the
  receiver's session does not change.
\<close>

theorem sent_document_rejected:
  assumes "try_send c doc s = Some (s', Inr n)" and "slot_idx n (send_table s') = Some i"
    and "ss_doc (send_table s' ! i) = Some d" and "unat n < 2 ^ 30" and "length doc < 2 ^ 30"
    and "pb_inv p" and "remaining_cap p = Some cap" and "seg_try_new n d closed cap = (d', Inr seg)"
    and "append_seg p seg = Some (p', full)" and "fits_slice (buf p' @ post)"
  shows "\<exists>j. recv_seg (buf p' ! length (buf p)) (buf p' @ post) (length (buf p) + 1) r = Some (r, j, Inl Invalid)"
proof -
  note d = try_send_entry [OF assms(1-3)]
  obtain "next_segment n d closed cap d' seg"
    using assms(8) by (cases rule: seg_try_new_cases [of d n closed cap]) auto
  note ns = this [unfolded next_segment_def]
  have wf: "seg_wf seg" "seg_header_len seg + length (seg_data seg) \<le> cap" and first: "bit (seg_variant seg) 2"
    and f: "seg_doc_no seg = n" "seg_doc_parent_no seg = n" "seg_off seg = 0" "seg_doc_len seg = length doc"
    and data: "seg_data seg = take (length (seg_data seg)) (drop 0 doc)"
    using ns d by auto
  have "length (seg_data seg) \<le> length doc" using arg_cong [OF data, of length] by simp
  then have small: "seg_small seg" using f assms(4,5) by (simp add: seg_small_def)
  have cap: "cap = unat (pb_mtu p) - length (buf p)"
    using assms(7) by (auto simp: remaining_cap_def checked_sub_def split: if_splits)
  have b: "buf p' = buf p @ seg_frame cap seg"
    using append_seg_ok [OF assms(6) wf(1)] wf(2) cap assms(9) by auto
  have v: "(buf p' @ post) ! length (buf p) = buf p' ! length (buf p)" by (simp add: b nth_append seg_frame_def Let_def)
  have "\<exists>j. parse_seg (buf p' ! length (buf p)) (buf p' @ post) (length (buf p) + 1) = Some (Inl Invalid, j)"
    using parse_seg_own_parent [OF wf(1) small first _ _ assms(10), of "buf p" cap post] f b v by simp
  then show ?thesis by (auto simp: recv_seg_def)
qed

theorem sent_document_rejected_witness:
  "\<exists>s' n i d d' seg p' full j. try_send 3 [1, 2, 3] sample_sender = Some (s', Inr n) \<and> slot_idx n (send_table s') = Some i \<and>
     ss_doc (send_table s' ! i) = Some d \<and> seg_try_new n d False 92 = (d', Inr seg) \<and>
     append_seg (packet_new 100) seg = Some (p', full) \<and>
     recv_seg (buf p' ! HEADER_LEN) (buf p') (HEADER_LEN + 1) sample_session = Some (sample_session, j, Inl Invalid)"
proof -
  have f: "find_slot (sample_sender\<lparr> send_total := 1, send_bytes_total := 3 \<rparr>) =
      Some (sample_sender\<lparr> send_total := 1, send_bytes_total := 3, send_doc_no := 7 \<rparr>, 5, 0)"
    by (subst find_slot.simps) (simp add: sample_sender_def sample_session_def slot_idx_def)
  let ?s = "fill_slot 3 [1, 2, 3] NoReply 5 0 (sample_sender\<lparr> send_total := 1, send_bytes_total := 3, send_doc_no := 7 \<rparr>)"
  have t: "try_send 3 [1, 2, 3] sample_sender = Some (?s, Inr 5)"
    using f by (simp add: try_send_def try_send_any_def Let_def sample_sender_def sample_session_def fetch_add_def
        checked_add_def usize_bound_def)
  have e: "slot_idx 5 (send_table ?s) = Some 0"
    by (simp add: slot_idx_def fill_simps sample_sender_def)
  obtain d where d: "ss_doc (send_table ?s ! 0) = Some d" "sd_next_seg_off d = 0" "sd_data d = [1, 2, 3]"
    by (simp add: fill_simps sample_sender_def)
  obtain d' seg where c: "seg_try_new 5 d False 92 = (d', Inr seg)" "next_segment 5 d False 92 d' seg"
    by (cases rule: seg_try_new_cases [of d 5 False 92]) (auto simp: d MAX_SEG_HEADER_LEN_def MIN_SEG_DATA_LEN_def)
  have p: "pb_inv (packet_new 100)" "remaining_cap (packet_new 100) = Some 92" "length (buf (packet_new 100)) = HEADER_LEN"
    by (simp_all add: pb_inv_def packet_new_def HEADER_LEN_def remaining_cap_def checked_sub_def)
  obtain p' full where a: "append_seg (packet_new 100) seg = Some (p', full)" "pb_inv p'" "pb_mtu p' = 100"
    using append_seg_ok [OF p(1), of seg] c(2) by (auto simp: next_segment_def packet_new_def HEADER_LEN_def)
  have "fits_slice (buf p' @ [])" using a(2,3) by (simp add: pb_inv_def fits_slice_def)
  from sent_document_rejected [OF t e d(1) _ _ p(1,2) c(1) a(1) this, of sample_session] show ?thesis
    using t e d(1) c(1) a(1) by (fastforce simp: p(3))
qed

section \<open>Closing\<close>

lemma drop_one_keeps:
  assumes "drop_one n l s = Some (s', docs)"
  shows "send_table s' = send_table s \<and> set (woken s) \<subseteq> set (woken s') \<and> set (scheduled s) \<subseteq> set (scheduled s')"
  using assms
  by (auto simp: drop_one_def Let_def set_recv_slot_def drop_doc_state_def drop_flushers_def wake_all_def schedule_send_control_def
      split: option.splits if_splits recv_doc_state.splits)

lemma drop_docs_keep:
  "drop_unfinished_docs ds s = Some s' \<Longrightarrow>
     send_table s' = send_table s \<and> set (woken s) \<subseteq> set (woken s') \<and> set (scheduled s) \<subseteq> set (scheduled s')"
proof (induction ds arbitrary: s)
  case (Cons d ds)
  have loop: "send_table s' = send_table s \<and> set (woken s) \<subseteq> set (woken s') \<and> set (scheduled s) \<subseteq> set (scheduled s')"
    if "drop_loop stack s = Some s'" for stack s s'
    using that
  proof (induction stack s rule: drop_loop.induct)
    case (2 n l stack s)
    then obtain s1 docs where "drop_one n l s = Some (s1, docs)"
      "drop_loop (map (\<lambda>d. (ur_doc_no d, length (ur_buf d))) docs @ stack) s1 = Some s'"
      by (auto split: option.splits)
    with drop_one_keeps [of n l s s1 docs] "2.IH" [of "(s1, docs)" s1 docs] show ?case by auto
  qed simp
  from Cons.prems obtain s1 where s1: "drop_loop [(ur_doc_no d, length (ur_buf d))] s = Some s1" "drop_unfinished_docs ds s1 = Some s'"
    by (auto simp: drop_unfinished_recv_doc_def split: bind_splits)
  from loop [OF s1(1)] Cons.IH [OF s1(2)] show ?case by auto
qed simp

text \<open>The slot of the document of a handle of the sender.\<close>

definition handle_slot :: "channel \<Rightarrow> session \<Rightarrow> nat \<Rightarrow> open_channel \<Rightarrow> bool" where
  "handle_slot c s i ch \<longleftrightarrow> is_sending s (channel_doc_no c) \<and> slot_idx (channel_doc_no c) (send_table s) = Some i \<and>
     ss_doc_no (send_table s ! i) = channel_doc_no c \<and> ss_channel (send_table s ! i) = Some ch"

lemma close_if_inner_slot:
  assumes "handle_slot c s i ch"
  defines "e \<equiv> send_table s ! i"
  shows "close_if_inner c f s =
    (case f ch of
       None \<Rightarrow> None
     | Some (ch, False) \<Rightarrow> Some (set_send_slot i (e\<lparr> ss_channel := Some ch \<rparr>) s, Inl Closed)
     | Some (ch, True) \<Rightarrow>
         map_option (\<lambda>s. (s, Inr ())) (drop_closed_channel (Some ch)
           (schedule_send_control VARIANT_CONTROL_CLOSE (channel_doc_no c)
              (set_send_slot i (e\<lparr> ss_channel := None, ss_needs_send_close := True \<rparr>) s))))"
  using assms by (auto simp: handle_slot_def close_if_inner_def Let_def drop_closed_channel_def split: option.splits bool.splits bind_splits)

lemma closed_slot:
  assumes "handle_slot c s i ch"
    and "drop_closed_channel (Some ch') (schedule_send_control VARIANT_CONTROL_CLOSE n
           (set_send_slot i ((send_table s ! i)\<lparr> ss_channel := None, ss_needs_send_close := True \<rparr>) s)) = Some s'"
  shows "ss_channel (send_table s' ! i) = None \<and> ss_needs_send_close (send_table s' ! i) \<and>
    (VARIANT_CONTROL_CLOSE, n) \<in> set (scheduled s') \<and> set (ready_wakers ch') \<subseteq> set (woken s') \<and>
    (\<forall>b w. reply_buffer ch' = Awaiting b w \<longrightarrow> w \<in> set (woken s'))"
proof -
  have i: "i < length (send_table s)" using assms(1) by (auto simp: handle_slot_def dest: slot_idx_less)
  obtain s1 where s1: "drop_unfinished_docs (rev (ready_docs ch')) (schedule_send_control VARIANT_CONTROL_CLOSE n
           (set_send_slot i ((send_table s ! i)\<lparr> ss_channel := None, ss_needs_send_close := True \<rparr>) s)) = Some s1"
    and s': "s' = reply_wake (reply_buffer ch') (wake_all (ready_wakers ch') s1)"
    using assms(2) by (auto simp: drop_closed_channel_def split: bind_splits)
  from drop_docs_keep [OF s1]
  have "send_table s1 = (send_table s)[i := (send_table s ! i)\<lparr> ss_channel := None, ss_needs_send_close := True \<rparr>]"
    "(VARIANT_CONTROL_CLOSE, n) \<in> set (scheduled s1)"
    by (auto simp: schedule_send_control_def set_send_slot_def)
  then show ?thesis using i by (auto simp: s' reply_wake_def wake_all_def split: special_reply_state.splits)
qed



end
