(* ===== verification/Transmit.thy ===== *)
theory Transmit
  imports Complex_Main Session_Recv Packet_Correct
begin

text \<open>
  Sending, \<open>session/src/send.rs\<close> and \<open>send_now\<close> of \<open>packet_builder.rs\<close>.  \<open>transmit\<close> fills packets with
  acknowledgements, with the frames of packets that were not acknowledged in time and with the
  documents of the send queue, and hands every full packet to the closure \<open>queue\<close>; the calls of
  \<open>queue\<close> are recorded in order.

  The congestion control has no body yet: the number of packets it allows is an argument, and its
  calls are counted.  Times are only compared, so they are real numbers; the retransmission limit
  that \<open>transmit\<close> computes is an argument too.
\<close>

section \<open>State\<close>

record sent_payload =
  packet_uid :: u64
  sent_at :: real
  sp_resend_len :: u32
  sp_frames :: "eliciting_frame list"

text \<open>What a run of \<open>transmit\<close> works on: the packet being filled, the budget, the packets queued so far.\<close>

record tx =
  tx_packet :: packet_builder
  tx_budget :: nat
  tx_queued :: "packet_builder list"
  tx_orphans :: "eliciting_frame list"
  tx_congestions :: nat

text \<open>
  The statements with which every full packet leaves: it is queued, the budget is decremented, and
  \<open>transmit\<close> returns when nothing is left of it (the flag of the result).
\<close>

definition queue_packet :: "u32 \<Rightarrow> tx \<Rightarrow> (tx \<times> bool) option" where
  "queue_packet mtu t =
     do {
       b \<leftarrow> checked_sub (tx_budget t) 1;
       let t = t\<lparr> tx_queued := tx_queued t @ [tx_packet t], tx_budget := b \<rparr>;
       Some (if b = 0 then (t, True) else (t\<lparr> tx_packet := packet_new mtu \<rparr>, False))
     }"

text \<open>The same behind an append that says whether the packet is full now.\<close>

definition after_append :: "u32 \<Rightarrow> (packet_builder \<times> bool) option \<Rightarrow> tx \<Rightarrow> (tx \<times> bool) option" where
  "after_append mtu r t =
     do {
       (p, send_now) \<leftarrow> r;
       let t = t\<lparr> tx_packet := p \<rparr>;
       if send_now then queue_packet mtu t else Some (t, False)
     }"

section \<open>Acknowledgements\<close>

text \<open>A socket is its local id and the acknowledgements that are due on it.\<close>

fun send_acks :: "u32 \<Rightarrow> bool \<Rightarrow> (u32 \<times> u32 list) list \<Rightarrow> tx \<Rightarrow> (tx \<times> (u32 \<times> u32 list) list \<times> bool) option" where
  "send_acks mtu idx [] t = Some (t, [], False)"
| "send_acks mtu idx ((local_id, acks) # sockets) t =
     do {
       (p, acks, send_now) \<leftarrow> append_sorted_acks (tx_packet t) acks idx local_id;
       (t, ret) \<leftarrow> after_append mtu (Some (p, send_now)) t;
       if ret then Some (t, (local_id, acks) # sockets, True)
       else do {
         (t, sockets, ret) \<leftarrow> send_acks mtu True sockets t;
         Some (t, (local_id, acks) # sockets, ret)
       }
     }"

section \<open>Sending again\<close>

definition resend_ratio :: "u32 \<Rightarrow> u32 option" where
  "resend_ratio mtu = (if unat mtu * 2 < 2 ^ 32 then Some (mtu * 2 div 3) else None)"

text \<open>
  A segment of which something is left over has filled the packet.  With this, the loop that appends
  what is left over to the next packet uses up the budget.
\<close>

lemma split_seg_fields:
  "split_seg seg v h cap = Some (s1, s2) \<Longrightarrow>
     variant_and_header_len s1 = pack_variant v h \<and> seg_data s1 = take (cap - h) (seg_data seg)"
  by (auto simp: split_seg_def Let_def split: option.splits if_splits)

lemma append_exact_full:
  assumes "append_seg p seg = Some (p', full)" and "length (buf p) \<le> unat (pb_mtu p)"
    and "seg_header_len seg + length (seg_data seg) = unat (pb_mtu p) - length (buf p)"
  shows full
proof -
  let ?b = "write_header (buf p) (seg_variant seg) seg"
  have h: "seg_header_len seg = length ?b - length (buf p)"
    using assms(1) by (auto simp: append_seg_def Let_def split: if_splits)
  then have l: "length ?b + length (seg_data seg) = unat (pb_mtu p)"
    using assms(2,3) by (simp add: write_header_bytes)
  then have "checked_sub (unat (pb_mtu p)) (length ?b) = Some (length (seg_data seg))"
    by (simp add: checked_sub_def flip: l)
  then show ?thesis
    using assms(1) h l
    by (auto simp: append_seg_def Let_def write_data_def is_full_def remaining_cap_def checked_sub_def MIN_FRAME_APPEND_LEN_def
        split: option.splits if_splits)
qed

lemma rest_fills:
  assumes "try_append_seg p seg = Some (p', full, Some rest)"
  shows full
proof -
  obtain cap where cap: "remaining_cap p = Some cap" using assms by (auto simp: try_append_seg_def split: option.splits)
  then have c: "cap = unat (pb_mtu p) - length (buf p)" "length (buf p) \<le> unat (pb_mtu p)"
    by (auto simp: remaining_cap_def checked_sub_def split: if_splits)
  have "cap < 2 ^ 56" using unsigned_less [of "pb_mtu p", where ?'a = nat] by (simp add: c(1))
  have "full \<or> (\<exists>h v s1 s2. h + MIN_SEG_DATA_LEN \<le> cap \<and> cap < h + length (seg_data seg) \<and>
      split_seg seg v h cap = Some (s1, s2) \<and> append_seg p s1 = Some (p', full))"
    using assms cap by (fastforce simp: try_append_seg_def Let_def not_less split: option.splits if_splits)
  then consider full | h v s1 s2 where "h + MIN_SEG_DATA_LEN \<le> cap" "cap < h + length (seg_data seg)"
      "split_seg seg v h cap = Some (s1, s2)" "append_seg p s1 = Some (p', full)"
    by blast
  then show ?thesis
  proof cases
    case (2 h v s1 s2)
    from split_seg_fields [OF 2(3)] have "seg_header_len s1 = h" "length (seg_data s1) = cap - h"
      using 2(1,2) \<open>cap < 2 ^ 56\<close> by auto
    then show ?thesis using append_exact_full [OF 2(4) c(2)] 2(1) c(1) by simp
  qed
qed

lemma after_append_budget:
  "after_append mtu (Some (p, True)) t = Some (t', ret) \<Longrightarrow> tx_budget t' < tx_budget t"
  by (auto simp: after_append_def queue_packet_def checked_sub_def Let_def split: if_splits bind_splits)

function resend_seg :: "u32 \<Rightarrow> eliciting_frame list \<Rightarrow> segment \<Rightarrow> tx \<Rightarrow> (tx \<times> bool) option" where
  "resend_seg mtu frames seg t =
     (case try_append_seg (tx_packet t) seg of
        None \<Rightarrow> None
      | Some (p, send_now, overflow) \<Rightarrow>
          (case after_append mtu (Some (p, send_now)) t of
             None \<Rightarrow> None
           | Some (t', ret) \<Rightarrow>
               if ret then
                 Some (t'\<lparr> tx_orphans := tx_orphans t' @
                   (case overflow of Some seg \<Rightarrow> Seg seg # frames | None \<Rightarrow> frames) \<rparr>, True)
               else (case overflow of Some seg \<Rightarrow> resend_seg mtu frames seg t' | None \<Rightarrow> Some (t', False))))"
  by pat_completeness auto

termination
  by (relation "measure (\<lambda>(mtu, frames, seg, t). tx_budget t)") (auto dest!: rest_fills after_append_budget)

declare resend_seg.simps [simp del]

fun resend_frames :: "u32 \<Rightarrow> eliciting_frame list \<Rightarrow> tx \<Rightarrow> (tx \<times> bool) option" where
  "resend_frames mtu [] t = Some (t, False)"
| "resend_frames mtu (Seg seg # frames) t =
     do {
       (t, ret) \<leftarrow> resend_seg mtu frames seg t;
       if ret then Some (t, True) else resend_frames mtu frames t
     }"
| "resend_frames mtu (Control variant doc_no # frames) t =
     do {
       (t, ret) \<leftarrow> after_append mtu (append_control (tx_packet t) variant doc_no) t;
       if ret then Some (t\<lparr> tx_orphans := tx_orphans t @ frames \<rparr>, True) else resend_frames mtu frames t
     }"

text \<open>
  Sending the frames of one packet again.  Where the code asserts that a state is unreachable while a
  second packet is open, the model has \<open>None\<close>, as for every panic.
\<close>

definition own_packet :: "u32 \<Rightarrow> sent_payload \<Rightarrow> tx \<Rightarrow> bool option" where
  "own_packet mtu payload t =
     do {
       cap \<leftarrow> remaining_cap (tx_packet t);
       if unat (sp_resend_len payload) > cap then do {
         ratio \<leftarrow> resend_ratio mtu;
         Some (ratio < sp_resend_len payload \<and> sp_resend_len payload \<le> mtu \<and> tx_budget t > 1)
       }
       else Some False
     }"

definition resend_payload :: "u32 \<Rightarrow> sent_payload \<Rightarrow> tx \<Rightarrow> (tx \<times> bool) option" where
  "resend_payload mtu payload t =
     do {
       own \<leftarrow> own_packet mtu payload t;
       if own then do {
         let temp_packet = tx_packet t;
         (t, ret) \<leftarrow> resend_frames mtu (sp_frames payload) (t\<lparr> tx_packet := packet_new mtu \<rparr>);
         if ret then None
         else do {
           (t, ret) \<leftarrow> queue_packet mtu t;
           if ret then None else Some (t\<lparr> tx_packet := temp_packet \<rparr>, False)
         }
       }
       else resend_frames mtu (sp_frames payload) t
     }"

text \<open>The loop that takes expired packets from the front of the queue.\<close>

fun pop_expired ::
  "real \<Rightarrow> sent_payload list \<Rightarrow> u64 set \<Rightarrow> sent_payload option \<Rightarrow> sent_payload list \<times> u64 set \<times> sent_payload option" where
  "pop_expired rto [] unacked resend = ([], unacked, resend)"
| "pop_expired rto (p # ps) unacked resend =
     (if sent_at p < rto
      then pop_expired rto ps (unacked - {packet_uid p}) (if packet_uid p \<in> unacked then Some p else resend)
      else (p # ps, unacked, resend))"

lemma pop_expired_shorter:
  "pop_expired rto q un r = (q', un', r') \<Longrightarrow> length q' \<le> length q \<and> (r' \<noteq> r \<longrightarrow> length q' < length q)"
  by (induction rto q un r rule: pop_expired.induct) (fastforce split: if_splits)+

function resend_loop ::
  "u32 \<Rightarrow> real \<Rightarrow> sent_payload list \<Rightarrow> u64 set \<Rightarrow> tx \<Rightarrow> (sent_payload list \<times> u64 set \<times> tx \<times> bool) option" where
  "resend_loop mtu rto q unacked t =
     (case pop_expired rto q unacked None of
        (q', unacked', None) \<Rightarrow> Some (q', unacked', t, False)
      | (q', unacked', Some payload) \<Rightarrow>
          (case resend_payload mtu payload (t\<lparr> tx_congestions := tx_congestions t + 1 \<rparr>) of
             None \<Rightarrow> None
           | Some (t, ret) \<Rightarrow> if ret then Some (q', unacked', t, True) else resend_loop mtu rto q' unacked' t))"
  by pat_completeness auto

termination
  by (relation "measure (\<lambda>(mtu, rto, q, un, t). length q)") (auto dest!: pop_expired_shorter [OF sym])

declare resend_loop.simps [simp del]

section \<open>The send queue\<close>

text \<open>What becomes of a number taken from the queue: go on, return, or put it back and return.\<close>

datatype flow = Next | Return | Return_Front

definition flow_of :: "(tx \<times> bool) option \<Rightarrow> (tx \<times> flow) option" where
  "flow_of r = map_option (\<lambda>(t, ret). (t, if ret then Return else Next)) r"

text \<open>Appending a control frame for a slot whose request to send it has been reset.\<close>

definition send_control :: "u32 \<Rightarrow> u8 \<Rightarrow> u64 \<Rightarrow> session \<Rightarrow> tx \<Rightarrow> (session \<times> tx \<times> flow) option" where
  "send_control mtu variant doc_no s t =
     map_option (\<lambda>(t, f). (s, t, f)) (flow_of (after_append mtu (append_control (tx_packet t) variant doc_no) t))"

definition send_seg :: "u32 \<Rightarrow> nat \<Rightarrow> send_doc \<Rightarrow> segment \<Rightarrow> session \<Rightarrow> tx \<Rightarrow> (session \<times> tx \<times> flow) option" where
  "send_seg mtu i doc seg s t =
     (let s = set_send_slot i ((send_table s ! i)\<lparr> ss_doc := Some doc, ss_needs_send_close := False \<rparr>) s in
      map_option (\<lambda>(t, f). (s, t, f)) (flow_of (after_append mtu (append_seg (tx_packet t) seg) t)))"

definition reset_send_close :: "nat \<Rightarrow> session \<Rightarrow> session" where
  "reset_send_close i s = set_send_slot i ((send_table s ! i)\<lparr> ss_needs_send_close := False \<rparr>) s"

text \<open>The slot has no document any more.\<close>

definition send_fin_close :: "u32 \<Rightarrow> u64 \<Rightarrow> nat \<Rightarrow> session \<Rightarrow> tx \<Rightarrow> (session \<times> tx \<times> flow) option" where
  "send_fin_close mtu doc_no i s t =
     (if ss_needs_send_close (send_table s ! i)
      then send_control mtu (VARIANT_CONTROL_CLOSE OR VARIANT_CONTROL_FIN) doc_no (reset_send_close i s) t
      else Some (s, t, Next))"

text \<open>The next segment did not fit: it is cut again for a new packet.\<close>

definition send_in_next :: "u32 \<Rightarrow> u64 \<Rightarrow> nat \<Rightarrow> session \<Rightarrow> tx \<Rightarrow> (session \<times> tx \<times> flow) option" where
  "send_in_next mtu doc_no i s t =
     do {
       (t, ret) \<leftarrow> queue_packet mtu t;
       if ret then Some (s, t, Return_Front)
       else (case ss_doc (send_table s ! i) of
           Some doc \<Rightarrow> do {
             cap \<leftarrow> remaining_cap (tx_packet t);
             case seg_try_new doc_no doc (ss_channel (send_table s ! i) = None) cap of
               (doc, Inr seg) \<Rightarrow> send_seg mtu i doc seg s t
             | (_, Inl _) \<Rightarrow> Some (s, t, Next)
           }
         | None \<Rightarrow> send_fin_close mtu doc_no i s t)
     }"

definition send_doc_frames :: "u32 \<Rightarrow> u64 \<Rightarrow> session \<Rightarrow> tx \<Rightarrow> (session \<times> tx \<times> flow) option" where
  "send_doc_frames mtu doc_no s t =
     do {
       i \<leftarrow> slot_idx doc_no (send_table s);
       let entry = send_table s ! i;
       if ss_doc_no entry \<noteq> doc_no then Some (s, t, Next)
       else (case ss_doc entry of
           Some doc \<Rightarrow> do {
             cap \<leftarrow> remaining_cap (tx_packet t);
             case seg_try_new doc_no doc (ss_channel entry = None) cap of
               (doc, Inr seg) \<Rightarrow> send_seg mtu i doc seg s t
             | (_, Inl False) \<Rightarrow>
                 if ss_needs_send_close entry then send_control mtu VARIANT_CONTROL_CLOSE doc_no (reset_send_close i s) t
                 else Some (s, t, Next)
             | (_, Inl True) \<Rightarrow> send_in_next mtu doc_no i s t
           }
         | None \<Rightarrow> send_fin_close mtu doc_no i s t)
     }"

definition recv_doc_frames :: "u32 \<Rightarrow> u64 \<Rightarrow> session \<Rightarrow> tx \<Rightarrow> (session \<times> tx \<times> flow) option" where
  "recv_doc_frames mtu doc_no s t =
     do {
       i \<leftarrow> slot_idx doc_no (recv_table s);
       let entry = recv_table s ! i;
       if rs_doc_no entry \<noteq> doc_no \<or> \<not> rs_needs_send_control entry then Some (s, t, Next)
       else send_control mtu
         (flag (rs_channel entry = None) VARIANT_CONTROL_CLOSE OR flag (slot_is_fin (rs_doc entry)) VARIANT_CONTROL_FIN) doc_no
         (set_recv_slot i (entry\<lparr> rs_needs_send_control := False \<rparr>) s) t
     }"

fun send_loop :: "u32 \<Rightarrow> u64 list \<Rightarrow> session \<Rightarrow> tx \<Rightarrow> (session \<times> tx \<times> bool) option" where
  "send_loop mtu [] s t = Some (s\<lparr> send_queue := [] \<rparr>, t, False)"
| "send_loop mtu (doc_no # q) s t =
     do {
       (s, t, f) \<leftarrow> (if is_sending s doc_no then send_doc_frames mtu doc_no s t else recv_doc_frames mtu doc_no s t);
       case f of
         Next \<Rightarrow> send_loop mtu q s t
       | Return \<Rightarrow> Some (s\<lparr> send_queue := q \<rparr>, t, True)
       | Return_Front \<Rightarrow> Some (s\<lparr> send_queue := doc_no # q \<rparr>, t, True)
     }"

section \<open>Transmitting\<close>

record transmission =
  tr_sockets :: "(u32 \<times> u32 list) list"
  tr_packet_queue :: "sent_payload list"
  tr_unacked :: "u64 set"
  tr_orphans :: "eliciting_frame list"
  tr_session :: session

text \<open>
  The packets queued and the state afterwards.  The last packet is to be sent with \<open>send_now\<close>, but the
  time that is passed to it is \<open>todo!()\<close>, which panics.
\<close>

definition transmit :: "nat \<Rightarrow> real \<Rightarrow> transmission \<Rightarrow> (transmission \<times> packet_builder list) option" where
  "transmit packet_budget rto tr =
     (let mtu = session_mtu (tr_session tr) in
      if packet_budget = 0 then Some (tr, [])
      else do {
        let t = \<lparr> tx_packet = packet_new mtu, tx_budget = packet_budget, tx_queued = [], tx_orphans = tr_orphans tr,
                  tx_congestions = 0 \<rparr>;
        (t, sockets, ret) \<leftarrow> send_acks mtu False (tr_sockets tr) t;
        let tr = tr\<lparr> tr_sockets := sockets \<rparr>;
        if ret then Some (tr, tx_queued t)
        else do {
          (q, unacked, t, ret) \<leftarrow> resend_loop mtu rto (tr_packet_queue tr) (tr_unacked tr) t;
          let tr = tr\<lparr> tr_packet_queue := q, tr_unacked := unacked, tr_orphans := tx_orphans t \<rparr>;
          if ret then Some (tr, tx_queued t)
          else do {
            (s, t, ret) \<leftarrow> send_loop mtu (send_queue (tr_session tr)) (tr_session tr) t;
            let tr = tr\<lparr> tr_session := s \<rparr>;
            if ret \<or> is_empty (tx_packet t) then Some (tr, tx_queued t) else None
          }
        }
      })"

section \<open>Acknowledged packets\<close>

definition uid_of :: "u32 \<Rightarrow> u32 \<Rightarrow> u64" where
  "uid_of socket_uid packet_no = ucast packet_no OR push_bit 32 (ucast socket_uid)"

text \<open>The result of decoding is ignored; the index behind the frame is returned.\<close>

definition acknowledged :: "u32 \<Rightarrow> u8 \<Rightarrow> bytes \<Rightarrow> nat \<Rightarrow> u64 set \<Rightarrow> (u64 set \<times> nat) option" where
  "acknowledged socket_uid variant packet i unacked =
     (case decode packet (variant = VARIANT_ACK_RUN) i of
        None \<Rightarrow> None
      | Some (_, i, acks) \<Rightarrow> Some (unacked - uid_of socket_uid ` set acks, i))"

text \<open>
  Sending a packet.  The sockets are their uids; encryption, which is not written yet, is a function
  of the index of the socket and the packet, to the packet number and the packet on the wire.  The
  number \<open>random\<close> is what \<open>rand::random\<close> returns.
\<close>

definition send_now ::
  "(nat \<Rightarrow> bytes \<Rightarrow> u32 \<times> bytes) \<Rightarrow> u64 \<Rightarrow> u32 list \<Rightarrow> nat \<Rightarrow> packet_builder \<Rightarrow> real \<Rightarrow> transmission \<Rightarrow>
   (transmission \<times> bytes) option" where
  "send_now encrypt_in_place random sockets cur_idx packet now tr =
     (let b = buf packet @ replicate FOOTER_LEN 0 in
      do {
        (uid, wire) \<leftarrow>
          (case socket_binding packet of
             Some (socket_idx, socket_uid) \<Rightarrow>
               (if of_bool socket_idx < length sockets then
                  Some (if sockets ! of_bool socket_idx = socket_uid then
                          (let (packet_no, b) = encrypt_in_place (of_bool socket_idx) b in (uid_of socket_uid packet_no, b))
                        else (random, b))
                else None)
           | None \<Rightarrow>
               (if cur_idx < length sockets then
                  Some (let (packet_no, b) = encrypt_in_place cur_idx b in (uid_of (sockets ! cur_idx) packet_no, b))
                else None));
        Some (tr\<lparr> tr_unacked := insert uid (tr_unacked tr),
                 tr_packet_queue := tr_packet_queue tr @
                   [\<lparr> packet_uid = uid, sent_at = now, sp_resend_len = resend_len packet, sp_frames = eliciting_frames packet \<rparr>] \<rparr>,
              wire)
      })"

end
