(* ===== verification/Transmit_Correct.thy ===== *)
theory Transmit_Correct
  imports Transmit Recv_Tables
begin

text \<open>
  What sending guarantees: the frames of a packet that is sent again all go into new packets or stay
  behind as orphans, byte by byte, and no run of \<open>transmit\<close> exceeds its budget.  And where it fails: packets
  that expire together, documents longer than a packet, acknowledgements of several sockets.
\<close>

section \<open>Sending a packet again\<close>

text \<open>What frames carry: bytes of documents at their offsets, and control signals.\<close>

fun content :: "eliciting_frame \<Rightarrow> ((u64 \<times> nat \<times> u8) + (u8 \<times> u64)) list" where
  "content (Seg s) = map (\<lambda>k. Inl (seg_doc_no s, seg_off s + k, seg_data s ! k)) [0..<length (seg_data s)]"
| "content (Control v n) = [Inr (v, n)]"

definition contents :: "eliciting_frame list \<Rightarrow> ((u64 \<times> nat \<times> u8) + (u8 \<times> u64)) list" where
  "contents fs = concat (map content fs)"

definition queued_content :: "tx \<Rightarrow> ((u64 \<times> nat \<times> u8) + (u8 \<times> u64)) list" where
  "queued_content t = contents (concat (map eliciting_frames (tx_queued t)))"

definition carried :: "tx \<Rightarrow> ((u64 \<times> nat \<times> u8) + (u8 \<times> u64)) list" where
  "carried t = queued_content t @ contents (eliciting_frames (tx_packet t))"

lemma contents_simps [simp]:
  "contents [] = []" "contents (f # fs) = content f @ contents fs" "contents (fs @ gs) = contents fs @ contents gs"
  by (simp_all add: contents_def)

lemma content_split:
  assumes "seg_data s1 @ seg_data s2 = seg_data seg" and "seg_off s1 = seg_off seg"
    and "seg_off s2 = seg_off seg + length (seg_data s1)" and "seg_doc_no s1 = seg_doc_no seg" and "seg_doc_no s2 = seg_doc_no seg"
  shows "content (Seg s1) @ content (Seg s2) = content (Seg seg)"
proof (rule nth_equalityI)
  have l: "length (seg_data seg) = length (seg_data s1) + length (seg_data s2)" by (simp flip: assms(1))
  then show "length (content (Seg s1) @ content (Seg s2)) = length (content (Seg seg))" by simp
  fix k assume "k < length (content (Seg s1) @ content (Seg s2))"
  moreover have "seg_data seg ! k = (if k < length (seg_data s1) then seg_data s1 ! k else seg_data s2 ! (k - length (seg_data s1)))"
    unfolding assms(1) [symmetric] by (simp add: nth_append)
  moreover have "k - length (seg_data s1) < length (seg_data s2)" if "\<not> k < length (seg_data s1)"
    using calculation(1) that by simp
  ultimately show "(content (Seg s1) @ content (Seg s2)) ! k = content (Seg seg) ! k"
    using assms(2-5) l by (simp add: nth_append)
qed

text \<open>A run of \<open>transmit\<close> that goes on: its packet is in order and has room, and there is budget left.\<close>

definition tx_ok :: "u32 \<Rightarrow> tx \<Rightarrow> bool" where
  "tx_ok mtu t \<longleftrightarrow> pb_inv (tx_packet t) \<and> pb_mtu (tx_packet t) = mtu \<and> is_full (tx_packet t) = Some False \<and> 0 < tx_budget t"

text \<open>An MTU with which every segment header and the least data fit a packet.\<close>

definition mtu_ok :: "u32 \<Rightarrow> bool" where
  "mtu_ok mtu \<longleftrightarrow> HEADER_LEN + MIN_MTU \<le> unat mtu"

text \<open>
  The result of appending frames that carry \<open>c\<close>, with the frames \<open>fs\<close> still to come.  If \<open>transmit\<close> goes on,
  \<open>c\<close> is carried in addition; if it returns, what is not in a queued packet is among the orphans.
\<close>

definition tx_result ::
  "u32 \<Rightarrow> tx \<Rightarrow> ((u64 \<times> nat \<times> u8) + (u8 \<times> u64)) list \<Rightarrow> eliciting_frame list \<Rightarrow> (tx \<times> bool) option \<Rightarrow> bool" where
  "tx_result mtu t c fs r \<longleftrightarrow> (\<exists>t' ret. r = Some (t', ret) \<and>
     tx_budget t' + length (tx_queued t') = tx_budget t + length (tx_queued t) \<and>
     (if ret then tx_budget t' = 0 \<and>
        (\<exists>os. tx_orphans t' = tx_orphans t @ os \<and> queued_content t' @ contents os = carried t @ c @ contents fs)
      else tx_ok mtu t' \<and> tx_orphans t' = tx_orphans t \<and> carried t' = carried t @ c))"

lemma tx_result_shift:
  assumes "tx_result mtu t' c' fs r" and eq: "carried t' @ c' = carried t @ c" and "tx_orphans t' = tx_orphans t"
    and "tx_budget t' + length (tx_queued t') = tx_budget t + length (tx_queued t)"
  shows "tx_result mtu t c fs r"
proof -
  have "carried t' @ c' @ x = carried t @ c @ x" for x using eq by (metis append_assoc)
  then show ?thesis using assms unfolding tx_result_def by (simp only: eq)
qed

lemma packet_new_ok:
  assumes "mtu_ok mtu"
  shows "pb_inv (packet_new mtu)" and "pb_mtu (packet_new mtu) = mtu" and "is_full (packet_new mtu) = Some False"
    and "length (buf (packet_new mtu)) = HEADER_LEN" and "eliciting_frames (packet_new mtu) = []"
  using assms
  by (auto simp: pb_inv_def packet_new_def mtu_ok_def is_full_def remaining_cap_def checked_sub_def MIN_MTU_def
      MAX_SEG_HEADER_LEN_def MIN_SEG_DATA_LEN_def MIN_FRAME_APPEND_LEN_def)

text \<open>Behind every append: the packet stays or is queued and the next one is begun.\<close>

lemma after_append_result:
  assumes "mtu_ok mtu" and "0 < tx_budget t" and "pb_inv p" and "pb_mtu p = mtu" and "full \<or> is_full p = Some False"
  obtains t' ret where "after_append mtu (Some (p, full)) t = Some (t', ret)"
    and "tx_orphans t' = tx_orphans t" and "tx_budget t' + length (tx_queued t') = tx_budget t + length (tx_queued t)"
    and "ret \<Longrightarrow> full \<and> tx_budget t' = 0 \<and> queued_content t' = queued_content t @ contents (eliciting_frames p)"
    and "\<not> ret \<Longrightarrow> tx_ok mtu t' \<and> carried t' = queued_content t @ contents (eliciting_frames p)"
    and "\<not> ret \<Longrightarrow> full \<Longrightarrow> tx_packet t' = packet_new mtu"
proof (cases full)
  case True
  let ?t = "t\<lparr> tx_packet := p, tx_queued := tx_queued t @ [p], tx_budget := tx_budget t - 1 \<rparr>"
  show thesis
  proof (rule that)
    show "after_append mtu (Some (p, full)) t =
        Some (if tx_budget t = 1 then ?t else ?t\<lparr> tx_packet := packet_new mtu \<rparr>, tx_budget t = 1)"
      using True assms(2) by (auto simp: after_append_def queue_packet_def checked_sub_def Let_def)
  qed (use True assms(2) packet_new_ok [OF assms(1)] in
      \<open>auto simp: queued_content_def carried_def tx_ok_def split: if_splits\<close>)
next
  case False
  show thesis
  proof (rule that)
    show "after_append mtu (Some (p, full)) t = Some (t\<lparr> tx_packet := p \<rparr>, False)"
      using False by (simp add: after_append_def)
  qed (use False assms(2-5) in \<open>auto simp: queued_content_def carried_def tx_ok_def\<close>)
qed

lemma append_full:
  "append_seg p seg = Some (p', full) \<Longrightarrow> is_full p' = Some full"
  "append_control p v n = Some (p', full) \<Longrightarrow> is_full p' = Some full \<and> eliciting_frames p' = eliciting_frames p @ [Control v n]"
  by (auto simp: append_seg_def append_control_def is_full_def remaining_cap_def Let_def split: option.splits if_splits)

lemma try_append_none_full: "try_append_seg p seg = Some (p', full, None) \<Longrightarrow> is_full p' = Some full"
  by (auto simp: try_append_seg_def Let_def dest: append_full split: option.splits if_splits)

text \<open>A segment that fits is appended as it is.\<close>

lemma resend_seg_fits:
  assumes ok: "tx_ok mtu t" "mtu_ok mtu" and wf: "seg_wf seg"
    and none: "try_append_seg (tx_packet t) seg = Some (p, full, None)"
  shows "tx_result mtu t (content (Seg seg)) fs (resend_seg mtu fs seg t)"
proof -
  have p: "pb_inv p" "pb_mtu p = mtu" "eliciting_frames p = eliciting_frames (tx_packet t) @ [Seg seg]"
    using try_append_seg_ok [OF _ wf, of "tx_packet t"] ok(1) none by (auto simp: tx_ok_def append_outcome_def)
  have full: "full \<or> is_full p = Some False" using try_append_none_full [OF none] by simp
  have b: "0 < tx_budget t" using ok(1) by (simp add: tx_ok_def)
  from after_append_result [OF ok(2) b p(1,2) full] obtain t' ret where
    t': "after_append mtu (Some (p, full)) t = Some (t', ret)" "tx_orphans t' = tx_orphans t"
      "tx_budget t' + length (tx_queued t') = tx_budget t + length (tx_queued t)"
      "ret \<Longrightarrow> tx_budget t' = 0 \<and> queued_content t' = queued_content t @ contents (eliciting_frames p)"
      "\<not> ret \<Longrightarrow> tx_ok mtu t' \<and> carried t' = queued_content t @ contents (eliciting_frames p)"
    by metis
  show ?thesis
  proof (cases ret)
    case True
    then have "resend_seg mtu fs seg t = Some (t'\<lparr> tx_orphans := tx_orphans t @ fs \<rparr>, True)"
      using none t'(1,2) by (simp add: resend_seg.simps)
    then show ?thesis using t'(3,4) True p(3) by (auto simp: tx_result_def carried_def queued_content_def)
  next
    case False
    then have "resend_seg mtu fs seg t = Some (t', False)" using none t'(1) by (simp add: resend_seg.simps)
    then show ?thesis using t'(2,3,5) False p(3) by (auto simp: tx_result_def carried_def)
  qed
qed

lemma try_append_fits:
  assumes "pb_inv p" and "seg_wf seg" and "seg_header_len seg + MIN_SEG_DATA_LEN \<le> unat (pb_mtu p) - length (buf p)"
    and "seg_header_len seg + length (seg_data seg) \<le> unat (pb_mtu p) - length (buf p)"
  shows "\<exists>p' full. try_append_seg p seg = Some (p', full, None)"
proof -
  have "remaining_cap p = Some (unat (pb_mtu p) - length (buf p))"
    using assms(1) by (simp add: remaining_cap_def checked_sub_def pb_inv_def)
  then show ?thesis using append_seg_ok [OF assms(1,2,4)] assms(3,4) by (auto simp: try_append_seg_def Let_def)
qed

text \<open>
  A segment that was sent in a packet of this MTU.  If it is not the first one of its document, its
  data do not reach an offset that needs a longer field.
\<close>

definition resendable :: "u32 \<Rightarrow> segment \<Rightarrow> bool" where
  "resendable mtu seg \<longleftrightarrow> seg_wf seg \<and> seg_header_len seg + length (seg_data seg) \<le> unat mtu - HEADER_LEN \<and>
     (\<forall>k < length (seg_data seg). off_len_kept seg k)"

lemma resend_seg_fresh:
  assumes "tx_ok mtu t" "mtu_ok mtu" "tx_packet t = packet_new mtu" "seg_wf seg"
    "seg_header_len seg + length (seg_data seg) \<le> unat mtu - HEADER_LEN"
  shows "tx_result mtu t (content (Seg seg)) fs (resend_seg mtu fs seg t)"
proof -
  have "seg_header_len seg \<le> MAX_SEG_HEADER_LEN" using assms(4) header_size_small(2) by (simp add: seg_wf_def)
  then have "seg_header_len seg + MIN_SEG_DATA_LEN \<le> unat mtu - HEADER_LEN"
    using assms(2) by (simp add: mtu_ok_def MIN_MTU_def)
  then obtain p' full where "try_append_seg (packet_new mtu) seg = Some (p', full, None)"
    using try_append_fits [of "packet_new mtu" seg] packet_new_ok [OF assms(2)] assms(4,5) by auto
  then show ?thesis using resend_seg_fits [OF assms(1,2,4)] assms(3) by simp
qed

text \<open>What does not fit the packet can be sent by the next one, and nothing is lost.\<close>

lemma rest_resendable:
  assumes re: "resendable mtu seg" and out: "append_outcome p0 seg p (Some s2)"
  shows "seg_wf s2" and "seg_header_len s2 + length (seg_data s2) \<le> unat mtu - HEADER_LEN"
    and "contents (eliciting_frames p) @ content (Seg s2) = contents (eliciting_frames p0) @ content (Seg seg)"
proof -
  have wf: "seg_wf seg" and len: "seg_header_len seg + length (seg_data seg) \<le> unat mtu - HEADER_LEN"
    using re by (simp_all add: resendable_def)
  consider "s2 = seg" "p = p0" | s1 where "seg_wf s2 \<longleftrightarrow> off_len_kept seg (length (seg_data s1))"
    "eliciting_frames p = eliciting_frames p0 @ [Seg s1]" "seg_data s1 @ seg_data s2 = seg_data seg"
    "seg_data s2 \<noteq> []" "content (Seg s1) @ content (Seg s2) = content (Seg seg)"
    "seg_header_len s2 + length (seg_data s2) \<le> seg_header_len seg + length (seg_data seg)"
    using out content_split by (auto simp: append_outcome_def simp del: content.simps)
  then have "seg_wf s2 \<and> seg_header_len s2 + length (seg_data s2) \<le> unat mtu - HEADER_LEN \<and>
    contents (eliciting_frames p) @ content (Seg s2) = contents (eliciting_frames p0) @ content (Seg seg)"
  proof cases
    case (2 s1)
    have "length (seg_data s1) < length (seg_data seg)" using 2(3,4) by (metis length_append length_greater_0_conv less_add_same_cancel1)
    then show ?thesis using 2 re len by (auto simp: resendable_def simp del: content.simps)
  qed (use wf len in simp)
  then show "seg_wf s2" "seg_header_len s2 + length (seg_data s2) \<le> unat mtu - HEADER_LEN"
    "contents (eliciting_frames p) @ content (Seg s2) = contents (eliciting_frames p0) @ content (Seg seg)" by blast+
qed

lemma resend_seg_result:
  assumes ok: "tx_ok mtu t" "mtu_ok mtu" and re: "resendable mtu seg"
  shows "tx_result mtu t (content (Seg seg)) fs (resend_seg mtu fs seg t)"
proof -
  have wf: "seg_wf seg" using re by (simp add: resendable_def)
  have inv: "pb_inv (tx_packet t)" "pb_mtu (tx_packet t) = mtu" and b: "0 < tx_budget t" using ok(1) by (simp_all add: tx_ok_def)
  obtain p full rest where a: "try_append_seg (tx_packet t) seg = Some (p, full, rest)" "pb_inv p" "pb_mtu p = mtu"
    "append_outcome (tx_packet t) seg p rest"
    using try_append_seg_ok [OF inv(1) wf] inv(2) by auto
  show ?thesis
  proof (cases rest)
    case None
    then show ?thesis using resend_seg_fits [OF ok wf] a(1) by simp
  next
    case (Some s2)
    then have full: full using rest_fills a(1) by blast
    note s2 = rest_resendable(1,2) [OF re a(4) [unfolded Some]] and c = rest_resendable(3) [OF re a(4) [unfolded Some]]
    from after_append_result [OF ok(2) b a(2,3) disjI1 [OF full]] obtain t' ret where
      t': "after_append mtu (Some (p, full)) t = Some (t', ret)" "tx_orphans t' = tx_orphans t"
        "tx_budget t' + length (tx_queued t') = tx_budget t + length (tx_queued t)"
        "ret \<Longrightarrow> tx_budget t' = 0 \<and> queued_content t' = queued_content t @ contents (eliciting_frames p)"
        "\<not> ret \<Longrightarrow> tx_ok mtu t' \<and> carried t' = queued_content t @ contents (eliciting_frames p)"
        "\<not> ret \<Longrightarrow> tx_packet t' = packet_new mtu"
      using full by metis
    show ?thesis
    proof (cases ret)
      case True
      then have "resend_seg mtu fs seg t = Some (t'\<lparr> tx_orphans := tx_orphans t @ Seg s2 # fs \<rparr>, True)"
        using a(1) Some t'(1,2) by (simp add: resend_seg.simps)
      then show ?thesis using t'(3,4) True c by (auto simp: tx_result_def carried_def queued_content_def simp del: content.simps)
    next
      case False
      then have "resend_seg mtu fs seg t = resend_seg mtu fs s2 t'"
        using a(1) Some t'(1) by (subst resend_seg.simps) simp
      moreover have "tx_result mtu t' (content (Seg s2)) fs (resend_seg mtu fs s2 t')"
        using resend_seg_fresh t'(5,6) False ok(2) s2 by blast
      moreover have "carried t' @ content (Seg s2) = carried t @ content (Seg seg)"
        using t'(5) False c by (simp add: carried_def del: content.simps)
      ultimately show ?thesis using tx_result_shift t'(2,3) by metis
    qed
  qed
qed

fun resendable_frame :: "u32 \<Rightarrow> eliciting_frame \<Rightarrow> bool" where
  "resendable_frame mtu (Seg seg) = resendable mtu seg"
| "resendable_frame mtu (Control v n) = True"

lemma resend_control_result:
  assumes ok: "tx_ok mtu t" "mtu_ok mtu"
  shows "tx_result mtu t [Inr (v, n)] fs
    (do { (t, ret) \<leftarrow> after_append mtu (append_control (tx_packet t) v n) t;
          if ret then Some (t\<lparr> tx_orphans := tx_orphans t @ fs \<rparr>, True) else Some (t, False) })"
proof -
  have inv: "pb_inv (tx_packet t)" "pb_mtu (tx_packet t) = mtu" "is_full (tx_packet t) = Some False" "0 < tx_budget t"
    using ok(1) by (simp_all add: tx_ok_def)
  obtain p full where p: "append_control (tx_packet t) v n = Some (p, full)" "pb_inv p" "pb_mtu p = mtu"
    using append_control_ok [OF inv(1,3), of v n] inv(2) by auto
  have f: "full \<or> is_full p = Some False" "eliciting_frames p = eliciting_frames (tx_packet t) @ [Control v n]"
    using append_full(2) [OF p(1)] by auto
  from after_append_result [OF ok(2) inv(4) p(2,3) f(1)] obtain t' ret where
    t': "after_append mtu (Some (p, full)) t = Some (t', ret)" "tx_orphans t' = tx_orphans t"
      "tx_budget t' + length (tx_queued t') = tx_budget t + length (tx_queued t)"
      "ret \<Longrightarrow> tx_budget t' = 0 \<and> queued_content t' = queued_content t @ contents (eliciting_frames p)"
      "\<not> ret \<Longrightarrow> tx_ok mtu t' \<and> carried t' = queued_content t @ contents (eliciting_frames p)"
    by metis
  then show ?thesis using p(1) f(2) by (cases ret) (auto simp: tx_result_def carried_def queued_content_def)
qed

lemma tx_result_then:
  assumes "tx_result mtu t c fs r" and "\<And>t'. tx_ok mtu t' \<Longrightarrow> tx_result mtu t' (contents fs) [] (g t')"
  shows "tx_result mtu t (c @ contents fs) [] (do { (t, ret) \<leftarrow> r; if ret then Some (t, True) else g t })"
proof -
  obtain t' ret where r: "r = Some (t', ret)"
    and e: "tx_budget t' + length (tx_queued t') = tx_budget t + length (tx_queued t)"
    and res: "if ret then tx_budget t' = 0 \<and>
        (\<exists>os. tx_orphans t' = tx_orphans t @ os \<and> queued_content t' @ contents os = carried t @ c @ contents fs)
      else tx_ok mtu t' \<and> tx_orphans t' = tx_orphans t \<and> carried t' = carried t @ c"
    using assms(1) unfolding tx_result_def by blast
  show ?thesis
  proof (cases ret)
    case True
    then show ?thesis using r e res by (auto simp: tx_result_def)
  next
    case False
    then have "tx_result mtu t (c @ contents fs) [] (g t')"
      using res e by (intro tx_result_shift [OF assms(2) [of t']]) simp_all
    then show ?thesis using r False by simp
  qed
qed

lemma resend_frames_result:
  assumes "mtu_ok mtu" and "tx_ok mtu t" and "\<forall>f\<in>set fs. resendable_frame mtu f"
  shows "tx_result mtu t (contents fs) [] (resend_frames mtu fs t)"
  using assms(2,3)
proof (induction fs arbitrary: t)
  case (Cons f fs)
  have IH: "tx_result mtu t' (contents fs) [] (resend_frames mtu fs t')" if "tx_ok mtu t'" for t'
    using Cons.IH [OF that] Cons.prems(2) by simp
  show ?case
  proof (cases f)
    case (Seg seg)
    then have "tx_result mtu t (content f) fs (resend_seg mtu fs seg t)"
      using resend_seg_result [OF Cons.prems(1) assms(1)] Cons.prems(2) by simp
    then show ?thesis using tx_result_then IH Seg by (simp del: content.simps)
  next
    case (Control v n)
    have "resend_frames mtu (f # fs) t =
      do { (t, ret) \<leftarrow> do { (t, ret) \<leftarrow> after_append mtu (append_control (tx_packet t) v n) t;
             if ret then Some (t\<lparr> tx_orphans := tx_orphans t @ fs \<rparr>, True) else Some (t, False) };
           if ret then Some (t, True) else resend_frames mtu fs t }"
      by (auto simp: Control split: bind_splits)
    then show ?thesis
      using tx_result_then [OF resend_control_result [OF Cons.prems(1) assms(1), of v n fs] IH] Control by simp
  qed
qed (auto simp: tx_result_def)


text \<open>A run with an empty packet and two packets of budget, for the examples.\<close>

definition sample_tx :: tx where
  "sample_tx = \<lparr> tx_packet = packet_new 100, tx_budget = 2, tx_queued = [], tx_orphans = [], tx_congestions = 0 \<rparr>"

lemma sample_tx_ok: "mtu_ok 100" "tx_ok 100 sample_tx" "carried sample_tx = []"
  using packet_new_ok [of 100]
  by (simp_all add: mtu_ok_def HEADER_LEN_def MIN_MTU_def MAX_SEG_HEADER_LEN_def MIN_SEG_DATA_LEN_def tx_ok_def sample_tx_def
      carried_def queued_content_def)

lemma sample_seg_resendable: "resendable 100 sample_seg"
  using sample_seg_wf
  by (simp add: resendable_def off_len_kept_def sample_seg_def flag_bits bit_or_iff HEADER_LEN_def)


section \<open>Packets that expire together\<close>

text \<open>
  C35.  Of the packets that have expired only the last one is sent again.  The loop that takes them
  from the queue keeps a single one: an unacknowledged packet that is followed by another one in the
  same state is forgotten, and the resending behaves as if it had never been sent; its frames are in
  no packet and no orphan.
\<close>

theorem expired_packet_lost:
  assumes "sent_at p < rto" and "sent_at p' < rto" and "packet_uid p \<in> unacked" and "packet_uid p' \<in> unacked"
    and "packet_uid p \<noteq> packet_uid p'"
  shows "resend_loop mtu rto (p # p' # q) unacked t = resend_loop mtu rto (p' # q) (unacked - {packet_uid p}) t"
proof -
  have "pop_expired rto (p # p' # q) unacked None = pop_expired rto (p' # q) (unacked - {packet_uid p}) None"
    using assms by simp
  then show ?thesis by (subst (1 2) resend_loop.simps) (simp only:)
qed

definition sample_payload :: "u64 \<Rightarrow> eliciting_frame \<Rightarrow> sent_payload" where
  "sample_payload uid f = \<lparr> packet_uid = uid, sent_at = 1, sp_resend_len = 2, sp_frames = [f] \<rparr>"

lemma sample_remaining: "remaining_cap (packet_new 100) = Some 92"
  by (simp add: remaining_cap_def packet_new_def HEADER_LEN_def checked_sub_def)

theorem expired_packet_lost_witness:
  "\<exists>q un t'. resend_loop 100 5 [sample_payload 1 (Control 0x84 3), sample_payload 2 (Control 0x84 5)] {1, 2} sample_tx =
     Some (q, un, t', False) \<and> carried t' = [Inr (0x84, 5)] \<and> q = [] \<and> un = {}"
proof -
  let ?t = "sample_tx\<lparr> tx_congestions := 1 \<rparr>"
  have "tx_ok 100 ?t" "carried ?t = []" "tx_budget ?t + length (tx_queued ?t) = 2"
    using sample_tx_ok(2,3) by (simp_all add: tx_ok_def carried_def queued_content_def sample_tx_def)
  then have r: "tx_result 100 ?t [Inr (0x84, 5)] [] (resend_frames 100 [Control 0x84 5] ?t)"
    using resend_frames_result [OF sample_tx_ok(1), of ?t "[Control 0x84 5]"] by simp
  have "\<not> f" if "append_control (packet_new 100) 0x84 5 = Some (p, f)" for p f
  proof -
    have "length (buf p) = 10" "pb_mtu p = 100"
      using append_control_ok [OF packet_new_ok(1,3) [OF sample_tx_ok(1)], of "0x84" 5] that packet_new_ok(2,4) [OF sample_tx_ok(1)]
      by (auto simp: v64.length_written varu64_len_def VARINT_U8_MAX_def VARINT_U16_MAX_def HEADER_LEN_def)
    then have "is_full p = Some False" by (simp add: is_full_def remaining_cap_def checked_sub_def MIN_FRAME_APPEND_LEN_def)
    then show ?thesis using append_full(2) [OF that] by simp
  qed
  then have "resend_frames 100 [Control 0x84 5] ?t \<noteq> Some (t', True)" for t'
    by (auto simp: after_append_def sample_tx_def split: bind_splits)
  with r \<open>carried ?t = []\<close> obtain t' where t': "resend_frames 100 [Control 0x84 5] ?t = Some (t', False)" "carried t' = [Inr (0x84, 5)]"
    by (auto simp: tx_result_def simp del: resend_frames.simps split: if_splits)
  have "own_packet 100 (sample_payload 2 (Control 0x84 5)) ?t = Some False"
    by (simp add: own_packet_def sample_payload_def sample_tx_def sample_remaining)
  then have "resend_payload 100 (sample_payload 2 (Control 0x84 5)) ?t = Some (t', False)"
    using t'(1) by (simp add: resend_payload_def sample_payload_def del: resend_frames.simps)
  then have "resend_loop 100 5 [sample_payload 2 (Control 0x84 5)] ({1, 2} - {1}) sample_tx = Some ([], {}, t', False)"
    by (subst resend_loop.simps) (simp add: sample_payload_def sample_tx_def, simp add: resend_loop.simps)
  then show ?thesis
    using expired_packet_lost [of "sample_payload 1 (Control 0x84 3)" 5 "sample_payload 2 (Control 0x84 5)" "{1, 2}" 100 "[]" sample_tx] t'(2)
    by (simp add: sample_payload_def)
qed

section \<open>A full packet sent again\<close>

lemma seg_frame_length: "header_size (seg_variant seg) seg + length (seg_data seg) \<le> length (seg_frame cap seg)"
  using length_header_bytes [of "seg_variant seg" seg] by (simp add: seg_frame_def Let_def data_bytes_def)

text \<open>
   A state that the code calls unreachable is reached.  The code moves a packet that is sent again
  into a packet of its own when at least two packets of budget are left, and asserts that the
  budget cannot run out before the packet under construction is taken up again.  But if the budget is
  two and the segment fills its packet, this packet is queued at once and a second, empty one behind
  it: \<open>transmit\<close> panics.
\<close>

theorem full_packet_resend_panics:
  assumes "HEADER_LEN + MIN_MTU \<le> unat mtu" and "own_packet mtu payload t = Some True" and "tx_budget t = 2"
    and "sp_frames payload = [Seg seg]" and "resendable mtu seg"
    and "unat mtu - HEADER_LEN < seg_header_len seg + length (seg_data seg) + MIN_FRAME_APPEND_LEN"
  shows "resend_payload mtu payload t = None"
proof -
  have m: "mtu_ok mtu" using assms(1) by (simp add: mtu_ok_def)
  note new = packet_new_ok [OF m]
  have wf: "seg_wf seg" "seg_header_len seg + length (seg_data seg) \<le> unat mtu - HEADER_LEN"
    using assms(5) by (simp_all add: resendable_def)
  have "seg_header_len seg \<le> MAX_SEG_HEADER_LEN" using wf(1) header_size_small(2) by (simp add: seg_wf_def)
  then have "seg_header_len seg + MIN_SEG_DATA_LEN \<le> unat mtu - HEADER_LEN" using assms(1) by (simp add: MIN_MTU_def)
  then obtain p full where p: "try_append_seg (packet_new mtu) seg = Some (p, full, None)"
    using try_append_fits [of "packet_new mtu" seg] new wf by auto
  then have a: "append_seg (packet_new mtu) seg = Some (p, full)"
    by (auto simp: try_append_seg_def Let_def split: option.splits if_splits)
  from append_seg_ok [OF new(1) wf(1)] wf(2) a new
  have "full \<longleftrightarrow> unat mtu - length (buf p) < MIN_FRAME_APPEND_LEN"
    "buf p = buf (packet_new mtu) @ seg_frame (unat mtu - HEADER_LEN) seg" by auto
  moreover have "seg_header_len seg + length (seg_data seg) \<le> length (seg_frame (unat mtu - HEADER_LEN) seg)"
    using seg_frame_length [of seg] wf(1) by (simp add: seg_wf_def)
  ultimately have full using new(4) assms(6) by (simp add: MIN_FRAME_APPEND_LEN_def)
  let ?t = "t\<lparr> tx_packet := packet_new mtu, tx_queued := tx_queued t @ [p], tx_budget := 1 \<rparr>"
  have "resend_seg mtu [] seg (t\<lparr> tx_packet := packet_new mtu \<rparr>) = Some (?t, False)"
    using p \<open>full\<close> assms(3)
    by (simp add: resend_seg.simps after_append_def queue_packet_def checked_sub_def Let_def)
  then have "resend_frames mtu (sp_frames payload) (t\<lparr> tx_packet := packet_new mtu \<rparr>) = Some (?t, False)"
    by (simp add: assms(4))
  then show ?thesis
    using assms(2) by (simp add: resend_payload_def queue_packet_def checked_sub_def)
qed

theorem full_packet_resend_panics_witness:
  "resend_payload 100 \<lparr> packet_uid = 1, sent_at = 1, sp_resend_len = 93,
     sp_frames = [Seg (sample_seg\<lparr> seg_data := replicate 80 7 \<rparr>)] \<rparr> sample_tx = None"
proof -
  let ?seg = "sample_seg\<lparr> seg_data := replicate 80 7 \<rparr>"
  have h: "seg_header_len ?seg = 3"
    by (rule seg_header_len_pack) (simp_all add: sample_seg_def)
  have "seg_wf ?seg" using sample_seg_wf by (simp add: seg_wf_def seg_header_len_def seg_variant_def header_size_def)
  moreover have "bit (seg_variant ?seg) 2" using sample_seg_resendable
    by (simp add: sample_seg_def flag_bits bit_or_iff)
  ultimately have "resendable 100 ?seg" by (simp add: resendable_def off_len_kept_def h HEADER_LEN_def)
  then show ?thesis
    by (intro full_packet_resend_panics [of 100 _ _ ?seg])
      (simp_all add: h own_packet_def sample_tx_def sample_remaining resend_ratio_def HEADER_LEN_def MIN_MTU_def MAX_SEG_HEADER_LEN_def
        MIN_SEG_DATA_LEN_def MIN_FRAME_APPEND_LEN_def)
qed

section \<open>Documents longer than a packet\<close>

lemma send_seg_result:
  assumes "mtu_ok mtu" and "pb_inv (tx_packet t)" and "pb_mtu (tx_packet t) = mtu" and "0 < tx_budget t"
    and cap: "remaining_cap (tx_packet t) = Some cap" and seg: "next_segment n d cl cap d' seg"
  shows "\<exists>t' f. send_seg mtu i d' seg s t =
      Some (set_send_slot i ((send_table s ! i)\<lparr> ss_doc := Some d', ss_needs_send_close := False \<rparr>) s, t', f) \<and> f \<noteq> Return_Front"
proof -
  have "cap = unat mtu - length (buf (tx_packet t))"
    using cap assms(3) by (auto simp: remaining_cap_def checked_sub_def split: if_splits)
  then obtain p full where p: "append_seg (tx_packet t) seg = Some (p, full)" "pb_inv p" "pb_mtu p = mtu"
    using append_seg_ok [OF assms(2), of seg] seg assms(3) by (auto simp: next_segment_def)
  have "full \<or> is_full p = Some False" using append_full(1) [OF p(1)] by auto
  from after_append_result [OF assms(1,4) p(2,3) this] obtain t' ret where "after_append mtu (Some (p, full)) t = Some (t', ret)"
    by metis
  then show ?thesis using p(1) by (simp add: send_seg_def Let_def flow_of_def)
qed

lemma next_segment_short:
  assumes "next_segment n d cl cap d' seg"
  shows "sd_data d' = sd_data d" and "sd_next_seg_off d' \<le> sd_next_seg_off d + cap"
  using assms by (auto simp: next_segment_def)

lemma long_doc_frames:
  assumes m: "mtu_ok mtu" and "tx_ok mtu t" and "1 < tx_budget t"
    and "slot_idx n (send_table s) = Some i" and "ss_doc_no (send_table s ! i) = n" and "ss_doc (send_table s ! i) = Some d"
    and d: "sd_next_seg_off d < length (sd_data d)"
  obtains d' t' f where "send_doc_frames mtu n s t =
      Some (set_send_slot i ((send_table s ! i)\<lparr> ss_doc := Some d', ss_needs_send_close := False \<rparr>) s, t', f)"
    and "f \<noteq> Return_Front" and "sd_data d' = sd_data d" and "sd_next_seg_off d' \<le> sd_next_seg_off d + unat mtu"
proof -
  note conclude = that and new = packet_new_ok [OF m]
  have ok: "pb_inv (tx_packet t)" "pb_mtu (tx_packet t) = mtu" "0 < tx_budget t" using assms(2) by (simp_all add: tx_ok_def)
  let ?cl = "ss_channel (send_table s ! i) = None"
  have goal: thesis
    if a: "send_doc_frames mtu n s t = send_seg mtu i d' seg s t'" "next_segment n d ?cl cap d' seg"
      "remaining_cap (tx_packet t') = Some cap" "pb_inv (tx_packet t')" "pb_mtu (tx_packet t') = mtu" "0 < tx_budget t'"
    for d' seg cap t'
  proof -
    have "cap \<le> unat mtu" using a(3,5) by (auto simp: remaining_cap_def checked_sub_def split: if_splits)
    then have "sd_next_seg_off d' \<le> sd_next_seg_off d + unat mtu" using next_segment_short(2) [OF a(2)] by simp
    moreover from send_seg_result [OF m a(4,5,6,3,2), of i s] obtain t1 f where "send_doc_frames mtu n s t =
        Some (set_send_slot i ((send_table s ! i)\<lparr> ss_doc := Some d', ss_needs_send_close := False \<rparr>) s, t1, f)" "f \<noteq> Return_Front"
      unfolding a(1) by blast
    ultimately show thesis using conclude next_segment_short(1) [OF a(2)] by blast
  qed
  obtain cap where cap: "remaining_cap (tx_packet t) = Some cap"
    using ok by (auto simp: remaining_cap_def checked_sub_def pb_inv_def)
  have start: "send_doc_frames mtu n s t =
      (case seg_try_new n d ?cl cap of (d', Inr seg) \<Rightarrow> send_seg mtu i d' seg s t | (_, Inl True) \<Rightarrow> send_in_next mtu n i s t
       | (_, Inl False) \<Rightarrow> (if ss_needs_send_close (send_table s ! i) then send_control mtu VARIANT_CONTROL_CLOSE n (reset_send_close i s) t
            else Some (s, t, Next)))"
    by (simp add: send_doc_frames_def assms(4,5,6) Let_def cap split: prod.splits sum.splits bool.splits)
  show thesis
  proof (cases rule: seg_try_new_cases [of d n ?cl cap])
    case full
    let ?t = "t\<lparr> tx_queued := tx_queued t @ [tx_packet t], tx_budget := tx_budget t - 1, tx_packet := packet_new mtu \<rparr>"
    have q: "queue_packet mtu t = Some (?t, False)" using assms(3) by (simp add: queue_packet_def checked_sub_def Let_def)
    have c: "remaining_cap (packet_new mtu) = Some (unat mtu - HEADER_LEN)"
      using new(1,2,4) by (simp add: remaining_cap_def checked_sub_def pb_inv_def)
    show thesis
    proof (cases rule: seg_try_new_cases [of d n ?cl "unat mtu - HEADER_LEN"])
      case (seg d' seg)
      then have "send_doc_frames mtu n s t = send_seg mtu i d' seg s ?t"
        using start full by (simp add: send_in_next_def q assms(6) c)
      then show thesis using goal [of d' seg ?t] seg c new assms(3) by auto
    qed (use d m in \<open>auto simp: mtu_ok_def MIN_MTU_def\<close>)
  next
    case (seg d' seg)
    then show thesis using goal [of d' seg t cap] start cap ok by simp
  qed (use d in simp)
qed

text \<open>
  A document that does not fit one packet is not sent to its end.  \<open>transmit\<close> takes its number from
  the send queue, sends one segment and does not put the number back, so the rest of the document
  stays in its slot with nothing in the queue that would send it.
\<close>

theorem long_document_not_requeued:
  assumes "HEADER_LEN + MIN_MTU \<le> unat mtu" and "tx_ok mtu t" and "1 < tx_budget t" and "is_sending s n"
    and "slot_idx n (send_table s) = Some i" and "ss_doc_no (send_table s ! i) = n" and "ss_doc (send_table s ! i) = Some d"
    and "sd_next_seg_off d + unat mtu < length (sd_data d)"
  shows "\<exists>s' t' ret d'. send_loop mtu [n] s t = Some (s', t', ret) \<and> send_queue s' = [] \<and>
    ss_doc_no (send_table s' ! i) = n \<and> ss_doc (send_table s' ! i) = Some d' \<and>
    sd_data d' = sd_data d \<and> sd_next_seg_off d' < length (sd_data d')"
proof -
  have d: "sd_next_seg_off d < length (sd_data d)" and m: "mtu_ok mtu" using assms(1,8) by (simp_all add: mtu_ok_def)
  from long_doc_frames [OF m assms(2,3,5,6,7) d] obtain d' t' f where
    r: "send_doc_frames mtu n s t = Some (set_send_slot i ((send_table s ! i)\<lparr> ss_doc := Some d', ss_needs_send_close := False \<rparr>) s, t', f)"
      (is "_ = Some (?s, _, _)") "f \<noteq> Return_Front" "sd_data d' = sd_data d" "sd_next_seg_off d' \<le> sd_next_seg_off d + unat mtu"
    by blast
  have "send_loop mtu [n] s t = Some (?s\<lparr> send_queue := [] \<rparr>, t', f = Return)"
    using assms(4) r(1,2) by (cases f) simp_all
  then show ?thesis
    using r(3,4) assms(6,8) slot_idx_less [OF assms(5)] by (auto simp: set_send_slot_def)
qed

text \<open>A session that sends document 3, of 200 bytes.\<close>

definition sample_sending :: session where
  "sample_sending = sample_session\<lparr> send_table :=
     [\<lparr> ss_doc_no = 3, ss_needs_send_close = False,
        ss_doc = Some \<lparr> sd_parent_no = 1, sd_has_special_parent = False, sd_has_been_acked = False, sd_next_seg_off = 0,
                        sd_data = replicate 200 7, sd_flush_wakers = [] \<rparr>,
        ss_channel = Some sample_channel \<rparr>], send_queue := [3] \<rparr>"

theorem long_document_not_requeued_witness:
  "\<exists>s' t' ret d'. send_loop 100 [3] sample_sending sample_tx = Some (s', t', ret) \<and> send_queue s' = [] \<and>
     ss_doc (send_table s' ! 0) = Some d' \<and> sd_next_seg_off d' < length (sd_data d')"
proof -
  let ?d = "\<lparr> sd_parent_no = 1, sd_has_special_parent = False, sd_has_been_acked = False, sd_next_seg_off = 0,
                        sd_data = replicate 200 7, sd_flush_wakers = [] \<rparr>"
  have "is_sending sample_sending 3" "slot_idx 3 (send_table sample_sending) = Some 0"
    "ss_doc_no (send_table sample_sending ! 0) = 3" "ss_doc (send_table sample_sending ! 0) = Some ?d"
    by (simp_all add: sample_sending_def sample_session_def is_sending_def slot_idx_def)
  from long_document_not_requeued [OF _ sample_tx_ok(2) _ this] sample_tx_ok(1) show ?thesis
    by (auto simp: mtu_ok_def sample_tx_def)
qed

section \<open>Acknowledgements of several sockets\<close>

text \<open>
   Acknowledgements of two sockets go out on one.  If there is room for the acknowledgements of
  both sockets, they end up in the same packet, each socket's numbers readable behind the others', and
  the packet is bound to the second socket: \<open>send_now\<close>, where the uid of a socket is its local id, encrypts it there, and the peer, which
  takes the numbers of an acknowledgement for those of the socket it arrives on, never learns which
  packets of the first socket arrived.
\<close>

theorem acks_bound_to_last_socket:
  assumes "tx_ok mtu t" and "\<And>acks. acks \<in> {acks0, acks1} \<Longrightarrow> sorted_wrt (<) acks \<and> length acks \<le> 2 ^ 29 \<and> (\<forall>a\<in>set acks. unat a < 2 ^ 32 - 1)"
    and "append_sorted_acks (tx_packet t) acks0 False id0 = Some (p0, [], False)"
    and "append_sorted_acks p0 acks1 True id1 = Some (p1, [], False)" and "acks0 \<noteq> []" and "acks1 \<noteq> []"
  shows "\<exists>frames0 frames1. send_acks mtu False [(id0, acks0), (id1, acks1)] t = Some (t\<lparr> tx_packet := p1 \<rparr>, [(id0, []), (id1, [])], False) \<and>
    buf p1 = buf (tx_packet t) @ frames0 @ frames1 \<and>
    decode_frames (buf (tx_packet t) @ frames0) (length (buf (tx_packet t))) = Some acks0 \<and>
    decode_frames (buf p1) (length (buf (tx_packet t) @ frames0)) = Some acks1 \<and>
    send_now encrypt random [id0, id1] cur p1 now tr =
      (let (packet_no, wire) = encrypt 1 (buf p1 @ replicate FOOTER_LEN 0) in
       Some (tr\<lparr> tr_unacked := insert (uid_of id1 packet_no) (tr_unacked tr),
                 tr_packet_queue := tr_packet_queue tr @ [\<lparr> packet_uid = uid_of id1 packet_no, sent_at = now,
                   sp_resend_len = resend_len p1, sp_frames = eliciting_frames p1 \<rparr>] \<rparr>, wire))"
proof -
  have a0: "sorted_wrt (<) acks0" "length acks0 \<le> 2 ^ 29" "\<forall>a\<in>set acks0. unat a < 2 ^ 32 - 1"
    and a1: "sorted_wrt (<) acks1" "length acks1 \<le> 2 ^ 29" "\<forall>a\<in>set acks1. unat a < 2 ^ 32 - 1"
    using assms(2) by auto
  have inv: "pb_inv (tx_packet t)" using assms(1) by (simp add: tx_ok_def)
  obtain n0 fr0 where f0: "pb_inv p0" "buf p0 = buf (tx_packet t) @ fr0" "decode_frames (buf p0) (length (buf (tx_packet t))) = Some acks0"
    using append_sorted_acks_ok [OF inv a0, of False id0] assms(3) by auto
  obtain n1 fr1 where f1: "buf p1 = buf p0 @ fr1" "decode_frames (buf p1) (length (buf p0)) = Some acks1"
    using append_sorted_acks_ok [OF f0(1) a1, of True id1] assms(4) by auto
  have "socket_binding p1 = Some (True, id1)"
    using assms(4,6) by (auto simp: append_sorted_acks_def Let_def split: option.splits if_splits)
  moreover have "send_acks mtu False [(id0, acks0), (id1, acks1)] t = Some (t\<lparr> tx_packet := p1 \<rparr>, [(id0, []), (id1, [])], False)"
    using assms(3,4) by (simp add: after_append_def)
  ultimately show ?thesis using f0 f1
    by (intro exI [of _ fr0] exI [of _ fr1]) (simp add: send_now_def Let_def case_prod_beta)
qed

lemma encode_single:
  assumes "length b + 6 \<le> cap"
  shows "encode b [a] cap = Some (b @ VARIANT_ACK_SINGLE # to_be_bytes a, 1)"
  using assms
  by (simp add: encode_def encode_loop.simps [of "[a]" cap b 0] encode_loop.simps [of "[a]" cap _ "Suc 0"] encode_run.simps encode_tail_def Let_def
      butlast_append)

theorem acks_bound_to_last_socket_witness:
  "\<exists>p1 frames0 frames1. send_acks 100 False [(1, [7]), (2, [9])] sample_tx = Some (sample_tx\<lparr> tx_packet := p1 \<rparr>, [(1, []), (2, [])], False) \<and>
     buf p1 = buf (packet_new 100) @ frames0 @ frames1 \<and> socket_binding p1 = Some (True, 2)"
proof -
  define p0 where "p0 = (packet_new 100)\<lparr> buf := buf (packet_new 100) @ VARIANT_ACK_SINGLE # to_be_bytes (7 :: u32), socket_binding := Some (False, 1) \<rparr>"
  define p1 where "p1 = p0\<lparr> buf := buf p0 @ VARIANT_ACK_SINGLE # to_be_bytes (9 :: u32), socket_binding := Some (True, 2) \<rparr>"
  note eval = append_sorted_acks_def encode_single packet_new_def HEADER_LEN_def is_full_def remaining_cap_def checked_sub_def
    MIN_FRAME_APPEND_LEN_def
  have t: "tx_packet sample_tx = packet_new 100" by (simp add: sample_tx_def)
  have 0: "append_sorted_acks (tx_packet sample_tx) [7] False 1 = Some (p0, [], False)" unfolding t p0_def by (simp add: eval)
  have 1: "append_sorted_acks p0 [9] True 2 = Some (p1, [], False)" unfolding p1_def unfolding p0_def by (simp add: eval)
  have sorted: "sorted_wrt (<) acks \<and> length acks \<le> 2 ^ 29 \<and> (\<forall>a\<in>set acks. unat a < 2 ^ 32 - 1)" if "acks \<in> {[7 :: u32], [9]}" for acks
    using that by auto
  from acks_bound_to_last_socket [OF sample_tx_ok(2) sorted 0 1]
  have "\<exists>frames0 frames1. send_acks 100 False [(1, [7]), (2, [9])] sample_tx = Some (sample_tx\<lparr> tx_packet := p1 \<rparr>, [(1, []), (2, [])], False) \<and>
     buf p1 = buf (tx_packet sample_tx) @ frames0 @ frames1" by blast
  moreover have "socket_binding p1 = Some (True, 2)" by (simp add: p1_def)
  ultimately show ?thesis unfolding t by metis
qed

section \<open>The budget\<close>

text \<open>
  Every queued packet is paid for, \<open>transmit\<close> returns early only when nothing is left, and the packet
  under construction has its header.
\<close>

definition tx_spent :: "tx \<Rightarrow> tx \<Rightarrow> bool \<Rightarrow> bool" where
  "tx_spent t t' ret \<longleftrightarrow> tx_budget t' + length (tx_queued t') = tx_budget t + length (tx_queued t) \<and>
     (buf (tx_packet t) \<noteq> [] \<longrightarrow> buf (tx_packet t') \<noteq> []) \<and> (ret \<longrightarrow> tx_budget t' = 0)"

lemma tx_spent_refl [simp]: "tx_spent t t False"
  by (simp add: tx_spent_def)

lemma tx_spent_trans: "tx_spent t t1 r1 \<Longrightarrow> tx_spent t1 t2 r2 \<Longrightarrow> tx_spent t t2 r2"
  by (simp add: tx_spent_def)

lemma tx_spent_orphans [simp]: "tx_spent t (t'\<lparr> tx_orphans := os \<rparr>) r \<longleftrightarrow> tx_spent t t' r"
  "tx_spent (t\<lparr> tx_congestions := k \<rparr>) t' r \<longleftrightarrow> tx_spent t t' r"
  by (simp_all add: tx_spent_def)

lemma queue_packet_spent: "queue_packet mtu t = Some (t', ret) \<Longrightarrow> tx_spent t t' ret"
  by (auto simp: queue_packet_def tx_spent_def checked_sub_def Let_def packet_new_def HEADER_LEN_def split: bind_splits if_splits)

lemma after_append_spent:
  assumes "after_append mtu r t = Some (t', ret)" and "\<And>p f. r = Some (p, f) \<Longrightarrow> buf (tx_packet t) \<noteq> [] \<Longrightarrow> buf p \<noteq> []"
  shows "tx_spent t t' ret"
proof -
  obtain p f where r: "r = Some (p, f)" and rest: "(if f then queue_packet mtu (t\<lparr> tx_packet := p \<rparr>) else Some (t\<lparr> tx_packet := p \<rparr>, False)) = Some (t', ret)"
    using assms(1) by (auto simp: after_append_def Let_def split: bind_splits)
  have "tx_spent t (t\<lparr> tx_packet := p \<rparr>) False" using assms(2) [OF r] by (simp add: tx_spent_def)
  then show ?thesis using rest queue_packet_spent tx_spent_trans by (fastforce split: if_splits)
qed

lemma append_nonempty:
  "append_seg p seg = Some (p', f) \<Longrightarrow> buf p' \<noteq> []"
  "append_control p v n = Some (p', f) \<Longrightarrow> buf p' \<noteq> []"
  "try_append_seg p seg = Some (p', f, rest) \<Longrightarrow> buf p \<noteq> [] \<Longrightarrow> buf p' \<noteq> []"
proof -
  have w: "varusize_write b n \<noteq> []" if "b \<noteq> []" for b n using that by (subst vusize.write_append) simp
  have 1: "buf p' \<noteq> []" if "append_seg p seg = Some (p', f)" for seg p' f
    using that by (auto simp: append_seg_def Let_def write_data_def write_header_bytes w split: option.splits if_splits)
  then show "append_seg p seg = Some (p', f) \<Longrightarrow> buf p' \<noteq> []" .
  show "append_control p v n = Some (p', f) \<Longrightarrow> buf p' \<noteq> []"
    by (auto simp: append_control_def Let_def v64.write_append [of "buf p @ [v]"] split: option.splits)
  show "try_append_seg p seg = Some (p', f, rest) \<Longrightarrow> buf p \<noteq> [] \<Longrightarrow> buf p' \<noteq> []"
    by (auto simp: try_append_seg_def Let_def dest: 1 split: option.splits if_splits)
qed

lemma resend_seg_spent: "resend_seg mtu fs seg t = Some (t', ret) \<Longrightarrow> tx_spent t t' ret"
proof (induction mtu fs seg t arbitrary: t' ret rule: resend_seg.induct)
  case (1 mtu fs seg t)
  obtain p f rest t1 r1 where a: "try_append_seg (tx_packet t) seg = Some (p, f, rest)" "after_append mtu (Some (p, f)) t = Some (t1, r1)"
    using "1.prems" by (subst (asm) resend_seg.simps) (auto split: option.splits)
  have s: "tx_spent t t1 r1" using after_append_spent [OF a(2)] append_nonempty(3) [OF a(1)] by simp
  show ?case
  proof (cases "\<not> r1 \<and> rest \<noteq> None")
    case True
    then obtain s2 where "rest = Some s2" "\<not> r1" by blast
    with "1.IH" [OF a(1) refl refl a(2) refl] "1.prems" a have "tx_spent t1 t' ret"
      by (subst (asm) (2) resend_seg.simps) auto
    then show ?thesis using s tx_spent_trans by blast
  next
    case False
    then show ?thesis using "1.prems" a s by (subst (asm) resend_seg.simps) (auto split: if_splits option.splits)
  qed
qed

lemma resend_frames_spent: "resend_frames mtu fs t = Some (t', ret) \<Longrightarrow> tx_spent t t' ret"
proof (induction mtu fs t arbitrary: t' ret rule: resend_frames.induct)
  case (2 mtu seg frames t)
  from "2.prems" obtain t1 r1 where s: "resend_seg mtu frames seg t = Some (t1, r1)"
    "(if r1 then Some (t1, True) else resend_frames mtu frames t1) = Some (t', ret)" by (auto split: bind_splits)
  then show ?case using "2.IH" [OF _ refl] resend_seg_spent [OF s(1)] tx_spent_trans by (cases r1) fastforce+
next
  case (3 mtu v n frames t)
  from "3.prems" obtain t1 r1 where s: "after_append mtu (append_control (tx_packet t) v n) t = Some (t1, r1)"
    "(if r1 then Some (t1\<lparr> tx_orphans := tx_orphans t1 @ frames \<rparr>, True) else resend_frames mtu frames t1) = Some (t', ret)"
    by (auto split: bind_splits)
  have "tx_spent t t1 r1" using after_append_spent [OF s(1)] append_nonempty(2) by simp
  then show ?case using "3.IH" [OF _ refl] s tx_spent_trans by (cases r1) fastforce+
qed simp

lemma resend_payload_spent:
  assumes "resend_payload mtu payload t = Some (t', ret)"
  shows "tx_spent t t' ret"
proof -
  obtain own where "own_packet mtu payload t = Some own" using assms by (auto simp: resend_payload_def split: bind_splits)
  show ?thesis
  proof (cases own)
    case False
    then show ?thesis using assms \<open>own_packet mtu payload t = Some own\<close> by (simp add: resend_payload_def resend_frames_spent)
  next
    case True
    then obtain t1 t2 where "resend_frames mtu (sp_frames payload) (t\<lparr> tx_packet := packet_new mtu \<rparr>) = Some (t1, False)"
      "queue_packet mtu t1 = Some (t2, False)" "t' = t2\<lparr> tx_packet := tx_packet t \<rparr>" "\<not> ret"
      using assms \<open>own_packet mtu payload t = Some own\<close>
      by (auto simp: resend_payload_def Let_def split: bind_splits if_split_asm)
    then show ?thesis using resend_frames_spent [of mtu "sp_frames payload"] queue_packet_spent by (fastforce simp: tx_spent_def)
  qed
qed

lemma resend_loop_spent: "resend_loop mtu rto q un t = Some (q', un', t', ret) \<Longrightarrow> tx_spent t t' ret"
proof (induction mtu rto q un t rule: resend_loop.induct)
  case (1 mtu rto q un t)
  obtain q1 un1 r where e: "pop_expired rto q un None = (q1, un1, r)" by (metis prod_cases3)
  show ?case
  proof (cases r)
    case None
    then show ?thesis using "1.prems" e by (subst (asm) resend_loop.simps) simp
  next
    case (Some payload)
    then obtain t1 r1 where p: "resend_payload mtu payload (t\<lparr> tx_congestions := tx_congestions t + 1 \<rparr>) = Some (t1, r1)"
      using "1.prems" e by (subst (asm) resend_loop.simps) (auto split: option.splits)
    then have s: "tx_spent t t1 r1" using resend_payload_spent [OF p] by simp
    show ?thesis
    proof (cases r1)
      case True
      then show ?thesis using "1.prems" e Some p s by (subst (asm) resend_loop.simps) simp
    next
      case False
      have "resend_loop mtu rto q1 un1 t1 = Some (q', un', t', ret)"
        using "1.prems" e Some p False by (subst (asm) resend_loop.simps) simp
      then show ?thesis using "1.IH" e Some p False s tx_spent_trans by metis
    qed
  qed
qed

text \<open>The same for one number of the send queue.\<close>

definition flow_spent :: "tx \<Rightarrow> (session \<times> tx \<times> flow) option \<Rightarrow> bool" where
  "flow_spent t r \<longleftrightarrow> (case r of None \<Rightarrow> True | Some (s, t', f) \<Rightarrow> tx_spent t t' (f \<noteq> Next))"

lemma flow_spent_simps [simp]: "flow_spent t None" "flow_spent t (Some (s, t', f)) \<longleftrightarrow> tx_spent t t' (f \<noteq> Next)"
  by (simp_all add: flow_spent_def)

lemma flow_spent_append:
  assumes "\<And>p f. r = Some (p, f) \<Longrightarrow> buf (tx_packet t) \<noteq> [] \<Longrightarrow> buf p \<noteq> []"
  shows "flow_spent t (map_option (Pair s) (flow_of (after_append mtu r t)))"
  using after_append_spent [OF _ assms, of mtu] by (cases "after_append mtu r t") (auto simp: flow_of_def)

lemma flow_spent_send: "flow_spent t (send_control mtu v n s t)" "flow_spent t (send_seg mtu i d seg s t)"
  "flow_spent t (send_fin_close mtu n i s t)"
  using append_nonempty(1,2) by (auto simp: send_control_def send_seg_def send_fin_close_def Let_def intro!: flow_spent_append)

lemma flow_spent_next: "flow_spent t (send_in_next mtu n i s t)"
proof (cases "queue_packet mtu t")
  case (Some r)
  then obtain t1 ret where q: "queue_packet mtu t = Some (t1, ret)" by (cases r) simp
  note s = queue_packet_spent [OF q]
  have lift: "flow_spent t r" if "flow_spent t1 r" for r
    using that tx_spent_trans [OF s] by (cases r) auto
  show ?thesis
    using s q by (auto simp: send_in_next_def intro!: lift flow_spent_send split: option.split bind_split sum.split prod.split)
qed (simp add: send_in_next_def)

lemma flow_spent_docs: "flow_spent t (send_doc_frames mtu n s t)" "flow_spent t (recv_doc_frames mtu n s t)"
proof -
  note parts = flow_spent_send flow_spent_next
  show "flow_spent t (send_doc_frames mtu n s t)" "flow_spent t (recv_doc_frames mtu n s t)"
    by (auto simp: send_doc_frames_def recv_doc_frames_def Let_def parts split: option.split bind_split sum.split prod.split bool.split)
qed

lemma send_loop_spent: "send_loop mtu q s t = Some (s', t', ret) \<Longrightarrow> tx_spent t t' ret"
proof (induction mtu q s t rule: send_loop.induct)
  case (2 mtu n q s t)
  let ?r = "if is_sending s n then send_doc_frames mtu n s t else recv_doc_frames mtu n s t"
  obtain s1 t1 f where r: "?r = Some (s1, t1, f)" using "2.prems" by (auto split: bind_splits)
  have "flow_spent t ?r" using flow_spent_docs by simp
  then have s: "tx_spent t t1 (f \<noteq> Next)" using r by (simp add: flow_spent_def)
  show ?case
  proof (cases f)
    case Next
    then have "send_loop mtu q s1 t1 = Some (s', t', ret)" using "2.prems" r by simp
    then show ?thesis using "2.IH" [OF r refl refl Next] s tx_spent_trans by blast
  qed (use "2.prems" r s in auto)
qed simp

definition acks_sorted :: "u32 list \<Rightarrow> bool" where
  "acks_sorted acks \<longleftrightarrow> sorted_wrt (<) acks \<and> length acks \<le> 2 ^ 29 \<and> (\<forall>a\<in>set acks. unat a < 2 ^ 32 - 1)"

lemma send_acks_spent:
  assumes "mtu_ok mtu" and "send_acks mtu idx socks t = Some (t', socks', ret)" and "pb_inv (tx_packet t)"
    and "\<forall>(id, acks)\<in>set socks. acks_sorted acks"
  shows "tx_spent t t' ret"
  using assms(2-4)
proof (induction socks arbitrary: idx t socks')
  case (Cons sock socks)
  obtain id0 acks where sock: "sock = (id0, acks)" by (cases sock)
  obtain p acks1 f t1 r1 where a: "append_sorted_acks (tx_packet t) acks idx id0 = Some (p, acks1, f)"
    "after_append mtu (Some (p, f)) t = Some (t1, r1)"
    using Cons.prems(1) by (auto simp: sock split: bind_splits)
  have p: "pb_inv p"
    using append_sorted_acks_ok [OF Cons.prems(2), of acks idx id0] Cons.prems(3) a(1) by (auto simp: sock acks_sorted_def)
  then have s: "tx_spent t t1 r1" by (intro after_append_spent [OF a(2)]) (auto simp: pb_inv_def HEADER_LEN_def)
  have t1: "pb_inv (tx_packet t1)"
    using a(2) p packet_new_ok(1) [OF assms(1)]
    by (auto simp: after_append_def queue_packet_def Let_def split: bind_splits if_split_asm)
  show ?case
  proof (cases r1)
    case True
    then show ?thesis using Cons.prems(1) a s by (auto simp: sock)
  next
    case False
    then obtain socks1 where "send_acks mtu True socks t1 = Some (t', socks1, ret)"
      using Cons.prems(1) a by (auto simp: sock split: bind_splits)
    then show ?thesis using Cons.IH t1 Cons.prems(3) s tx_spent_trans by (meson list.set_intros(2))
  qed
qed simp


definition sample_transmission :: transmission where
  "sample_transmission = \<lparr> tr_sockets = [(1, []), (2, [])], tr_packet_queue = [], tr_unacked = {}, tr_orphans = [], tr_session = sample_sending \<rparr>"

lemma sample_sending_fills:
  assumes "tx_packet t = packet_new 100" and "tx_budget t = 1"
  shows "\<exists>s t'. send_loop 100 [3] sample_sending t = Some (s, t', True)"
proof -
  let ?d = "\<lparr> sd_parent_no = 1, sd_has_special_parent = False, sd_has_been_acked = False, sd_next_seg_off = 0,
                        sd_data = replicate 200 7, sd_flush_wakers = [] \<rparr>"
  have slot: "is_sending sample_sending 3" "slot_idx 3 (send_table sample_sending) = Some 0"
    "ss_doc_no (send_table sample_sending ! 0) = 3" "ss_doc (send_table sample_sending ! 0) = Some ?d"
    "ss_channel (send_table sample_sending ! 0) = Some sample_channel"
    by (simp_all add: sample_sending_def sample_session_def is_sending_def slot_idx_def)
  obtain d' seg where seg: "seg_try_new 3 ?d False 92 = (d', Inr seg)" "next_segment 3 ?d False 92 d' seg"
    by (cases rule: seg_try_new_cases [of ?d 3 False 92]) (auto simp: MAX_SEG_HEADER_LEN_def MIN_SEG_DATA_LEN_def)
  have "\<exists>v. variant_and_header_len seg = pack_variant v (Suc (Suc (Suc (Suc (Suc 0)))))" "length (seg_data seg) = 87"
    using seg(1) by (auto simp: seg_try_new_def Let_def varu64_len_def len_of_usize_def varusize_len_def VARINT_U8_MAX_def VARINT_U16_MAX_def MIN_SEG_DATA_LEN_def
        split: if_splits)
  then have l: "seg_header_len seg + length (seg_data seg) = 92" by auto
  note new = packet_new_ok [OF sample_tx_ok(1)]
  obtain p full where p: "append_seg (packet_new 100) seg = Some (p, full)"
    using append_seg_ok [OF new(1), of seg] seg(2) new by (auto simp: next_segment_def HEADER_LEN_def)
  have full using append_exact_full [OF p] l new by (simp add: HEADER_LEN_def)
  then have "\<exists>s t'. send_doc_frames 100 3 sample_sending t = Some (s, t', Return)"
    using p assms slot seg(1)
    by (simp add: send_doc_frames_def sample_remaining send_seg_def flow_of_def after_append_def queue_packet_def checked_sub_def Let_def)
  then show ?thesis using slot(1) by auto
qed


end
