(* ===== verification/Transport_Protocol.thy ===== *)
theory Transport_Protocol
  imports Prelude
begin

text \<open>
  The transport crate's constants (\<open>transport/src/protocol\<close> and the lengths of
  \<open>transport/src/crypto\<close>), its error types (\<open>error.rs\<close>) and the interface to the cryptographic
  primitives (the traits of \<open>transport/src/crypto\<close>, whose implementations are not part of the
  repository).

  A range \<open>A..B\<close> of the source is the pair of its bounds.
\<close>

type_synonym range = "nat \<times> nat"

section \<open>Primitives\<close>

definition KEY_LEN :: nat where "KEY_LEN = 32"
definition TAG_LEN :: nat where "TAG_LEN = 16"
definition NONCE_LEN :: nat where "NONCE_LEN = 12"
definition PUBLIC_KEY_LEN :: nat where "PUBLIC_KEY_LEN = 2592"
definition SIGN_LEN :: nat where "SIGN_LEN = 4627"
definition ENCAPSULATION_KEY_LEN :: nat where "ENCAPSULATION_KEY_LEN = 1568"
definition CIPHERTEXT_LEN :: nat where "CIPHERTEXT_LEN = 1568"
definition SHARED_SECRET_KEY_LEN :: nat where "SHARED_SECRET_KEY_LEN = 32"
definition COLLISION_RESISITANCE_NIST2_LEN :: nat where "COLLISION_RESISITANCE_NIST2_LEN = 32"
definition COLLISION_RESISITANCE_NIST5_LEN :: nat where "COLLISION_RESISITANCE_NIST5_LEN = 64"

text \<open>
  The traits \<open>Xof\<close>, \<open>Cipher\<close>, \<open>SecretKey\<close>, \<open>PublicKey\<close> and \<open>DecapsulationKey\<close> as a record of
  functions.  In-place operations return the new contents.  The randomness of \<open>encapsulate\<close> is part
  of the function; the key pair that \<open>generate\<close> returns is an argument where it is used.
\<close>

record ('x, 'sk, 'pk, 'dk) crypto =
  xof_new :: 'x
  xof_update :: "'x \<Rightarrow> bytes \<Rightarrow> 'x"
  xof_finish :: "'x \<Rightarrow> nat \<Rightarrow> bytes"
  encrypt_in_place :: "bytes \<Rightarrow> bytes \<Rightarrow> bytes \<Rightarrow> bytes \<times> bytes"
  decrypt_in_place :: "bytes \<Rightarrow> bytes \<Rightarrow> bytes \<Rightarrow> bytes \<Rightarrow> bytes \<times> bool"
  sk_sign :: "'sk \<Rightarrow> bytes \<Rightarrow> bytes \<Rightarrow> bytes"
  pk_decode :: "bytes \<Rightarrow> 'pk option"
  pk_verify :: "'pk \<Rightarrow> bytes \<Rightarrow> bytes \<Rightarrow> bytes \<Rightarrow> bool"
  dk_encapsulate :: "bytes \<Rightarrow> (bytes \<times> bytes) option"
  dk_decapsulate :: "'dk \<Rightarrow> bytes \<Rightarrow> bytes option"

text \<open>What the types of the traits promise: outputs have the declared array lengths.\<close>

definition crypto_lengths :: "('x, 'sk, 'pk, 'dk) crypto \<Rightarrow> bool" where
  "crypto_lengths c \<longleftrightarrow>
     (\<forall>x n. length (xof_finish c x n) = n) \<and>
     (\<forall>k n d. length (fst (encrypt_in_place c k n d)) = length d \<and> length (snd (encrypt_in_place c k n d)) = TAG_LEN) \<and>
     (\<forall>k n d t. length (fst (decrypt_in_place c k n d t)) = length d) \<and>
     (\<forall>sk ctx d. length (sk_sign c sk ctx d) = SIGN_LEN) \<and>
     (\<forall>ek ss ct. dk_encapsulate c ek = Some (ss, ct) \<longrightarrow> length ss = SHARED_SECRET_KEY_LEN \<and> length ct = CIPHERTEXT_LEN)"

text \<open>An authenticated cipher decrypts what it encrypted.\<close>

definition cipher_correct :: "('x, 'sk, 'pk, 'dk) crypto \<Rightarrow> bool" where
  "cipher_correct c \<longleftrightarrow>
     (\<forall>k n d ct t. encrypt_in_place c k n d = (ct, t) \<longrightarrow> decrypt_in_place c k n ct t = (d, True))"

section \<open>Domains\<close>

definition ascii :: "string \<Rightarrow> bytes" where
  "ascii s = map (\<lambda>c. of_char c) s"

definition OFFLINE_KEY_CERTIFICATION :: bytes where
  "OFFLINE_KEY_CERTIFICATION = ascii ''PQSNET_MLDSA87_CERTIFICATION''"
definition OFFLINE_SALT :: bytes where
  "OFFLINE_SALT = ascii ''PQSNET_SHAKE256_OFFLINE_SALT'' @ [0]"
definition BUNDLE_SALT :: bytes where
  "BUNDLE_SALT = ascii ''PQSNET_SHAKE256_BUNDLE_SALT'' @ [0]"
definition HANDSHAKE_SALT :: bytes where
  "HANDSHAKE_SALT = ascii ''PQSNET_TRANSPORT_AES256GCM_SHAKE256_MLKEM1024_MLDSA87''"
definition AES_GCM_FIXED_FIELD_HANDSHAKE :: bytes where
  "AES_GCM_FIXED_FIELD_HANDSHAKE = ascii ''PQSH'' @ replicate 8 0"
definition AES_GCM_FIXED_FIELD_DATA :: bytes where
  "AES_GCM_FIXED_FIELD_DATA = ascii ''PQSD'' @ replicate 8 0"

definition to_data_nonce :: "u32 \<Rightarrow> bytes" where
  "to_data_nonce counter = take (NONCE_LEN - 4) AES_GCM_FIXED_FIELD_DATA @ to_be_bytes counter"

definition to_handshake_nonce :: "u8 \<Rightarrow> bytes" where
  "to_handshake_nonce step_no = AES_GCM_FIXED_FIELD_HANDSHAKE[NONCE_LEN - 1 := step_no]"

section \<open>Symmetric state\<close>

definition CHAINING_KEY_RANGE :: range where "CHAINING_KEY_RANGE = (0, 64)"
definition AES_KEY_RANGE :: range where "AES_KEY_RANGE = (64, 96)"
definition CHANNEL_BINDING_RANGE :: range where "CHANNEL_BINDING_RANGE = (96, 160)"
definition SHAKE256_HANDSHAKE_OUTPUT_LEN :: nat where "SHAKE256_HANDSHAKE_OUTPUT_LEN = snd CHANNEL_BINDING_RANGE"

definition RESUMPTION_TOKEN_LEN :: nat where "RESUMPTION_TOKEN_LEN = COLLISION_RESISITANCE_NIST2_LEN"
definition RESUMPTION_KEY_RANGE :: range where "RESUMPTION_KEY_RANGE = (0, 64)"
definition INITIATOR_RESUMPTION_TOKEN_RANGE :: range where "INITIATOR_RESUMPTION_TOKEN_RANGE = (64, 96)"
definition RESPONDER_RESUMPTION_TOKEN_RANGE :: range where "RESPONDER_RESUMPTION_TOKEN_RANGE = (96, 128)"
definition INITIATOR_KEY_RANGE :: range where "INITIATOR_KEY_RANGE = (128, 160)"
definition RESPONDER_KEY_RANGE :: range where "RESPONDER_KEY_RANGE = (160, 192)"
definition SHAKE256_SPLIT_OUTPUT_LEN :: nat where "SHAKE256_SPLIT_OUTPUT_LEN = snd RESPONDER_KEY_RANGE"

section \<open>Key bundles\<close>

definition VERSION_IDX :: nat where "VERSION_IDX = 0"
definition VERSION_VALUE :: u8 where "VERSION_VALUE = 0"
definition OFFLINE_KEY_RANGE :: range where "OFFLINE_KEY_RANGE = (1, 1 + PUBLIC_KEY_LEN)"
definition ONLINE_KEY_RANGE :: range where
  "ONLINE_KEY_RANGE = (snd OFFLINE_KEY_RANGE, snd OFFLINE_KEY_RANGE + PUBLIC_KEY_LEN)"
definition NOT_BEFORE_RANGE :: range where "NOT_BEFORE_RANGE = (snd ONLINE_KEY_RANGE, snd ONLINE_KEY_RANGE + 8)"
definition NOT_AFTER_RANGE :: range where "NOT_AFTER_RANGE = (snd NOT_BEFORE_RANGE, snd NOT_BEFORE_RANGE + 8)"
definition COUNTER_RANGE :: range where "COUNTER_RANGE = (snd NOT_AFTER_RANGE, snd NOT_AFTER_RANGE + 4)"
definition FLAGS_RANGE :: range where "FLAGS_RANGE = (snd COUNTER_RANGE, snd COUNTER_RANGE + 4)"
definition EXTENSIONS_LEN_RANGE :: range where "EXTENSIONS_LEN_RANGE = (snd FLAGS_RANGE, snd FLAGS_RANGE + 4)"
definition EXTENSIONS_START :: nat where "EXTENSIONS_START = snd EXTENSIONS_LEN_RANGE"
definition OFFLINE_SIGN_LEN :: nat where "OFFLINE_SIGN_LEN = SIGN_LEN"
definition FLAG_RELIABLE_STORAGE :: u32 where "FLAG_RELIABLE_STORAGE = 1"
definition OFFLINE_HASH_LEN :: nat where "OFFLINE_HASH_LEN = COLLISION_RESISITANCE_NIST5_LEN"
definition BUNDLE_HASH_LEN :: nat where "BUNDLE_HASH_LEN = COLLISION_RESISITANCE_NIST5_LEN"

section \<open>Messages\<close>

text \<open>
  The tail of the three messages is the same: a tag of the payload, a signature and its tag.  The
  names with \<open>REV\<close> count from the end of the message.
\<close>

definition ONLINE_SIGN_TAG_REV_START :: nat where "ONLINE_SIGN_TAG_REV_START = 0"
definition ONLINE_SIGN_TAG_REV_END :: nat where "ONLINE_SIGN_TAG_REV_END = ONLINE_SIGN_TAG_REV_START + TAG_LEN"
definition ONLINE_SIGN_REV_END :: nat where "ONLINE_SIGN_REV_END = ONLINE_SIGN_TAG_REV_END + SIGN_LEN"
definition PAYLOAD_TAG_REV_START :: nat where "PAYLOAD_TAG_REV_START = ONLINE_SIGN_REV_END"
definition PAYLOAD_TAG_REV_END :: nat where "PAYLOAD_TAG_REV_END = PAYLOAD_TAG_REV_START + TAG_LEN"
definition PAYLOAD_REV_START :: nat where "PAYLOAD_REV_START = PAYLOAD_TAG_REV_END"

text \<open>The initialize message.\<close>

definition EPHEMERAL_ENC_KEY_RANGE :: range where "EPHEMERAL_ENC_KEY_RANGE = (0, ENCAPSULATION_KEY_LEN)"
definition EPHEMERAL_ENC_KEY_END :: nat where "EPHEMERAL_ENC_KEY_END = snd EPHEMERAL_ENC_KEY_RANGE"
definition RESUMPTION_TOKEN_RANGE :: range where
  "RESUMPTION_TOKEN_RANGE = (EPHEMERAL_ENC_KEY_END, EPHEMERAL_ENC_KEY_END + RESUMPTION_TOKEN_LEN)"
definition RESUMPTION_TOKEN_END :: nat where "RESUMPTION_TOKEN_END = snd RESUMPTION_TOKEN_RANGE"
definition KEY_BUNDLE_CHECKSUM_LEN :: nat where "KEY_BUNDLE_CHECKSUM_LEN = COLLISION_RESISITANCE_NIST2_LEN"
definition KEY_BUNDLE_CHECKSUM_RANGE :: range where
  "KEY_BUNDLE_CHECKSUM_RANGE = (RESUMPTION_TOKEN_END, RESUMPTION_TOKEN_END + KEY_BUNDLE_CHECKSUM_LEN)"
definition INIT_PAYLOAD_START :: nat where "INIT_PAYLOAD_START = snd KEY_BUNDLE_CHECKSUM_RANGE"

text \<open>The reply message.\<close>

definition HANDSHAKE_TYPE_IDX :: nat where "HANDSHAKE_TYPE_IDX = 0"
definition EPHEMERAL_CIPHERTEXT_RANGE :: range where "EPHEMERAL_CIPHERTEXT_RANGE = (1, 1 + CIPHERTEXT_LEN)"
definition EPHEMERAL_CIPHERTEXT_END :: nat where "EPHEMERAL_CIPHERTEXT_END = snd EPHEMERAL_CIPHERTEXT_RANGE"
definition REPLY_PAYLOAD_START :: nat where "REPLY_PAYLOAD_START = EPHEMERAL_CIPHERTEXT_END"
definition HANDSHAKE_TYPE_FULL :: u8 where "HANDSHAKE_TYPE_FULL = 0"
definition HANDSHAKE_TYPE_FALLBACK :: u8 where "HANDSHAKE_TYPE_FALLBACK = 1"
definition HANDSHAKE_TYPE_RESUME :: u8 where "HANDSHAKE_TYPE_RESUME = 2"
definition HANDSHAKE_TYPE_MAX :: u8 where "HANDSHAKE_TYPE_MAX = 2"

text \<open>The confirm message.\<close>

definition CONFIRM_PAYLOAD_START :: nat where "CONFIRM_PAYLOAD_START = 0"

lemmas crypto_lens =
  KEY_LEN_def TAG_LEN_def NONCE_LEN_def PUBLIC_KEY_LEN_def SIGN_LEN_def ENCAPSULATION_KEY_LEN_def CIPHERTEXT_LEN_def
  SHARED_SECRET_KEY_LEN_def COLLISION_RESISITANCE_NIST2_LEN_def COLLISION_RESISITANCE_NIST5_LEN_def

lemmas bundle_layout =
  VERSION_IDX_def OFFLINE_KEY_RANGE_def ONLINE_KEY_RANGE_def NOT_BEFORE_RANGE_def NOT_AFTER_RANGE_def COUNTER_RANGE_def
  FLAGS_RANGE_def EXTENSIONS_LEN_RANGE_def EXTENSIONS_START_def OFFLINE_SIGN_LEN_def

lemmas tail_layout =
  ONLINE_SIGN_TAG_REV_START_def ONLINE_SIGN_TAG_REV_END_def ONLINE_SIGN_REV_END_def PAYLOAD_TAG_REV_START_def
  PAYLOAD_TAG_REV_END_def PAYLOAD_REV_START_def

lemmas init_layout =
  EPHEMERAL_ENC_KEY_RANGE_def EPHEMERAL_ENC_KEY_END_def RESUMPTION_TOKEN_RANGE_def RESUMPTION_TOKEN_END_def
  KEY_BUNDLE_CHECKSUM_RANGE_def KEY_BUNDLE_CHECKSUM_LEN_def INIT_PAYLOAD_START_def RESUMPTION_TOKEN_LEN_def

lemmas reply_layout =
  HANDSHAKE_TYPE_IDX_def EPHEMERAL_CIPHERTEXT_RANGE_def EPHEMERAL_CIPHERTEXT_END_def REPLY_PAYLOAD_START_def

section \<open>Errors\<close>

datatype error = Error_Invalid | Error_Inauthentic | Error_AllocFailure

datatype reply_error =
  Reply_Invalid | Reply_Inauthentic | Reply_InvalidPayload | Reply_IncorrectResumption | Reply_AllocFailure

datatype auth_error =
  Auth_Invalid | Auth_Inauthentic | Auth_ExpiredKey | Auth_PostdatedKey | Auth_UnrecognizedVersion | Auth_AllocFailure

fun reply_of_error :: "error \<Rightarrow> reply_error" where
  "reply_of_error Error_Invalid = Reply_Invalid"
| "reply_of_error Error_Inauthentic = Reply_Inauthentic"
| "reply_of_error Error_AllocFailure = Reply_AllocFailure"

fun auth_of_error :: "error \<Rightarrow> auth_error" where
  "auth_of_error Error_Invalid = Auth_Invalid"
| "auth_of_error Error_Inauthentic = Auth_Inauthentic"
| "auth_of_error Error_AllocFailure = Auth_AllocFailure"

fun error_of_auth :: "auth_error \<Rightarrow> error" where
  "error_of_auth Auth_Invalid = Error_Invalid"
| "error_of_auth Auth_Inauthentic = Error_Inauthentic"
| "error_of_auth Auth_ExpiredKey = Error_Invalid"
| "error_of_auth Auth_PostdatedKey = Error_Invalid"
| "error_of_auth Auth_UnrecognizedVersion = Error_Invalid"
| "error_of_auth Auth_AllocFailure = Error_AllocFailure"

definition reply_of_auth :: "auth_error \<Rightarrow> reply_error" where
  "reply_of_auth e = reply_of_error (error_of_auth e)"

section \<open>Slices of messages\<close>

text \<open>The part of a buffer in a range, and replacing it.\<close>

definition slice_range :: "'a list \<Rightarrow> range \<Rightarrow> 'a list option" where
  "slice_range xs r = slice xs (fst r) (snd r)"

definition put_range :: "'a list \<Rightarrow> range \<Rightarrow> 'a list \<Rightarrow> 'a list option" where
  "put_range xs r ys = copy_range xs (fst r) (snd r) ys"

text \<open>Running an in-place operation on a range of a buffer.\<close>

definition on_range :: "'a list \<Rightarrow> range \<Rightarrow> ('a list \<Rightarrow> ('s \<times> 'a list) option) \<Rightarrow> ('s \<times> 'a list) option" where
  "on_range buf r f =
     (case slice_range buf r of
        None \<Rightarrow> None
      | Some part \<Rightarrow>
          (case f part of
             None \<Rightarrow> None
           | Some (s, part') \<Rightarrow> (case put_range buf r part' of None \<Rightarrow> None | Some buf' \<Rightarrow> Some (s, buf'))))"

end
