(* ===== verification/Key_Bundle.thy ===== *)
theory Key_Bundle
  imports Transport_Protocol
begin

text \<open>
  Key bundles, \<open>transport/src/key_bundle.rs\<close>: an offline key certifies an online key for a period of
  time.  A public key is of type \<open>'pk\<close>, a secret key of type \<open>'sk\<close>.
\<close>

section \<open>Data\<close>

record 'pk authentic_bundle =
  offline_hash :: bytes
  bundle_hash :: bytes
  online_key :: 'pk
  not_before :: u64
  not_after :: u64
  bundle_counter :: u32
  bundle_flags :: u32
  public_bytes :: bytes

record ('sk, 'pk) secret_bundle =
  online_secret_key :: 'sk
  public_bundle :: "'pk authentic_bundle"

section \<open>Operations\<close>

definition hash_bundle :: "('x, 'sk, 'pk, 'dk) crypto \<Rightarrow> bytes \<Rightarrow> (bytes \<times> bytes) option" where
  "hash_bundle c buf =
     do {
       key \<leftarrow> slice_range buf OFFLINE_KEY_RANGE;
       Some (xof_finish c (xof_update c (xof_update c (xof_new c) OFFLINE_SALT) key) OFFLINE_HASH_LEN,
             xof_finish c (xof_update c (xof_update c (xof_new c) BUNDLE_SALT) buf) BUNDLE_HASH_LEN)
     }"

text \<open>
  The parameter \<open>sign\<close> is the \<open>sign\<close> function of the offline secret key, whose type is chosen by the
  caller; \<open>malloc\<close> is \<open>BundleMem::malloc\<close>.
\<close>

definition secret_bundle_new ::
  "('x, 'sk, 'pk, 'dk) crypto \<Rightarrow> (bytes \<Rightarrow> bytes \<Rightarrow> bytes) \<Rightarrow> 'sk \<Rightarrow> bytes \<Rightarrow> 'pk \<Rightarrow> bytes \<Rightarrow> u64 \<Rightarrow> u64 \<Rightarrow> u32 \<Rightarrow> u32 \<Rightarrow>
   bytes \<Rightarrow> (nat \<Rightarrow> bytes option) \<Rightarrow> ('sk, 'pk) secret_bundle option" where
  "secret_bundle_new c sign secret_key offline_public_key_bytes online_public_key online_public_key_bytes
     before after counter flags extensions malloc =
     do {
       let offline_sign_start = EXTENSIONS_START + length extensions;
       let offline_sign_end = offline_sign_start + OFFLINE_SIGN_LEN;
       buf \<leftarrow> malloc offline_sign_end;
       buf \<leftarrow> set_idx buf VERSION_IDX VERSION_VALUE;
       buf \<leftarrow> put_range buf OFFLINE_KEY_RANGE offline_public_key_bytes;
       buf \<leftarrow> put_range buf ONLINE_KEY_RANGE online_public_key_bytes;
       buf \<leftarrow> put_range buf NOT_BEFORE_RANGE (to_be_bytes before);
       buf \<leftarrow> put_range buf NOT_AFTER_RANGE (to_be_bytes after);
       buf \<leftarrow> put_range buf COUNTER_RANGE (to_be_bytes counter);
       buf \<leftarrow> put_range buf FLAGS_RANGE (to_be_bytes flags);
       buf \<leftarrow> put_range buf EXTENSIONS_LEN_RANGE (to_be_bytes (word_of_nat (length extensions) :: u32));
       buf \<leftarrow> put_range buf (EXTENSIONS_START, offline_sign_start) extensions;
       signed \<leftarrow> slice buf 0 offline_sign_start;
       buf \<leftarrow> put_range buf (offline_sign_start, offline_sign_end) (sign OFFLINE_KEY_CERTIFICATION signed);
       (oh, bh) \<leftarrow> hash_bundle c buf;
       Some \<lparr> online_secret_key = secret_key,
         public_bundle = \<lparr> offline_hash = oh, bundle_hash = bh, online_key = online_public_key, not_before = before,
           not_after = after, bundle_counter = counter, bundle_flags = flags, public_bytes = buf \<rparr> \<rparr>
     }"

definition bundle_sign :: "('x, 'sk, 'pk, 'dk) crypto \<Rightarrow> ('sk, 'pk) secret_bundle \<Rightarrow> bytes \<Rightarrow> bytes \<Rightarrow> bytes" where
  "bundle_sign c b ctx data = sk_sign c (online_secret_key b) ctx data"

definition authenticate ::
  "('x, 'sk, 'pk, 'dk) crypto \<Rightarrow> bytes \<Rightarrow> u64 \<Rightarrow> (nat \<Rightarrow> bytes option) \<Rightarrow> (auth_error + 'pk authentic_bundle) option" where
  "authenticate c buf secs_since_unix_epoch malloc =
     do {
       version \<leftarrow> get_idx buf VERSION_IDX;
       if version \<noteq> VERSION_VALUE then Some (Inl Auth_UnrecognizedVersion)
       else do {
         before \<leftarrow> slice_range buf NOT_BEFORE_RANGE;
         after \<leftarrow> slice_range buf NOT_AFTER_RANGE;
         counter \<leftarrow> slice_range buf COUNTER_RANGE;
         flags \<leftarrow> slice_range buf FLAGS_RANGE;
         extensions_len \<leftarrow> slice_range buf EXTENSIONS_LEN_RANGE;
         let offline_sign_start = EXTENSIONS_START + unat (from_be_bytes extensions_len :: u32);
         let offline_sign_end = offline_sign_start + OFFLINE_SIGN_LEN;
         if secs_since_unix_epoch < from_be_bytes before then Some (Inl Auth_PostdatedKey)
         else if secs_since_unix_epoch > from_be_bytes after then Some (Inl Auth_ExpiredKey)
         else do {
           offline_key_bytes \<leftarrow> slice_range buf OFFLINE_KEY_RANGE;
           case pk_decode c offline_key_bytes of
             None \<Rightarrow> Some (Inl Auth_Inauthentic)
           | Some offline_key \<Rightarrow> do {
               signed \<leftarrow> slice buf 0 offline_sign_start;
               signature \<leftarrow> slice buf offline_sign_start offline_sign_end;
               if \<not> pk_verify c offline_key OFFLINE_KEY_CERTIFICATION signed signature
               then Some (Inl Auth_Inauthentic)
               else do {
                 online_key_bytes \<leftarrow> slice_range buf ONLINE_KEY_RANGE;
                 case pk_decode c online_key_bytes of
                   None \<Rightarrow> Some (Inl Auth_Inauthentic)
                 | Some key \<Rightarrow> do {
                     whole \<leftarrow> slice buf 0 offline_sign_end;
                     (oh, bh) \<leftarrow> hash_bundle c whole;
                     case malloc offline_sign_end of
                       None \<Rightarrow> Some (Inl Auth_AllocFailure)
                     | Some bundle_bytes \<Rightarrow> do {
                         bundle_bytes \<leftarrow> copy_range bundle_bytes 0 (length bundle_bytes) whole;
                         Some (Inr \<lparr> offline_hash = oh, bundle_hash = bh, online_key = key,
                           not_before = from_be_bytes before, not_after = from_be_bytes after,
                           bundle_counter = from_be_bytes counter, bundle_flags = from_be_bytes flags,
                           public_bytes = bundle_bytes \<rparr>)
                       }
                   }
               }
             }
         }
       }
     }"

definition bundle_verify ::
  "('x, 'sk, 'pk, 'dk) crypto \<Rightarrow> 'pk authentic_bundle \<Rightarrow> bytes \<Rightarrow> bytes \<Rightarrow> bytes \<Rightarrow> u64 \<Rightarrow> auth_error + unit" where
  "bundle_verify c b ctx data signature secs_since_unix_epoch =
     (if secs_since_unix_epoch < not_before b then Inl Auth_PostdatedKey
      else if secs_since_unix_epoch > not_after b then Inl Auth_ExpiredKey
      else if \<not> pk_verify c (online_key b) ctx data signature then Inl Auth_Inauthentic
      else Inr ())"

definition offline_eq_raw :: "'pk authentic_bundle \<Rightarrow> bytes \<Rightarrow> bool" where
  "offline_eq_raw b other \<longleftrightarrow> offline_hash b = other"

definition bundle_eq_raw :: "'pk authentic_bundle \<Rightarrow> bytes \<Rightarrow> bool" where
  "bundle_eq_raw b other \<longleftrightarrow> bundle_hash b = other"

definition offline_eq :: "'pk authentic_bundle \<Rightarrow> 'pk authentic_bundle \<Rightarrow> bool" where
  "offline_eq b other \<longleftrightarrow> offline_eq_raw b (offline_hash other)"

definition bundle_eq :: "'pk authentic_bundle \<Rightarrow> 'pk authentic_bundle \<Rightarrow> bool" where
  "bundle_eq b other \<longleftrightarrow> bundle_eq_raw b (bundle_hash other)"

definition extensions :: "'pk authentic_bundle \<Rightarrow> bytes option" where
  "extensions b = slice (public_bytes b) EXTENSIONS_START (length (public_bytes b))"

section \<open>The layout of a bundle\<close>

text \<open>The signed part of a bundle and the whole of it.\<close>

definition bundle_body :: "bytes \<Rightarrow> bytes \<Rightarrow> u64 \<Rightarrow> u64 \<Rightarrow> u32 \<Rightarrow> u32 \<Rightarrow> bytes \<Rightarrow> bytes" where
  "bundle_body offline online before after counter flags ext =
     [VERSION_VALUE] @ offline @ online @ to_be_bytes before @ to_be_bytes after @ to_be_bytes counter @ to_be_bytes flags
     @ to_be_bytes (word_of_nat (length ext) :: u32) @ ext"

lemma put_next:
  assumes "length pre = a" and "b = a + length new" and "b \<le> length buf"
  shows "put_range (pre @ drop a buf) (a, b) new = Some ((pre @ new) @ drop b buf)"
  using assms by (simp add: put_range_def copy_range_def add.commute)

lemma slice_next:
  assumes "length pre = a" and "b = a + length part"
  shows "slice_range (pre @ part @ post) (a, b) = Some part"
  using assms by (simp add: slice_range_def slice_def)

lemma slice_prefix: "n = length pre \<Longrightarrow> slice (pre @ post) 0 n = Some pre"
  by (simp add: slice_def)

lemmas layout_ranges =
  OFFLINE_KEY_RANGE_def ONLINE_KEY_RANGE_def NOT_BEFORE_RANGE_def NOT_AFTER_RANGE_def COUNTER_RANGE_def FLAGS_RANGE_def
  EXTENSIONS_LEN_RANGE_def EXTENSIONS_START_def

lemma length_bundle_body:
  "length offline = PUBLIC_KEY_LEN \<Longrightarrow> length online = PUBLIC_KEY_LEN \<Longrightarrow>
     length (bundle_body offline online before after counter flags ext) = EXTENSIONS_START + length ext"
  by (simp add: bundle_body_def layout_ranges)

lemma secret_bundle_new_layout:
  fixes before after :: u64 and counter flags :: u32 and offline online ext :: bytes
  defines "body \<equiv> bundle_body offline online before after counter flags ext"
  assumes keys: "length offline = PUBLIC_KEY_LEN" "length online = PUBLIC_KEY_LEN"
    and sig: "length (sign OFFLINE_KEY_CERTIFICATION body) = OFFLINE_SIGN_LEN"
    and mem: "malloc (EXTENSIONS_START + length ext + OFFLINE_SIGN_LEN) = Some buf"
      "length buf = EXTENSIONS_START + length ext + OFFLINE_SIGN_LEN"
    and hash: "hash_bundle c (body @ sign OFFLINE_KEY_CERTIFICATION body) = Some (oh, bh)"
  shows "secret_bundle_new c sign sk offline pk online before after counter flags ext malloc =
    Some \<lparr> online_secret_key = sk, public_bundle = \<lparr> offline_hash = oh, bundle_hash = bh, online_key = pk,
      not_before = before, not_after = after, bundle_counter = counter, bundle_flags = flags,
      public_bytes = body @ sign OFFLINE_KEY_CERTIFICATION body \<rparr> \<rparr>"
proof -
  define p1 where "p1 = [VERSION_VALUE]"
  define p2 where "p2 = p1 @ offline"
  define p3 where "p3 = p2 @ online"
  define p4 where "p4 = p3 @ to_be_bytes before"
  define p5 where "p5 = p4 @ to_be_bytes after"
  define p6 where "p6 = p5 @ to_be_bytes counter"
  define p7 where "p7 = p6 @ to_be_bytes flags"
  define p8 where "p8 = p7 @ to_be_bytes (word_of_nat (length ext) :: u32)"
  have p9: "p8 @ ext = body"
    by (simp add: p1_def p2_def p3_def p4_def p5_def p6_def p7_def p8_def body_def bundle_body_def)
  have l1: "length p1 = 1" by (simp add: p1_def)
  have l2: "length p2 = snd OFFLINE_KEY_RANGE" by (simp add: p2_def l1 keys OFFLINE_KEY_RANGE_def)
  have l3: "length p3 = snd ONLINE_KEY_RANGE" by (simp add: p3_def l2 keys ONLINE_KEY_RANGE_def)
  have l4: "length p4 = snd NOT_BEFORE_RANGE" by (simp add: p4_def l3 NOT_BEFORE_RANGE_def)
  have l5: "length p5 = snd NOT_AFTER_RANGE" by (simp add: p5_def l4 NOT_AFTER_RANGE_def)
  have l6: "length p6 = snd COUNTER_RANGE" by (simp add: p6_def l5 COUNTER_RANGE_def)
  have l7: "length p7 = snd FLAGS_RANGE" by (simp add: p7_def l6 FLAGS_RANGE_def)
  have l8: "length p8 = EXTENSIONS_START" by (simp add: p8_def l7 EXTENSIONS_LEN_RANGE_def EXTENSIONS_START_def)
  have l9: "length body = EXTENSIONS_START + length ext" using p9 l8 by (metis length_append)
  have le: "snd OFFLINE_KEY_RANGE \<le> length buf" "snd ONLINE_KEY_RANGE \<le> length buf" "snd NOT_BEFORE_RANGE \<le> length buf"
    "snd NOT_AFTER_RANGE \<le> length buf" "snd COUNTER_RANGE \<le> length buf" "snd FLAGS_RANGE \<le> length buf"
    "EXTENSIONS_START \<le> length buf" "0 < length buf"
    by (simp_all add: mem layout_ranges)
  have "set_idx buf VERSION_IDX VERSION_VALUE = Some (p1 @ drop 1 buf)"
    using le(8) by (simp add: set_idx_def VERSION_IDX_def p1_def upd_conv_take_nth_drop)
  moreover have "put_range (p1 @ drop 1 buf) OFFLINE_KEY_RANGE offline = Some (p2 @ drop (snd OFFLINE_KEY_RANGE) buf)"
    unfolding p2_def using put_next [OF l1 _ le(1), of offline] keys by (simp add: OFFLINE_KEY_RANGE_def)
  moreover have "put_range (p2 @ drop (snd OFFLINE_KEY_RANGE) buf) ONLINE_KEY_RANGE online = Some (p3 @ drop (snd ONLINE_KEY_RANGE) buf)"
    unfolding p3_def using put_next [OF l2 _ le(2), of online] keys by (simp add: ONLINE_KEY_RANGE_def)
  moreover have "put_range (p3 @ drop (snd ONLINE_KEY_RANGE) buf) NOT_BEFORE_RANGE (to_be_bytes before) = Some (p4 @ drop (snd NOT_BEFORE_RANGE) buf)"
    unfolding p4_def using put_next [OF l3 _ le(3), of "to_be_bytes before"] by (simp add: NOT_BEFORE_RANGE_def)
  moreover have "put_range (p4 @ drop (snd NOT_BEFORE_RANGE) buf) NOT_AFTER_RANGE (to_be_bytes after) = Some (p5 @ drop (snd NOT_AFTER_RANGE) buf)"
    unfolding p5_def using put_next [OF l4 _ le(4), of "to_be_bytes after"] by (simp add: NOT_AFTER_RANGE_def)
  moreover have "put_range (p5 @ drop (snd NOT_AFTER_RANGE) buf) COUNTER_RANGE (to_be_bytes counter) = Some (p6 @ drop (snd COUNTER_RANGE) buf)"
    unfolding p6_def using put_next [OF l5 _ le(5), of "to_be_bytes counter"] by (simp add: COUNTER_RANGE_def)
  moreover have "put_range (p6 @ drop (snd COUNTER_RANGE) buf) FLAGS_RANGE (to_be_bytes flags) = Some (p7 @ drop (snd FLAGS_RANGE) buf)"
    unfolding p7_def using put_next [OF l6 _ le(6), of "to_be_bytes flags"] by (simp add: FLAGS_RANGE_def)
  moreover have "put_range (p7 @ drop (snd FLAGS_RANGE) buf) EXTENSIONS_LEN_RANGE (to_be_bytes (word_of_nat (length ext) :: u32))
      = Some (p8 @ drop EXTENSIONS_START buf)"
    unfolding p8_def using put_next [OF l7 _ le(7), of "to_be_bytes (word_of_nat (length ext) :: u32)"]
    by (simp add: EXTENSIONS_LEN_RANGE_def EXTENSIONS_START_def)
  moreover have "put_range (p8 @ drop EXTENSIONS_START buf) (EXTENSIONS_START, EXTENSIONS_START + length ext) ext =
      Some (body @ drop (EXTENSIONS_START + length ext) buf)"
    using put_next [OF l8, of "EXTENSIONS_START + length ext" ext buf] mem(2) p9 by simp
  moreover have "slice (body @ drop (EXTENSIONS_START + length ext) buf) 0 (EXTENSIONS_START + length ext) = Some body"
    by (rule slice_prefix) (simp add: l9)
  moreover have "put_range (body @ drop (EXTENSIONS_START + length ext) buf)
      (EXTENSIONS_START + length ext, EXTENSIONS_START + length ext + OFFLINE_SIGN_LEN) (sign OFFLINE_KEY_CERTIFICATION body)
      = Some (body @ sign OFFLINE_KEY_CERTIFICATION body)"
    using put_next [OF l9, of _ "sign OFFLINE_KEY_CERTIFICATION body" buf] sig mem(2) by simp
  ultimately show ?thesis
    unfolding secret_bundle_new_def Let_def by (simp only: mem hash bind.simps prod.case)
qed

text \<open>The fields are found where they were put.\<close>

lemma bundle_body_fields:
  fixes before after :: u64 and counter flags :: u32 and offline online ext :: bytes
  defines "B \<equiv> bundle_body offline online before after counter flags ext"
  assumes keys: "length offline = PUBLIC_KEY_LEN" "length online = PUBLIC_KEY_LEN"
  shows "get_idx (B @ r) VERSION_IDX = Some VERSION_VALUE"
    and "slice_range (B @ r) OFFLINE_KEY_RANGE = Some offline"
    and "slice_range (B @ r) ONLINE_KEY_RANGE = Some online"
    and "slice_range (B @ r) NOT_BEFORE_RANGE = Some (to_be_bytes before)"
    and "slice_range (B @ r) NOT_AFTER_RANGE = Some (to_be_bytes after)"
    and "slice_range (B @ r) COUNTER_RANGE = Some (to_be_bytes counter)"
    and "slice_range (B @ r) FLAGS_RANGE = Some (to_be_bytes flags)"
    and "slice_range (B @ r) EXTENSIONS_LEN_RANGE = Some (to_be_bytes (word_of_nat (length ext) :: u32))"
  using keys
  by (simp_all add: B_def bundle_body_def get_idx_def VERSION_IDX_def slice_range_def slice_def layout_ranges
      PUBLIC_KEY_LEN_def)

lemma authenticate_layout:
  fixes before after :: u64 and counter flags :: u32 and offline online ext :: bytes
  defines "body \<equiv> bundle_body offline online before after counter flags ext"
  assumes keys: "length offline = PUBLIC_KEY_LEN" "length online = PUBLIC_KEY_LEN" and ext: "length ext < 2 ^ 32"
    and sig: "length signature = OFFLINE_SIGN_LEN"
    and decode: "pk_decode c offline = Some opk" "pk_decode c online = Some npk"
    and verify: "pk_verify c opk OFFLINE_KEY_CERTIFICATION body signature"
    and time: "before \<le> now" "now \<le> after"
    and mem: "malloc (length (body @ signature)) = Some m" "length m = length (body @ signature)"
    and hash: "hash_bundle c (body @ signature) = Some (oh, bh)"
  shows "authenticate c (body @ signature @ rest) now malloc =
    Some (Inr \<lparr> offline_hash = oh, bundle_hash = bh, online_key = npk, not_before = before, not_after = after,
      bundle_counter = counter, bundle_flags = flags, public_bytes = body @ signature \<rparr>)"
proof -
  note fields = bundle_body_fields [OF keys, of before after counter flags ext, folded body_def]
  have lb: "length body = EXTENSIONS_START + length ext" unfolding body_def by (rule length_bundle_body [OF keys])
  have "unat (word_of_nat (length ext) :: u32) = length ext" using ext by (simp add: unat_of_nat)
  then have start: "EXTENSIONS_START + unat (from_be_bytes (to_be_bytes (word_of_nat (length ext) :: u32)) :: u32) = length body"
    by (simp add: from_be_to_be lb)
  have be: "from_be_bytes (to_be_bytes before) = before" "from_be_bytes (to_be_bytes after) = after"
    "from_be_bytes (to_be_bytes counter) = counter" "from_be_bytes (to_be_bytes flags) = flags"
    by (simp_all add: from_be_to_be)
  have sl: "slice (body @ signature @ rest) 0 (length body) = Some body"
    "slice (body @ signature @ rest) (length body) (length body + OFFLINE_SIGN_LEN) = Some signature"
    "slice (body @ signature @ rest) 0 (length body + OFFLINE_SIGN_LEN) = Some (body @ signature)"
    using sig by (simp_all add: slice_def)
  have mem': "malloc (length body + OFFLINE_SIGN_LEN) = Some m" using mem(1) sig by simp
  have copy: "copy_range m 0 (length m) (body @ signature) = Some (body @ signature)"
    using mem(2) by (simp add: copy_range_def)
  have t: "\<not> now < before" "\<not> now > after" using time by auto
  show ?thesis
    unfolding authenticate_def Let_def
    by (simp only: fields bind.simps be start t decode option.case sl verify hash mem' copy prod.case
        simp_thms not_True_eq_False not_False_eq_True if_False if_True)
qed

section \<open>Properties\<close>

text \<open>
  C21. A bundle that \<open>SecretBundle::new\<close> made is accepted by \<open>authenticate\<close>, also when other data follows
  it, and the result is the public part of the secret bundle, field by field and byte by byte;
  provided the offline public key verifies what the offline secret key signed and the time is in the
  period of validity.  The accessor \<open>extensions()\<close> returns more than the extensions: the signature
  behind them is part of its result.
\<close>

theorem bundle_roundtrip:
  assumes "length offline = PUBLIC_KEY_LEN" and "length online = PUBLIC_KEY_LEN" and "length ext < 2 ^ 32"
    and "\<And>ctx d. length (sign ctx d) = SIGN_LEN" and "\<And>ctx d. pk_verify c opk ctx d (sign ctx d)"
    and "pk_decode c offline = Some opk" and "pk_decode c online = Some npk" and "before \<le> now" and "now \<le> after"
    and "\<And>n. \<exists>m. malloc n = Some m \<and> length m = n"
  shows "\<exists>b. secret_bundle_new c sign sk offline npk online before after counter flags ext malloc = Some b \<and>
     authenticate c (public_bytes (public_bundle b) @ rest) now malloc = Some (Inr (public_bundle b)) \<and>
     online_secret_key b = sk \<and> bundle_flags (public_bundle b) = flags \<and>
     (\<exists>sig. length sig = SIGN_LEN \<and> extensions (public_bundle b) = Some (ext @ sig))"
proof -
  define body where "body = bundle_body offline online before after counter flags ext"
  define sig where "sig = sign OFFLINE_KEY_CERTIFICATION body"
  have lb: "length body = EXTENSIONS_START + length ext" unfolding body_def by (rule length_bundle_body [OF assms(1,2)])
  have ls: "length sig = OFFLINE_SIGN_LEN" by (simp add: sig_def assms(4) OFFLINE_SIGN_LEN_def)
  obtain oh bh where hash: "hash_bundle c (body @ sig) = Some (oh, bh)"
    using bundle_body_fields(2) [OF assms(1,2), of before after counter flags ext sig]
    by (simp add: hash_bundle_def body_def)
  obtain m where m: "malloc (length (body @ sig)) = Some m" "length m = length (body @ sig)" using assms(10) by blast
  let ?b = "\<lparr> online_secret_key = sk, public_bundle = \<lparr> offline_hash = oh, bundle_hash = bh, online_key = npk,
      not_before = before, not_after = after, bundle_counter = counter, bundle_flags = flags, public_bytes = body @ sig \<rparr> \<rparr>"
  have new: "secret_bundle_new c sign sk offline npk online before after counter flags ext malloc = Some ?b"
    using secret_bundle_new_layout [OF assms(1,2), where sign = sign and malloc = malloc and c = c and buf = m
        and before = before and after = after and counter = counter and flags = flags and ext = ext] m hash ls lb
    by (simp add: body_def [symmetric] sig_def [symmetric])
  have auth: "authenticate c (body @ sig @ rest) now malloc = Some (Inr (public_bundle ?b))"
    using authenticate_layout [where malloc = malloc and m = m and before = before and after = after and counter = counter
        and flags = flags, OF assms(1-3) ls assms(6,7) _ assms(8,9), folded body_def, OF _ m hash, of rest]
      assms(5) [of OFFLINE_KEY_CERTIFICATION body]
    by (simp add: sig_def)
  obtain pre where pre: "body = pre @ ext"
    unfolding body_def bundle_body_def by (metis append.assoc)
  then have "length pre = EXTENSIONS_START" using lb by simp
  then have "slice (body @ sig) EXTENSIONS_START (length (body @ sig)) = Some (ext @ sig)"
    by (simp add: slice_def pre)
  then show ?thesis using new auth ls by (auto simp: extensions_def OFFLINE_SIGN_LEN_def)
qed

text \<open>A cryptography for the examples: no secrecy at all, but with the right lengths and inverses.\<close>

definition sample_crypto :: "(bytes, unit, unit, unit) crypto" where
  "sample_crypto = \<lparr> xof_new = [], xof_update = (\<lambda>x d. x @ d), xof_finish = (\<lambda>x n. take n (x @ replicate n 0)),
     encrypt_in_place = (\<lambda>k n d. (d, replicate TAG_LEN 0)), decrypt_in_place = (\<lambda>k n d t. (d, t = replicate TAG_LEN 0)),
     sk_sign = (\<lambda>sk ctx d. replicate SIGN_LEN 0), pk_decode = (\<lambda>b. Some ()),
     pk_verify = (\<lambda>pk ctx d s. s = replicate SIGN_LEN 0),
     dk_encapsulate = (\<lambda>ek. Some (replicate SHARED_SECRET_KEY_LEN 1, replicate CIPHERTEXT_LEN 1)),
     dk_decapsulate = (\<lambda>dk ct. Some (replicate SHARED_SECRET_KEY_LEN 1)) \<rparr>"

definition sample_malloc :: "nat \<Rightarrow> bytes option" where
  "sample_malloc n = Some (replicate n 0)"

lemma sample_crypto_ok: "crypto_lengths sample_crypto" "cipher_correct sample_crypto"
  by (auto simp: crypto_lengths_def cipher_correct_def sample_crypto_def)

theorem bundle_roundtrip_witness:
  "\<exists>b. secret_bundle_new sample_crypto (sk_sign sample_crypto ()) () (replicate PUBLIC_KEY_LEN 1) () (replicate PUBLIC_KEY_LEN 2)
       10 20 1 0 [7, 8] sample_malloc = Some b \<and>
     authenticate sample_crypto (public_bytes (public_bundle b) @ [9]) 15 sample_malloc = Some (Inr (public_bundle b))"
proof -
  have "\<And>ctx d. length (sk_sign sample_crypto () ctx d) = SIGN_LEN"
    and "\<And>ctx d. pk_verify sample_crypto () ctx d (sk_sign sample_crypto () ctx d)"
    and "\<And>b. pk_decode sample_crypto b = Some ()"
    by (simp_all add: sample_crypto_def)
  moreover have "\<And>n. \<exists>m. sample_malloc n = Some m \<and> length m = n" by (simp add: sample_malloc_def)
  ultimately show ?thesis
    using bundle_roundtrip [of "replicate PUBLIC_KEY_LEN 1" "replicate PUBLIC_KEY_LEN 2" "[7, 8]"
        "sk_sign sample_crypto ()" sample_crypto "()" "()" 10 15 20 sample_malloc "()" 1 0 "[9]"]
    by fastforce
qed

text \<open>
  C22. What \<open>authenticate\<close> accepts is certified: the time is in the period of validity that the bundle
  states, the offline key in the bundle verifies the signature at its end over everything before it,
  the online key is the one in the bundle, and the bytes kept are exactly the bundle.
\<close>

theorem authenticate_sound:
  assumes "authenticate c buf now malloc = Some (Inr b)"
  shows "not_before b \<le> now \<and> now \<le> not_after b \<and>
    (\<exists>n offline online opk. EXTENSIONS_START \<le> n \<and> n + OFFLINE_SIGN_LEN \<le> length buf \<and>
       slice_range buf OFFLINE_KEY_RANGE = Some offline \<and> pk_decode c offline = Some opk \<and>
       pk_verify c opk OFFLINE_KEY_CERTIFICATION (take n buf) (take OFFLINE_SIGN_LEN (drop n buf)) \<and>
       slice_range buf ONLINE_KEY_RANGE = Some online \<and> pk_decode c online = Some (online_key b) \<and>
       public_bytes b = take (n + OFFLINE_SIGN_LEN) buf \<and>
       hash_bundle c (public_bytes b) = Some (offline_hash b, bundle_hash b))"
proof -
  obtain before after counter flags len offline opk body sig online npk whole oh bh m m' where
    b: "b = \<lparr> offline_hash = oh, bundle_hash = bh, online_key = npk, not_before = from_be_bytes before,
      not_after = from_be_bytes after, bundle_counter = from_be_bytes counter, bundle_flags = from_be_bytes flags,
      public_bytes = m' \<rparr>"
    and time: "\<not> now < from_be_bytes before" "\<not> now > from_be_bytes after"
    and keys: "slice_range buf OFFLINE_KEY_RANGE = Some offline" "pk_decode c offline = Some opk"
      "slice_range buf ONLINE_KEY_RANGE = Some online" "pk_decode c online = Some npk"
    and parts: "slice buf 0 (EXTENSIONS_START + unat (from_be_bytes len :: u32)) = Some body"
      "slice buf (EXTENSIONS_START + unat (from_be_bytes len :: u32))
        (EXTENSIONS_START + unat (from_be_bytes len :: u32) + OFFLINE_SIGN_LEN) = Some sig"
      "slice buf 0 (EXTENSIONS_START + unat (from_be_bytes len :: u32) + OFFLINE_SIGN_LEN) = Some whole"
    and verify: "pk_verify c opk OFFLINE_KEY_CERTIFICATION body sig"
    and hash: "hash_bundle c whole = Some (oh, bh)"
    and copy: "copy_range m 0 (length m) whole = Some m'"
    using assms
    by (auto simp: authenticate_def Let_def simp del: not_less split: bind_splits if_splits option.splits)
  define n where "n = EXTENSIONS_START + unat (from_be_bytes len :: u32)"
  have "body = take n buf" "sig = take OFFLINE_SIGN_LEN (drop n buf)" "whole = take (n + OFFLINE_SIGN_LEN) buf"
    "n + OFFLINE_SIGN_LEN \<le> length buf" "m' = whole"
    using parts copy by (auto simp: slice_def copy_range_def n_def split: if_splits)
  moreover have "EXTENSIONS_START \<le> n" by (simp add: n_def)
  ultimately show ?thesis using b time keys verify hash by (auto simp: not_less intro!: exI [of _ n])
qed

text \<open>The public part of a bundle that \<open>SecretBundle::new\<close> makes for the examples.\<close>

definition sample_body :: bytes where
  "sample_body = bundle_body (replicate PUBLIC_KEY_LEN 1) (replicate PUBLIC_KEY_LEN 2) 10 20 1 0 [7, 8]"

definition sample_bundle :: "unit authentic_bundle" where
  "sample_bundle =
     \<lparr> offline_hash = xof_finish sample_crypto (xof_update sample_crypto (xof_update sample_crypto (xof_new sample_crypto)
         OFFLINE_SALT) (replicate PUBLIC_KEY_LEN 1)) OFFLINE_HASH_LEN,
       bundle_hash = xof_finish sample_crypto (xof_update sample_crypto (xof_update sample_crypto (xof_new sample_crypto)
         BUNDLE_SALT) (sample_body @ replicate SIGN_LEN 0)) BUNDLE_HASH_LEN,
       online_key = (), not_before = 10, not_after = 20, bundle_counter = 1, bundle_flags = 0,
       public_bytes = sample_body @ replicate SIGN_LEN 0 \<rparr>"

lemma sample_bundle_authentic:
  assumes "10 \<le> now" and "now \<le> 20"
  shows "authenticate sample_crypto (public_bytes sample_bundle @ rest) now sample_malloc = Some (Inr sample_bundle)"
proof -
  have *: "length (replicate PUBLIC_KEY_LEN 1) = PUBLIC_KEY_LEN" "length (replicate PUBLIC_KEY_LEN 2) = PUBLIC_KEY_LEN"
    by simp_all
  have hash: "hash_bundle sample_crypto (sample_body @ replicate SIGN_LEN 0) = Some (offline_hash sample_bundle, bundle_hash sample_bundle)"
    using bundle_body_fields(2) [OF *] by (simp add: hash_bundle_def sample_bundle_def sample_body_def)
  show ?thesis
    using authenticate_layout [OF *, where c = sample_crypto and malloc = sample_malloc and signature = "replicate SIGN_LEN 0"
        and before = 10 and after = 20 and counter = 1 and flags = 0 and ext = "[7, 8]" and opk = "()" and npk = "()" and now = now
        and m = "replicate (length (sample_body @ replicate SIGN_LEN 0)) 0", folded sample_body_def, OF _ _ _ _ _ assms _ _ hash, of rest]
    by (simp add: OFFLINE_SIGN_LEN_def sample_crypto_def sample_malloc_def) (simp add: sample_bundle_def)
qed

theorem authenticate_sound_witness:
  "\<exists>n. EXTENSIONS_START \<le> n \<and> public_bytes sample_bundle = take (n + OFFLINE_SIGN_LEN) (public_bytes sample_bundle @ [9]) \<and>
     not_before sample_bundle \<le> 15 \<and> 15 \<le> not_after sample_bundle"
  using authenticate_sound [OF sample_bundle_authentic [of 15 "[9]"]] by auto

text \<open>
  \<open>authenticate\<close> does not check the length of its input: an input with the right version that
  ends before the extensions makes it panic instead of returning an error, and so does an empty one.
\<close>

theorem authenticate_short_panics:
  assumes "length buf < EXTENSIONS_START" and "buf = [] \<or> hd buf = VERSION_VALUE"
  shows "authenticate c buf now malloc = None"
proof -
  have "slice_range buf EXTENSIONS_LEN_RANGE = None"
    using assms(1) by (auto simp: slice_range_def slice_def EXTENSIONS_START_def)
  moreover have "get_idx buf VERSION_IDX \<in> {None, Some VERSION_VALUE}"
    using assms(2) by (cases buf) (auto simp: get_idx_def VERSION_IDX_def)
  ultimately show ?thesis by (auto simp: authenticate_def split: bind_splits)
qed

theorem authenticate_short_panics_witness: "authenticate sample_crypto [0, 1, 2] 15 sample_malloc = None"
  using authenticate_short_panics [of "[0, 1, 2]" sample_crypto 15 sample_malloc]
  by (simp add: layout_ranges PUBLIC_KEY_LEN_def VERSION_VALUE_def)

end
