(* ===== verification/Symmetric_State.thy ===== *)
theory Symmetric_State
  imports Key_Bundle
begin

text \<open>
  The symmetric state of a handshake, \<open>transport/src/symmetric_state.rs\<close>, and the keys that come out
  of it, \<open>transport/src/api.rs\<close>.

  The key buffer is an array of \<open>SHAKE256_HANDSHAKE_OUTPUT_LEN\<close> bytes and the ranges taken from it are
  constants inside it, so these slices cannot panic and are total functions (\<open>part\<close>).  Slices of
  messages can panic and are of option type.
\<close>

section \<open>Data\<close>

record symmetric_state =
  key_buffer :: bytes

datatype symmetric_keys = SymmetricKeys bytes

record 'pk resumption =
  resumption_token :: bytes
  resumption_secret :: bytes
  resumption_bundle :: "'pk authentic_bundle"

record 'pk handshake_complete =
  message_to_send :: "bytes option"
  complete_keys :: symmetric_keys
  complete_bundle :: "'pk authentic_bundle"
  recv_payload :: bytes

definition part :: "bytes \<Rightarrow> range \<Rightarrow> bytes" where
  "part xs r = take (snd r - fst r) (drop (fst r) xs)"

section \<open>Operations\<close>

definition hash3 :: "('x, 'sk, 'pk, 'dk) crypto \<Rightarrow> symmetric_state \<Rightarrow> u8 \<Rightarrow> bytes \<Rightarrow> 'x" where
  "hash3 c s step_no shared_data =
     xof_update c (xof_update c (xof_update c (xof_new c) (part (key_buffer s) CHAINING_KEY_RANGE)) [step_no]) shared_data"

definition mix :: "('x, 'sk, 'pk, 'dk) crypto \<Rightarrow> symmetric_state \<Rightarrow> u8 \<Rightarrow> bytes \<Rightarrow> symmetric_state" where
  "mix c s step_no shared_data = s\<lparr> key_buffer := xof_finish c (hash3 c s step_no shared_data) SHAKE256_HANDSHAKE_OUTPUT_LEN \<rparr>"

definition symmetric_new :: "('x, 'sk, 'pk, 'dk) crypto \<Rightarrow> bytes \<Rightarrow> symmetric_state" where
  "symmetric_new c aad =
     (let ret = \<lparr> key_buffer = HANDSHAKE_SALT @ replicate (SHAKE256_HANDSHAKE_OUTPUT_LEN - length HANDSHAKE_SALT) 0 \<rparr>
      in mix c ret 0 aad)"

definition encrypt_and_mix ::
  "('x, 'sk, 'pk, 'dk) crypto \<Rightarrow> symmetric_state \<Rightarrow> u8 \<Rightarrow> bytes \<Rightarrow> (symmetric_state \<times> bytes) option" where
  "encrypt_and_mix c s step_no plaintext_and_pad =
     (if length plaintext_and_pad < TAG_LEN then None
      else
        let plaintext = take (length plaintext_and_pad - TAG_LEN) plaintext_and_pad;
            (ciphertext, tag) = encrypt_in_place c (part (key_buffer s) AES_KEY_RANGE) (to_handshake_nonce step_no) plaintext
        in Some (mix c s step_no (ciphertext @ tag), ciphertext @ tag))"

definition decrypt_and_mix ::
  "('x, 'sk, 'pk, 'dk) crypto \<Rightarrow> symmetric_state \<Rightarrow> u8 \<Rightarrow> bytes \<Rightarrow> ((symmetric_state \<times> (error + unit)) \<times> bytes) option" where
  "decrypt_and_mix c s step_no ciphertext_and_tag =
     (if length ciphertext_and_tag < TAG_LEN then None
      else
        let hasher = hash3 c s step_no ciphertext_and_tag;
            n = length ciphertext_and_tag - TAG_LEN;
            ciphertext = take n ciphertext_and_tag;
            tag = drop n ciphertext_and_tag;
            (plaintext, auth) =
              decrypt_in_place c (part (key_buffer s) AES_KEY_RANGE) (to_handshake_nonce step_no) ciphertext tag
        in Some ((s\<lparr> key_buffer := xof_finish c hasher SHAKE256_HANDSHAKE_OUTPUT_LEN \<rparr>,
                  if auth then Inr () else Inl Error_Inauthentic), plaintext @ tag))"

definition channel_binding :: "symmetric_state \<Rightarrow> bytes" where
  "channel_binding s = part (key_buffer s) CHANNEL_BINDING_RANGE"

text \<open>The output of \<open>checksum\<close> has the length of the slice that it is written to.\<close>

definition checksum :: "('x, 'sk, 'pk, 'dk) crypto \<Rightarrow> symmetric_state \<Rightarrow> bytes \<Rightarrow> bytes \<Rightarrow> nat \<Rightarrow> bytes" where
  "checksum c s input0 input1 output_len =
     xof_finish c (xof_update c (xof_update c (xof_update c (xof_new c) (channel_binding s)) input0) input1) output_len"

definition sign ::
  "('x, 'sk, 'pk, 'dk) crypto \<Rightarrow> symmetric_state \<Rightarrow> u8 \<Rightarrow> ('sk, 'pk) secret_bundle \<Rightarrow> bytes \<Rightarrow> (symmetric_state \<times> bytes) option" where
  "sign c s step_no secret_key_bundle plaintext_and_pad =
     (if length plaintext_and_pad < TAG_LEN then None
      else do {
        let plaintext_end = length plaintext_and_pad - TAG_LEN;
        let signature = bundle_sign c secret_key_bundle [step_no] (channel_binding s);
        plaintext_and_pad \<leftarrow> put_range plaintext_and_pad (0, plaintext_end) signature;
        encrypt_and_mix c s step_no plaintext_and_pad
      })"

definition verify ::
  "('x, 'sk, 'pk, 'dk) crypto \<Rightarrow> symmetric_state \<Rightarrow> u8 \<Rightarrow> 'pk authentic_bundle option \<Rightarrow> bytes \<Rightarrow> u64 \<Rightarrow>
   ((symmetric_state \<times> (auth_error + unit)) \<times> bytes) option" where
  "verify c s step_no remote_key_bundle ciphertext_and_tag secs_since_unix_epoch =
     (if \<not> (step_no = 12 \<or> remote_key_bundle \<noteq> None) then None
      else if length ciphertext_and_tag < TAG_LEN then None
      else do {
        let ciphertext_end = length ciphertext_and_tag - TAG_LEN;
        let sign_channel_binding = channel_binding s;
        ((s', result), ciphertext_and_tag) \<leftarrow> decrypt_and_mix c s step_no ciphertext_and_tag;
        case result of
          Inl e \<Rightarrow> Some ((s', Inl (auth_of_error e)), ciphertext_and_tag)
        | Inr _ \<Rightarrow>
            (case remote_key_bundle of
               None \<Rightarrow> Some ((s', Inr ()), ciphertext_and_tag)
             | Some bundle \<Rightarrow> do {
                 signature \<leftarrow> slice ciphertext_and_tag 0 ciphertext_end;
                 if length signature \<noteq> SIGN_LEN then None
                 else Some ((s', bundle_verify c bundle [step_no] sign_channel_binding signature secs_since_unix_epoch),
                            ciphertext_and_tag)
               })
      })"

definition split_keys :: "('x, 'sk, 'pk, 'dk) crypto \<Rightarrow> symmetric_state \<Rightarrow> u8 \<Rightarrow> symmetric_keys" where
  "split_keys c s step_no = SymmetricKeys (xof_finish c (hash3 c s step_no []) SHAKE256_SPLIT_OUTPUT_LEN)"

section \<open>The keys of a connection\<close>

fun resumption_key :: "symmetric_keys \<Rightarrow> bytes" where
  "resumption_key (SymmetricKeys k) = part k RESUMPTION_KEY_RANGE"

fun initiator_resumption_token :: "symmetric_keys \<Rightarrow> bytes" where
  "initiator_resumption_token (SymmetricKeys k) = part k INITIATOR_RESUMPTION_TOKEN_RANGE"

fun responder_resumption_token :: "symmetric_keys \<Rightarrow> bytes" where
  "responder_resumption_token (SymmetricKeys k) = part k RESPONDER_RESUMPTION_TOKEN_RANGE"

fun initiator_key :: "symmetric_keys \<Rightarrow> bytes" where
  "initiator_key (SymmetricKeys k) = part k INITIATOR_KEY_RANGE"

fun responder_key :: "symmetric_keys \<Rightarrow> bytes" where
  "responder_key (SymmetricKeys k) = part k RESPONDER_KEY_RANGE"

section \<open>What one side seals, the other opens\<close>

text \<open>The sealed form of a plaintext: ciphertext and tag.\<close>

definition sealed :: "('x, 'sk, 'pk, 'dk) crypto \<Rightarrow> symmetric_state \<Rightarrow> u8 \<Rightarrow> bytes \<Rightarrow> bytes" where
  "sealed c s step_no plaintext =
     (case encrypt_in_place c (part (key_buffer s) AES_KEY_RANGE) (to_handshake_nonce step_no) plaintext of
        (ciphertext, tag) \<Rightarrow> ciphertext @ tag)"

lemma length_sealed: "crypto_lengths c \<Longrightarrow> length (sealed c s n pt) = length pt + TAG_LEN"
  by (auto simp: sealed_def crypto_lengths_def split: prod.splits) (metis fst_conv snd_conv)

lemma encrypt_and_mix_sealed:
  "length pad = TAG_LEN \<Longrightarrow> encrypt_and_mix c s n (pt @ pad) = Some (mix c s n (sealed c s n pt), sealed c s n pt)"
  by (simp add: encrypt_and_mix_def sealed_def split: prod.splits)

lemma decrypt_and_mix_sealed:
  assumes "crypto_lengths c" and "cipher_correct c"
  shows "\<exists>tag. length tag = TAG_LEN \<and>
    decrypt_and_mix c s n (sealed c s n pt) = Some ((mix c s n (sealed c s n pt), Inr ()), pt @ tag)"
proof -
  obtain ct tag where e: "encrypt_in_place c (part (key_buffer s) AES_KEY_RANGE) (to_handshake_nonce n) pt = (ct, tag)"
    by (metis surj_pair)
  then have d: "decrypt_in_place c (part (key_buffer s) AES_KEY_RANGE) (to_handshake_nonce n) ct tag = (pt, True)"
    using assms(2) by (simp add: cipher_correct_def)
  have t: "length tag = TAG_LEN" using assms(1) e unfolding crypto_lengths_def by (metis snd_conv)
  show ?thesis using e d t by (intro exI [of _ tag]) (simp add: decrypt_and_mix_def sealed_def mix_def)
qed

lemma sign_sealed:
  assumes "crypto_lengths c" and "length pad = SIGN_LEN + TAG_LEN"
  shows "sign c s n b pad =
    Some (mix c s n (sealed c s n (bundle_sign c b [n] (channel_binding s))),
          sealed c s n (bundle_sign c b [n] (channel_binding s)))"
proof -
  let ?sig = "bundle_sign c b [n] (channel_binding s)"
  have l: "length ?sig = SIGN_LEN" using assms(1) by (simp add: bundle_sign_def crypto_lengths_def)
  then have "put_range pad (0, length pad - TAG_LEN) ?sig = Some (?sig @ drop SIGN_LEN pad)"
    using assms(2) by (simp add: put_range_def copy_range_def)
  then show ?thesis using assms(2) encrypt_and_mix_sealed [of "drop SIGN_LEN pad" c s n ?sig] by (simp add: sign_def)
qed

lemma verify_sealed:
  assumes "crypto_lengths c" and "cipher_correct c" and "length sig = SIGN_LEN"
  shows "\<exists>tag. length tag = TAG_LEN \<and>
    verify c s n (Some b) (sealed c s n sig) now =
      Some ((mix c s n (sealed c s n sig), bundle_verify c b [n] (channel_binding s) sig now), sig @ tag)"
proof -
  obtain tag where t: "length tag = TAG_LEN"
    "decrypt_and_mix c s n (sealed c s n sig) = Some ((mix c s n (sealed c s n sig), Inr ()), sig @ tag)"
    using decrypt_and_mix_sealed [OF assms(1,2)] by blast
  have "slice (sig @ tag) 0 (length (sealed c s n sig) - TAG_LEN) = Some sig"
    using length_sealed [OF assms(1), of s n sig] by (simp add: slice_def)
  then show ?thesis
    using t assms(3) length_sealed [OF assms(1), of s n sig] by (intro exI [of _ tag]) (simp add: verify_def)
qed

end
