(* ===== verification/Initiator.thy ===== *)
theory Initiator
  imports Symmetric_State
begin

text \<open>
  The initiator of a handshake, \<open>transport/src/initiator.rs\<close>.  The key pair of
  \<open>DecapsulationKey::generate\<close> and the allocation functions are arguments.  What an operation that
  fails leaves in the message buffer is not part of the model.
\<close>

record ('sk, 'pk, 'dk) init_state =
  init_symmetric :: symmetric_state
  init_fallback :: "symmetric_state option"
  decapsulation_key :: 'dk
  init_payload :: bytes
  init_secret_key_bundle :: "('sk, 'pk) secret_bundle"
  init_remote_key_bundle :: "'pk authentic_bundle option"

definition initialize ::
  "('x, 'sk, 'pk, 'dk) crypto \<Rightarrow> bytes \<times> 'dk \<Rightarrow> bytes \<Rightarrow> ('sk, 'pk) secret_bundle \<Rightarrow> 'pk resumption option \<Rightarrow> bytes \<Rightarrow>
   (nat \<Rightarrow> bytes option) \<Rightarrow> (bytes \<times> ('sk, 'pk, 'dk) init_state) option option" where
  "initialize c generated aad secret_key_bundle resumption payload malloc =
     (case malloc (if resumption \<noteq> None then INIT_PAYLOAD_START + length payload + PAYLOAD_REV_START
                   else EPHEMERAL_ENC_KEY_END) of
        None \<Rightarrow> Some None
      | Some init_message \<Rightarrow> do {
          let (encapsulation_key, dk) = generated;
          init_message \<leftarrow> put_range init_message EPHEMERAL_ENC_KEY_RANGE encapsulation_key;
          let symmetric = symmetric_new c aad;
          case resumption of
            Some resumption \<Rightarrow> do {
              init_message \<leftarrow> put_range init_message RESUMPTION_TOKEN_RANGE (resumption_token resumption);
              d9 \<leftarrow> slice init_message 0 RESUMPTION_TOKEN_END;
              let symmetric = mix c symmetric 9 d9;
              let fallback = symmetric;
              let symmetric = mix c symmetric 10 (resumption_secret resumption);
              payload_end \<leftarrow> checked_sub (length init_message) PAYLOAD_REV_START;
              payload_tag_end \<leftarrow> checked_sub (length init_message) PAYLOAD_TAG_REV_START;
              online_sign_start \<leftarrow> checked_sub (length init_message) ONLINE_SIGN_REV_END;
              online_sign_tag_end \<leftarrow> checked_sub (length init_message) ONLINE_SIGN_TAG_REV_END;
              init_message \<leftarrow> put_range init_message KEY_BUNDLE_CHECKSUM_RANGE
                (checksum c symmetric (bundle_hash (public_bundle secret_key_bundle))
                  (bundle_hash (resumption_bundle resumption)) KEY_BUNDLE_CHECKSUM_LEN);
              init_message \<leftarrow> put_range init_message (INIT_PAYLOAD_START, payload_end) payload;
              (symmetric, init_message) \<leftarrow>
                on_range init_message (fst KEY_BUNDLE_CHECKSUM_RANGE, payload_tag_end) (encrypt_and_mix c symmetric 11);
              (symmetric, init_message) \<leftarrow>
                on_range init_message (online_sign_start, online_sign_tag_end) (sign c symmetric 12 secret_key_bundle);
              d14 \<leftarrow> slice init_message RESUMPTION_TOKEN_END (length init_message);
              let fallback = mix c fallback 14 d14;
              Some (Some (init_message,
                \<lparr> init_symmetric = symmetric, init_fallback = Some fallback, decapsulation_key = dk, init_payload = payload,
                  init_secret_key_bundle = secret_key_bundle,
                  init_remote_key_bundle = Some (resumption_bundle resumption) \<rparr>))
            }
          | None \<Rightarrow> do {
              let symmetric = mix c symmetric 1 init_message;
              Some (Some (init_message,
                \<lparr> init_symmetric = symmetric, init_fallback = None, decapsulation_key = dk, init_payload = payload,
                  init_secret_key_bundle = secret_key_bundle, init_remote_key_bundle = None \<rparr>))
            }
        })"

text \<open>
  The choice of the remote key bundle in \<open>process_reply\<close> (\<open>KEY BUNDLE HANDLING\<close>): the bundle and where
  the payload starts.
\<close>

definition reply_key_bundle ::
  "('x, 'sk, 'pk, 'dk) crypto \<Rightarrow> ('sk, 'pk, 'dk) init_state \<Rightarrow> u8 \<Rightarrow> bytes \<Rightarrow> nat \<Rightarrow> u64 \<Rightarrow> (nat \<Rightarrow> bytes option) \<Rightarrow>
   (error + ('pk authentic_bundle \<times> nat)) option" where
  "reply_key_bundle c st handshake_type reply_message payload_end secs_since_unix_epoch bundle_malloc =
     (if handshake_type \<noteq> HANDSHAKE_TYPE_RESUME then do {
        mixed_payload \<leftarrow> slice reply_message REPLY_PAYLOAD_START payload_end;
        result \<leftarrow> authenticate c mixed_payload secs_since_unix_epoch bundle_malloc;
        case result of
          Inl _ \<Rightarrow> Some (Inl Error_Inauthentic)
        | Inr remote_key_bundle \<Rightarrow>
            (let key_bundle_end = REPLY_PAYLOAD_START + length (public_bytes remote_key_bundle)
             in if handshake_type = HANDSHAKE_TYPE_FALLBACK \<and>
                   ((bundle_flags remote_key_bundle AND bundle_flags (public_bundle (init_secret_key_bundle st)))
                      AND FLAG_RELIABLE_STORAGE) > 0
                then Some (Inl Error_Inauthentic)
                else
                  (case init_remote_key_bundle st of
                     Some expected_key_bundle \<Rightarrow>
                       if \<not> offline_eq expected_key_bundle remote_key_bundle then Some (Inl Error_Inauthentic)
                       else Some (Inr (remote_key_bundle, key_bundle_end))
                   | None \<Rightarrow> Some (Inr (remote_key_bundle, key_bundle_end))))
      }
      else
        (case init_remote_key_bundle st of
           Some key_bundle \<Rightarrow> Some (Inr (key_bundle, REPLY_PAYLOAD_START))
         | None \<Rightarrow> Some (Inl Error_Invalid)))"

text \<open>The encoding of the confirm message in \<open>process_reply\<close>.\<close>

definition confirm_encode ::
  "('x, 'sk, 'pk, 'dk) crypto \<Rightarrow> ('sk, 'pk, 'dk) init_state \<Rightarrow> symmetric_state \<Rightarrow> (nat \<Rightarrow> bytes option) \<Rightarrow>
   (error + (symmetric_state \<times> bytes)) option" where
  "confirm_encode c st symmetric message_malloc =
     (let local_key_bundle = public_bytes (public_bundle (init_secret_key_bundle st));
          key_bundle_end = CONFIRM_PAYLOAD_START + length local_key_bundle;
          payload_end = key_bundle_end + length (init_payload st);
          payload_tag_end = payload_end + TAG_LEN;
          online_sign_start = payload_tag_end;
          online_sign_end = online_sign_start + SIGN_LEN;
          online_sign_tag_end = online_sign_end + TAG_LEN
      in case message_malloc online_sign_tag_end of
           None \<Rightarrow> Some (Inl Error_AllocFailure)
         | Some confirm_message \<Rightarrow> do {
             confirm_message \<leftarrow> put_range confirm_message (CONFIRM_PAYLOAD_START, key_bundle_end) local_key_bundle;
             confirm_message \<leftarrow> put_range confirm_message (key_bundle_end, payload_end) (init_payload st);
             (symmetric, confirm_message) \<leftarrow>
               on_range confirm_message (CONFIRM_PAYLOAD_START, payload_tag_end) (encrypt_and_mix c symmetric 6);
             (symmetric, confirm_message) \<leftarrow>
               on_range confirm_message (online_sign_start, online_sign_tag_end)
                 (sign c symmetric 7 (init_secret_key_bundle st));
             Some (Inr (symmetric, confirm_message))
           })"

definition process_reply ::
  "('x, 'sk, 'pk, 'dk) crypto \<Rightarrow> ('sk, 'pk, 'dk) init_state \<Rightarrow> bytes \<Rightarrow> u64 \<Rightarrow> (nat \<Rightarrow> bytes option) \<Rightarrow>
   (nat \<Rightarrow> bytes option) \<Rightarrow> (error + 'pk handshake_complete) option" where
  "process_reply c st reply_message secs_since_unix_epoch bundle_malloc message_malloc =
     (if length reply_message < REPLY_PAYLOAD_START + PAYLOAD_REV_START then Some (Inl Error_Invalid)
      else do {
        handshake_type \<leftarrow> get_idx reply_message HANDSHAKE_TYPE_IDX;
        if handshake_type > HANDSHAKE_TYPE_MAX then Some (Inl Error_Invalid)
        else case (if handshake_type = HANDSHAKE_TYPE_FALLBACK then init_fallback st else Some (init_symmetric st)) of
          None \<Rightarrow> Some (Inl Error_Inauthentic)
        | Some symmetric \<Rightarrow> do {
            ciphertext \<leftarrow> slice_range reply_message EPHEMERAL_CIPHERTEXT_RANGE;
            case dk_decapsulate c (decapsulation_key st) ciphertext of
              None \<Rightarrow> Some (Inl Error_Inauthentic)
            | Some shared_secret \<Rightarrow> do {
                d2 \<leftarrow> slice reply_message 0 EPHEMERAL_CIPHERTEXT_END;
                let symmetric = mix c symmetric 2 d2;
                let symmetric = mix c symmetric 3 shared_secret;
                payload_end \<leftarrow> checked_sub (length reply_message) PAYLOAD_REV_START;
                payload_tag_end \<leftarrow> checked_sub (length reply_message) PAYLOAD_TAG_REV_START;
                online_sign_start \<leftarrow> checked_sub (length reply_message) ONLINE_SIGN_REV_END;
                online_sign_tag_end \<leftarrow> checked_sub (length reply_message) ONLINE_SIGN_TAG_REV_START;
                ((symmetric, result), reply_message) \<leftarrow>
                  on_range reply_message (REPLY_PAYLOAD_START, payload_tag_end) (decrypt_and_mix c symmetric 4);
                case result of
                  Inl e \<Rightarrow> Some (Inl e)
                | Inr _ \<Rightarrow> do {
                    chosen \<leftarrow> reply_key_bundle c st handshake_type reply_message payload_end secs_since_unix_epoch bundle_malloc;
                    case chosen of
                      Inl e \<Rightarrow> Some (Inl e)
                    | Inr (remote_key_bundle, key_bundle_end) \<Rightarrow> do {
                        ((symmetric, result), reply_message) \<leftarrow>
                          on_range reply_message (online_sign_start, online_sign_tag_end)
                            (\<lambda>b. verify c symmetric 5 (Some remote_key_bundle) b secs_since_unix_epoch);
                        case result of
                          Inl e \<Rightarrow> Some (Inl (error_of_auth e))
                        | Inr _ \<Rightarrow> do {
                            payload \<leftarrow> slice reply_message key_bundle_end payload_end;
                            if handshake_type = HANDSHAKE_TYPE_RESUME then
                              Some (Inr \<lparr> message_to_send = None, complete_keys = split_keys c symmetric 13,
                                complete_bundle = remote_key_bundle, recv_payload = payload \<rparr>)
                            else do {
                              confirm \<leftarrow> confirm_encode c st symmetric message_malloc;
                              case confirm of
                                Inl e \<Rightarrow> Some (Inl e)
                              | Inr (symmetric, confirm_message) \<Rightarrow>
                                  Some (Inr \<lparr> message_to_send = Some confirm_message, complete_keys = split_keys c symmetric 8,
                                    complete_bundle = remote_key_bundle, recv_payload = payload \<rparr>)
                            }
                          }
                      }
                  }
              }
          }
      })"

end
