(* ===== verification/Responder.thy ===== *)
theory Responder
  imports Symmetric_State
begin

text \<open>
  The responder of a handshake, \<open>transport/src/responder.rs\<close>.  The payload that \<open>create_payload\<close>
  returns and the allocation functions are arguments.
\<close>

record reply_state =
  reply_symmetric :: symmetric_state
  remote_offline_hash :: "bytes option"
  reject_if_remote_has_reliable_storage :: bool

datatype 'pk init_ok = Complete "'pk handshake_complete" | Incomplete bytes reply_state

definition get_resumption_token :: "bytes \<Rightarrow> bytes option option" where
  "get_resumption_token init_message =
     (if length init_message \<ge> RESUMPTION_TOKEN_END
      then map_option Some (slice_range init_message RESUMPTION_TOKEN_RANGE)
      else Some None)"

text \<open>
  What the decoding of the initialize message yields: the type of the handshake, the symmetric
  state, the offline hash that is expected of the initiator and, when the handshake is resumed, the
  initiator's bundle with its payload.
\<close>

type_synonym 'pk decoded_init =
  "u8 \<times> symmetric_state \<times> bytes option \<times> ('pk authentic_bundle \<times> bytes) option"

text \<open>The branch of the decoding that has a resumption (\<open>RESUMPTION HANDLING\<close>).\<close>

definition decode_resumption ::
  "('x, 'sk, 'pk, 'dk) crypto \<Rightarrow> symmetric_state \<Rightarrow> bytes \<Rightarrow> ('sk, 'pk) secret_bundle \<Rightarrow> 'pk resumption \<Rightarrow> u64 \<Rightarrow>
   (reply_error + 'pk decoded_init) option" where
  "decode_resumption c symmetric init_message secret_key_bundle resumption secs_since_unix_epoch =
     (let offline = Some (offline_hash (resumption_bundle resumption));
          symmetric = mix c symmetric 10 (resumption_secret resumption)
      in if length init_message < INIT_PAYLOAD_START + PAYLOAD_REV_START then Some (Inl Reply_Invalid)
         else do {
           payload_end \<leftarrow> checked_sub (length init_message) PAYLOAD_REV_START;
           payload_tag_end \<leftarrow> checked_sub (length init_message) PAYLOAD_TAG_REV_START;
           online_sign_start \<leftarrow> checked_sub (length init_message) ONLINE_SIGN_REV_END;
           online_sign_tag_end \<leftarrow> checked_sub (length init_message) ONLINE_SIGN_TAG_REV_START;
           let local_checksum = checksum c symmetric (bundle_hash (resumption_bundle resumption))
                 (bundle_hash (public_bundle secret_key_bundle)) KEY_BUNDLE_CHECKSUM_LEN;
           ((symmetric, result), init_message) \<leftarrow>
             on_range init_message (fst KEY_BUNDLE_CHECKSUM_RANGE, payload_tag_end) (decrypt_and_mix c symmetric 11);
           case result of
             Inl e \<Rightarrow> Some (Inl (reply_of_error e))
           | Inr _ \<Rightarrow> do {
               remote_checksum \<leftarrow> slice_range init_message KEY_BUNDLE_CHECKSUM_RANGE;
               let has_correct_bundle = (local_checksum = remote_checksum);
               ((symmetric, result), init_message) \<leftarrow>
                 on_range init_message (online_sign_start, online_sign_tag_end)
                   (\<lambda>b. verify c symmetric 12 (if has_correct_bundle then Some (resumption_bundle resumption) else None)
                          b secs_since_unix_epoch);
               case result of
                 Inl e \<Rightarrow> Some (Inl (reply_of_auth e))
               | Inr _ \<Rightarrow>
                   if has_correct_bundle then do {
                     payload \<leftarrow> slice init_message INIT_PAYLOAD_START payload_end;
                     Some (Inr (HANDSHAKE_TYPE_RESUME, symmetric, offline, Some (resumption_bundle resumption, payload)))
                   }
                   else Some (Inr (HANDSHAKE_TYPE_FULL, symmetric, offline, None))
             }
         })"

definition decode_initialize ::
  "('x, 'sk, 'pk, 'dk) crypto \<Rightarrow> bytes \<Rightarrow> bytes \<Rightarrow> ('sk, 'pk) secret_bundle \<Rightarrow> 'pk resumption option \<Rightarrow> u64 \<Rightarrow>
   (reply_error + 'pk decoded_init) option" where
  "decode_initialize c aad init_message secret_key_bundle resumption secs_since_unix_epoch =
     (let symmetric = symmetric_new c aad;
          has_resumption_token = (length init_message \<ge> RESUMPTION_TOKEN_END)
      in do {
        checked \<leftarrow>
          (if has_resumption_token then do {
             d9 \<leftarrow> slice init_message 0 RESUMPTION_TOKEN_END;
             token \<leftarrow> slice_range init_message RESUMPTION_TOKEN_RANGE;
             if (case resumption of Some r \<Rightarrow> resumption_token r \<noteq> token | None \<Rightarrow> False)
             then Some (Inl Reply_IncorrectResumption)
             else Some (Inr (mix c symmetric 9 d9))
           }
           else if length init_message \<noteq> EPHEMERAL_ENC_KEY_END then Some (Inl Reply_Invalid)
           else Some (Inr symmetric));
        case checked of
          Inl e \<Rightarrow> Some (Inl e)
        | Inr symmetric \<Rightarrow>
            (case resumption of
               Some resumption \<Rightarrow>
                 decode_resumption c symmetric init_message secret_key_bundle resumption secs_since_unix_epoch
             | None \<Rightarrow>
                 if has_resumption_token then do {
                   d14 \<leftarrow> slice init_message RESUMPTION_TOKEN_END (length init_message);
                   Some (Inr (HANDSHAKE_TYPE_FALLBACK, mix c symmetric 14 d14, None, None))
                 }
                 else Some (Inr (HANDSHAKE_TYPE_FULL, mix c symmetric 1 init_message, None, None)))
      })"

text \<open>The encoding of the reply message: the symmetric state after it and the message.\<close>

definition reply_encode ::
  "('x, 'sk, 'pk, 'dk) crypto \<Rightarrow> u8 \<Rightarrow> symmetric_state \<Rightarrow> bytes \<Rightarrow> bytes \<Rightarrow> ('sk, 'pk) secret_bundle \<Rightarrow> bytes \<Rightarrow>
   (nat \<Rightarrow> bytes option) \<Rightarrow> (reply_error + (symmetric_state \<times> bytes)) option" where
  "reply_encode c handshake_type symmetric shared_secret ciphertext secret_key_bundle payload malloc =
     (let key_bundle = public_bytes (public_bundle secret_key_bundle);
          message_len =
            (if handshake_type = HANDSHAKE_TYPE_RESUME then REPLY_PAYLOAD_START + length payload + PAYLOAD_REV_START
             else REPLY_PAYLOAD_START + length key_bundle + length payload + PAYLOAD_REV_START)
      in case malloc message_len of
           None \<Rightarrow> Some (Inl Reply_AllocFailure)
         | Some reply_message \<Rightarrow> do {
             reply_message \<leftarrow> set_idx reply_message HANDSHAKE_TYPE_IDX handshake_type;
             reply_message \<leftarrow> put_range reply_message EPHEMERAL_CIPHERTEXT_RANGE ciphertext;
             d2 \<leftarrow> slice reply_message 0 EPHEMERAL_CIPHERTEXT_END;
             let symmetric = mix c symmetric 2 d2;
             let symmetric = mix c symmetric 3 shared_secret;
             reply_message \<leftarrow>
               (if handshake_type \<noteq> HANDSHAKE_TYPE_RESUME
                then put_range reply_message (REPLY_PAYLOAD_START, REPLY_PAYLOAD_START + length key_bundle) key_bundle
                else Some reply_message);
             payload_end \<leftarrow> checked_sub (length reply_message) PAYLOAD_REV_START;
             payload_start \<leftarrow> checked_sub payload_end (length payload);
             payload_tag_end \<leftarrow> checked_sub (length reply_message) PAYLOAD_TAG_REV_START;
             online_sign_start \<leftarrow> checked_sub (length reply_message) ONLINE_SIGN_REV_END;
             online_sign_tag_end \<leftarrow> checked_sub (length reply_message) ONLINE_SIGN_TAG_REV_START;
             reply_message \<leftarrow> put_range reply_message (payload_start, payload_end) payload;
             (symmetric, reply_message) \<leftarrow>
               on_range reply_message (REPLY_PAYLOAD_START, payload_tag_end) (encrypt_and_mix c symmetric 4);
             (symmetric, reply_message) \<leftarrow>
               on_range reply_message (online_sign_start, online_sign_tag_end) (sign c symmetric 5 secret_key_bundle);
             Some (Inr (symmetric, reply_message))
           })"

definition process_initialize ::
  "('x, 'sk, 'pk, 'dk) crypto \<Rightarrow> bytes \<Rightarrow> bytes \<Rightarrow> ('sk, 'pk) secret_bundle \<Rightarrow> 'pk resumption option \<Rightarrow> u64 \<Rightarrow>
   (nat \<Rightarrow> bytes option) \<Rightarrow> bytes \<Rightarrow> (reply_error + 'pk init_ok) option" where
  "process_initialize c aad init_message secret_key_bundle resumption secs_since_unix_epoch malloc payload =
     (if length init_message < EPHEMERAL_ENC_KEY_END then Some (Inl Reply_Invalid)
      else do {
        ephemeral_enc_key \<leftarrow> slice_range init_message EPHEMERAL_ENC_KEY_RANGE;
        case dk_encapsulate c ephemeral_enc_key of
          None \<Rightarrow> Some (Inl Reply_Inauthentic)
        | Some (shared_secret, ciphertext) \<Rightarrow> do {
            decoded \<leftarrow> decode_initialize c aad init_message secret_key_bundle resumption secs_since_unix_epoch;
            case decoded of
              Inl e \<Rightarrow> Some (Inl e)
            | Inr (handshake_type, symmetric, offline, resume) \<Rightarrow> do {
                encoded \<leftarrow> reply_encode c handshake_type symmetric shared_secret ciphertext secret_key_bundle payload malloc;
                case encoded of
                  Inl e \<Rightarrow> Some (Inl e)
                | Inr (symmetric, reply_message) \<Rightarrow>
                    (case resume of
                       Some (remote_key_bundle, received) \<Rightarrow>
                         Some (Inr (Complete \<lparr> message_to_send = Some reply_message, complete_keys = split_keys c symmetric 13,
                           complete_bundle = remote_key_bundle, recv_payload = received \<rparr>))
                     | None \<Rightarrow>
                         Some (Inr (Incomplete reply_message
                           \<lparr> reply_symmetric = symmetric, remote_offline_hash = offline,
                             reject_if_remote_has_reliable_storage =
                               (handshake_type = HANDSHAKE_TYPE_FALLBACK \<and>
                                (bundle_flags (public_bundle secret_key_bundle) AND FLAG_RELIABLE_STORAGE) > 0) \<rparr>)))
              }
          }
      })"

definition process_confirm ::
  "('x, 'sk, 'pk, 'dk) crypto \<Rightarrow> reply_state \<Rightarrow> bytes \<Rightarrow> u64 \<Rightarrow> (nat \<Rightarrow> bytes option) \<Rightarrow>
   (error + 'pk handshake_complete) option" where
  "process_confirm c st confirm_message secs_since_unix_epoch malloc =
     (if length confirm_message < CONFIRM_PAYLOAD_START + PAYLOAD_REV_START then Some (Inl Error_Invalid)
      else do {
        payload_end \<leftarrow> checked_sub (length confirm_message) PAYLOAD_REV_START;
        payload_tag_end \<leftarrow> checked_sub (length confirm_message) PAYLOAD_TAG_REV_START;
        online_sign_start \<leftarrow> checked_sub (length confirm_message) ONLINE_SIGN_REV_END;
        online_sign_tag_end \<leftarrow> checked_sub (length confirm_message) ONLINE_SIGN_TAG_REV_START;
        ((symmetric, result), confirm_message) \<leftarrow>
          on_range confirm_message (CONFIRM_PAYLOAD_START, payload_tag_end) (decrypt_and_mix c (reply_symmetric st) 6);
        case result of
          Inl e \<Rightarrow> Some (Inl e)
        | Inr _ \<Rightarrow> do {
            mixed_payload \<leftarrow> slice confirm_message CONFIRM_PAYLOAD_START payload_end;
            authentic \<leftarrow> authenticate c mixed_payload secs_since_unix_epoch malloc;
            case authentic of
              Inl e \<Rightarrow> Some (Inl (error_of_auth e))
            | Inr remote_key_bundle \<Rightarrow>
                (let key_bundle_end = CONFIRM_PAYLOAD_START + length (public_bytes remote_key_bundle)
                 in if (case remote_offline_hash st of Some h \<Rightarrow> \<not> offline_eq_raw remote_key_bundle h | None \<Rightarrow> False)
                    then Some (Inl Error_Inauthentic)
                    else if reject_if_remote_has_reliable_storage st \<and>
                            (bundle_flags remote_key_bundle AND FLAG_RELIABLE_STORAGE) > 0
                    then Some (Inl Error_Inauthentic)
                    else do {
                      ((symmetric, result), confirm_message) \<leftarrow>
                        on_range confirm_message (online_sign_start, online_sign_tag_end)
                          (\<lambda>b. verify c symmetric 7 (Some remote_key_bundle) b secs_since_unix_epoch);
                      case result of
                        Inl e \<Rightarrow> Some (Inl (error_of_auth e))
                      | Inr _ \<Rightarrow> do {
                          payload \<leftarrow> slice confirm_message key_bundle_end payload_end;
                          Some (Inr \<lparr> message_to_send = None, complete_keys = split_keys c symmetric 8,
                            complete_bundle = remote_key_bundle, recv_payload = payload \<rparr>)
                        }
                    })
          }
      })"

end
