(* ===== verification/Handshake.thy ===== *)
theory Handshake
  imports Initiator Responder
begin

text \<open>
  Initiator and responder together: the two sides of a handshake agree, what a completed handshake
  guarantees, and how it fails.
\<close>

section \<open>The protected part of a message\<close>

text \<open>
  All three messages end the same way: the sealed payload of step \<open>n\<close> and the sealed signature of
  step \<open>n'\<close>.  \<open>sealed_tail\<close> is that tail, \<open>tail_state\<close> the symmetric state behind it.
\<close>

definition payload_state :: "('x, 'sk, 'pk, 'dk) crypto \<Rightarrow> symmetric_state \<Rightarrow> u8 \<Rightarrow> bytes \<Rightarrow> symmetric_state" where
  "payload_state c s n pt = mix c s n (sealed c s n pt)"

definition sealed_sign :: "('x, 'sk, 'pk, 'dk) crypto \<Rightarrow> symmetric_state \<Rightarrow> u8 \<Rightarrow> ('sk, 'pk) secret_bundle \<Rightarrow> bytes" where
  "sealed_sign c s n b = sealed c s n (bundle_sign c b [n] (channel_binding s))"

lemma length_sealed_sign: "crypto_lengths c \<Longrightarrow> length (sealed_sign c s n b) = ONLINE_SIGN_REV_END"
  by (simp add: sealed_sign_def length_sealed bundle_sign_def crypto_lengths_def tail_layout)

lemma on_range_middle:
  assumes "length pre = a" and "b = a + length m" and "f m = Some (s, m')" and "length m' = length m"
  shows "on_range (pre @ m @ post) (a, b) f = Some (s, pre @ m' @ post)"
  using assms by (simp add: on_range_def slice_range_def put_range_def slice_def copy_range_def)

text \<open>Sealing payload and signature in a message of the right size.\<close>

lemma seal_payload:
  assumes "crypto_lengths c" and "length pre = a" and "length pad = PAYLOAD_REV_START" and "msg = pre @ pt @ pad"
  shows "on_range msg (a, length msg - PAYLOAD_TAG_REV_START) (encrypt_and_mix c s n) =
    Some (payload_state c s n pt, pre @ sealed c s n pt @ drop TAG_LEN pad)"
proof -
  have split: "pre @ pt @ pad = pre @ (pt @ take TAG_LEN pad) @ drop TAG_LEN pad" by simp
  have "length (take TAG_LEN pad) = TAG_LEN" using assms(3) by (simp add: tail_layout)
  note e = encrypt_and_mix_sealed [OF this, of c s n pt]
  show ?thesis
    unfolding assms(4) split
    by (rule on_range_middle [where m = "pt @ take TAG_LEN pad"])
       (use assms(2,3) e length_sealed [OF assms(1)] in \<open>simp_all add: payload_state_def tail_layout\<close>)
qed

lemma seal_sign:
  assumes "crypto_lengths c" and "length pad = ONLINE_SIGN_REV_END" and "msg = pre @ pad"
  shows "on_range msg (length msg - ONLINE_SIGN_REV_END, length msg) (sign c s n b) =
    Some (mix c s n (sealed_sign c s n b), pre @ sealed_sign c s n b)"
proof -
  have "length pad = SIGN_LEN + TAG_LEN" using assms(2) by (simp add: tail_layout)
  note e = sign_sealed [OF assms(1) this, of s n b]
  show ?thesis
    using on_range_middle [where pre = pre and m = pad and post = "[]" and f = "sign c s n b", OF _ _ e, of "length pre" "length msg"]
      assms length_sealed_sign [OF assms(1), of s n b]
    by (simp add: sealed_sign_def)
qed

text \<open>Opening them again.\<close>

lemma open_payload:
  assumes "crypto_lengths c" and "cipher_correct c" and "length pre = a" and "length g = ONLINE_SIGN_REV_END"
    and "msg = pre @ sealed c s n pt @ g"
  shows "\<exists>tag. length tag = TAG_LEN \<and> on_range msg (a, length msg - PAYLOAD_TAG_REV_START) (decrypt_and_mix c s n) =
    Some ((payload_state c s n pt, Inr ()), pre @ (pt @ tag) @ g)"
proof -
  obtain tag where t: "length tag = TAG_LEN"
    "decrypt_and_mix c s n (sealed c s n pt) = Some ((mix c s n (sealed c s n pt), Inr ()), pt @ tag)"
    using decrypt_and_mix_sealed [OF assms(1,2)] by blast
  have "on_range (pre @ sealed c s n pt @ g) (a, length msg - PAYLOAD_TAG_REV_START) (decrypt_and_mix c s n) =
      Some ((mix c s n (sealed c s n pt), Inr ()), pre @ (pt @ tag) @ g)"
    by (rule on_range_middle)
       (use assms(3-5) t length_sealed [OF assms(1)] in \<open>simp_all add: PAYLOAD_TAG_REV_START_def\<close>)
  then show ?thesis using t(1) assms(5) by (auto simp: payload_state_def)
qed

lemma open_sign:
  assumes "crypto_lengths c" and "cipher_correct c" and "msg = pre @ sealed_sign c s n b"
    and "bundle_verify c r [n] (channel_binding s) (bundle_sign c b [n] (channel_binding s)) now = Inr ()"
  shows "\<exists>g. length g = ONLINE_SIGN_REV_END \<and>
    on_range msg (length msg - ONLINE_SIGN_REV_END, length msg) (\<lambda>d. verify c s n (Some r) d now) =
    Some ((mix c s n (sealed_sign c s n b), Inr ()), pre @ g)"
proof -
  let ?sig = "bundle_sign c b [n] (channel_binding s)"
  have l: "length ?sig = SIGN_LEN" using assms(1) by (simp add: bundle_sign_def crypto_lengths_def)
  obtain tag where t: "length tag = TAG_LEN"
    "verify c s n (Some r) (sealed_sign c s n b) now = Some ((mix c s n (sealed_sign c s n b), Inr ()), ?sig @ tag)"
    using verify_sealed [OF assms(1,2) l, of s n r now] assms(4) by (auto simp: sealed_sign_def)
  have "on_range (pre @ sealed_sign c s n b @ []) (length msg - ONLINE_SIGN_REV_END, length msg) (\<lambda>d. verify c s n (Some r) d now) =
    Some ((mix c s n (sealed_sign c s n b), Inr ()), pre @ (?sig @ tag) @ [])"
    by (rule on_range_middle)
       (use assms(3) t l length_sealed_sign [OF assms(1), of s n b] in \<open>simp_all add: tail_layout\<close>)
  then show ?thesis using l t(1) assms(3) by (intro exI [of _ "?sig @ tag"]) (simp add: tail_layout)
qed

section \<open>The three messages\<close>

text \<open>Memory that allocations always return.\<close>

definition malloc_ok :: "(nat \<Rightarrow> bytes option) \<Rightarrow> bool" where
  "malloc_ok malloc \<longleftrightarrow> (\<forall>n. \<exists>m. malloc n = Some m \<and> length m = n)"

lemma initialize_full:
  assumes "malloc_ok malloc" and "length ek = ENCAPSULATION_KEY_LEN"
  shows "initialize c (ek, dk) aad b None payload malloc =
    Some (Some (ek, \<lparr> init_symmetric = mix c (symmetric_new c aad) 1 ek, init_fallback = None, decapsulation_key = dk,
      init_payload = payload, init_secret_key_bundle = b, init_remote_key_bundle = None \<rparr>))"
proof -
  obtain m where "malloc EPHEMERAL_ENC_KEY_END = Some m" "length m = EPHEMERAL_ENC_KEY_END"
    using assms(1) by (auto simp: malloc_ok_def)
  then show ?thesis
    using assms(2) by (simp add: initialize_def put_range_def copy_range_def init_layout)
qed

text \<open>The symmetric state behind the reply's ciphertext and shared secret.\<close>

definition reply_start :: "('x, 'sk, 'pk, 'dk) crypto \<Rightarrow> symmetric_state \<Rightarrow> u8 \<Rightarrow> bytes \<Rightarrow> bytes \<Rightarrow> symmetric_state" where
  "reply_start c s t ct ss = mix c (mix c s 2 (t # ct)) 3 ss"

lemma reply_encode_layout:
  fixes c s t ct ss b payload
  defines "s3 \<equiv> reply_start c s t ct ss"
    and "pt \<equiv> (if t = HANDSHAKE_TYPE_RESUME then [] else public_bytes (public_bundle b)) @ payload"
  defines "s4 \<equiv> payload_state c s3 4 pt"
  assumes cl: "crypto_lengths c" and mem: "malloc_ok malloc" and ct: "length ct = CIPHERTEXT_LEN"
  shows "reply_encode c t s ss ct b payload malloc =
    Some (Inr (mix c s4 5 (sealed_sign c s4 5 b), t # ct @ sealed c s3 4 pt @ sealed_sign c s4 5 b))"
proof -
  let ?n = "REPLY_PAYLOAD_START + length pt + PAYLOAD_REV_START"
  obtain m where m: "malloc ?n = Some m" "length m = ?n" using mem by (auto simp: malloc_ok_def)
  define pre where "pre = t # ct"
  have pre: "length pre = REPLY_PAYLOAD_START" by (simp add: pre_def ct reply_layout)
  have n: "(if t = HANDSHAKE_TYPE_RESUME then REPLY_PAYLOAD_START + length payload + PAYLOAD_REV_START
      else REPLY_PAYLOAD_START + length (public_bytes (public_bundle b)) + length payload + PAYLOAD_REV_START) = ?n"
    by (simp add: pt_def)
  have s1: "set_idx m HANDSHAKE_TYPE_IDX t = Some (t # drop 1 m)"
    using m(2) by (cases m) (simp_all add: set_idx_def reply_layout)
  have s2: "put_range (t # drop 1 m) EPHEMERAL_CIPHERTEXT_RANGE ct = Some (pre @ drop REPLY_PAYLOAD_START m)"
    using m(2) ct by (simp add: put_range_def copy_range_def reply_layout pre_def)
  have d2: "slice (pre @ drop REPLY_PAYLOAD_START m) 0 EPHEMERAL_CIPHERTEXT_END = Some pre"
    using pre by (simp add: slice_def reply_layout)
  let ?kb = "if t = HANDSHAKE_TYPE_RESUME then [] else public_bytes (public_bundle b)"
  have s3: "(if t \<noteq> HANDSHAKE_TYPE_RESUME
      then put_range (pre @ drop REPLY_PAYLOAD_START m) (REPLY_PAYLOAD_START, REPLY_PAYLOAD_START + length (public_bytes (public_bundle b)))
        (public_bytes (public_bundle b))
      else Some (pre @ drop REPLY_PAYLOAD_START m)) = Some ((pre @ ?kb) @ drop (REPLY_PAYLOAD_START + length ?kb) m)"
    using put_next [OF pre, where new = "public_bytes (public_bundle b)" and buf = m] m(2) by (simp add: pt_def)
  have s4: "put_range ((pre @ ?kb) @ drop (REPLY_PAYLOAD_START + length ?kb) m)
      (REPLY_PAYLOAD_START + length ?kb, REPLY_PAYLOAD_START + length pt) payload =
      Some (((pre @ ?kb) @ payload) @ drop (REPLY_PAYLOAD_START + length pt) m)"
    by (rule put_next) (simp_all add: pre m(2) pt_def)
  define pad where "pad = drop (REPLY_PAYLOAD_START + length pt) m"
  have pad: "length pad = PAYLOAD_REV_START" using m(2) by (simp add: pad_def)
  note e1 = seal_payload [OF cl pre pad, of "pre @ pt @ pad" pt _ 4]
  have "length (drop TAG_LEN pad) = ONLINE_SIGN_REV_END" using pad by (simp add: tail_layout)
  note e2 = seal_sign [OF cl this, of "pre @ sealed c s3 4 pt @ drop TAG_LEN pad" "pre @ sealed c s3 4 pt" _ 5 b]
  have L: "length ((pre @ ?kb) @ drop (REPLY_PAYLOAD_START + length ?kb) m) = ?n" using m(2) by (simp add: pre pt_def)
  have cs: "checked_sub ?n PAYLOAD_REV_START = Some (REPLY_PAYLOAD_START + length pt)"
    "checked_sub (REPLY_PAYLOAD_START + length pt) (length payload) = Some (REPLY_PAYLOAD_START + length ?kb)"
    "checked_sub ?n PAYLOAD_TAG_REV_START = Some (?n - PAYLOAD_TAG_REV_START)"
    "checked_sub ?n ONLINE_SIGN_REV_END = Some (?n - ONLINE_SIGN_REV_END)"
    "checked_sub ?n ONLINE_SIGN_TAG_REV_START = Some ?n"
    by (simp_all add: checked_sub_def tail_layout pt_def)
  have L1: "length (pre @ pt @ pad) = ?n" by (simp add: pre pad)
  have L2: "length (pre @ sealed c s3 4 pt @ drop TAG_LEN pad) = ?n"
    using pad by (simp add: pre length_sealed [OF cl] tail_layout)
  have x1: "on_range (((pre @ ?kb) @ payload) @ drop (REPLY_PAYLOAD_START + length pt) m)
      (REPLY_PAYLOAD_START, ?n - PAYLOAD_TAG_REV_START) (encrypt_and_mix c s3 4) =
      Some (s4, pre @ sealed c s3 4 pt @ drop TAG_LEN pad)"
  proof -
    have "((pre @ ?kb) @ payload) @ drop (REPLY_PAYLOAD_START + length pt) m = pre @ pt @ pad"
      unfolding pt_def pad_def by (simp only: append.assoc)
    then show ?thesis using e1 [of s3, unfolded L1] unfolding s4_def by simp
  qed
  have x2: "on_range (pre @ sealed c s3 4 pt @ drop TAG_LEN pad) (?n - ONLINE_SIGN_REV_END, ?n) (sign c s4 5 b) =
      Some (mix c s4 5 (sealed_sign c s4 5 b), pre @ sealed c s3 4 pt @ sealed_sign c s4 5 b)"
    using e2 [of s4, unfolded L2] by simp
  show ?thesis
    unfolding reply_encode_def Let_def n m(1) option.case s1 s2 bind.simps d2 s3 L cs s4
      reply_start_def [of c s t ct ss, folded pre_def s3_def, symmetric] x1 prod.case x2
    by (simp add: pre_def)
qed

lemma decode_initialize_full:
  assumes "length ek = ENCAPSULATION_KEY_LEN"
  shows "decode_initialize c aad ek b None now =
    Some (Inr (HANDSHAKE_TYPE_FULL, mix c (symmetric_new c aad) 1 ek, None, None))"
  using assms by (simp add: decode_initialize_def init_layout COLLISION_RESISITANCE_NIST2_LEN_def)

lemma confirm_encode_layout:
  fixes c st s
  defines "pt \<equiv> public_bytes (public_bundle (init_secret_key_bundle st)) @ init_payload st"
  defines "s6 \<equiv> payload_state c s 6 pt"
  assumes cl: "crypto_lengths c" and mem: "malloc_ok malloc"
  shows "confirm_encode c st s malloc =
    Some (Inr (mix c s6 7 (sealed_sign c s6 7 (init_secret_key_bundle st)),
               sealed c s 6 pt @ sealed_sign c s6 7 (init_secret_key_bundle st)))"
proof -
  let ?kb = "public_bytes (public_bundle (init_secret_key_bundle st))"
  let ?n = "length pt + TAG_LEN + SIGN_LEN + TAG_LEN"
  obtain m where m: "malloc ?n = Some m" "length m = ?n" using mem by (auto simp: malloc_ok_def)
  define pad where "pad = drop (length pt) m"
  have pad: "length pad = PAYLOAD_REV_START" using m(2) by (simp add: pad_def tail_layout)
  have p1: "put_range m (0, length ?kb) ?kb = Some (?kb @ drop (length ?kb) m)"
    using m(2) by (simp add: put_range_def copy_range_def pt_def)
  have p2: "put_range (?kb @ drop (length ?kb) m) (length ?kb, length pt) (init_payload st) = Some (pt @ pad)"
    using put_next [of ?kb "length ?kb" "length pt" "init_payload st" m] m(2) by (simp add: pt_def pad_def)
  have L: "length (pt @ pad) = ?n" "length (sealed c s 6 pt @ drop TAG_LEN pad) = ?n"
    using pad by (simp_all add: length_sealed [OF cl] tail_layout)
  have off: "?n - PAYLOAD_TAG_REV_START = length pt + TAG_LEN" "?n - ONLINE_SIGN_REV_END = length pt + TAG_LEN"
    by (simp_all add: tail_layout)
  have x1: "on_range (pt @ pad) (0, length pt + TAG_LEN) (encrypt_and_mix c s 6) =
      Some (s6, sealed c s 6 pt @ drop TAG_LEN pad)"
    using seal_payload [OF cl _ pad, of "[]" 0 "pt @ pad" pt s 6, unfolded L off] unfolding s6_def by simp
  have "length (drop TAG_LEN pad) = ONLINE_SIGN_REV_END" using pad by (simp add: tail_layout)
  from seal_sign [OF cl this, of "sealed c s 6 pt @ drop TAG_LEN pad" "sealed c s 6 pt" s6 7 "init_secret_key_bundle st", unfolded L off]
  have x2: "on_range (sealed c s 6 pt @ drop TAG_LEN pad) (length pt + TAG_LEN, ?n) (sign c s6 7 (init_secret_key_bundle st)) =
      Some (mix c s6 7 (sealed_sign c s6 7 (init_secret_key_bundle st)),
        sealed c s 6 pt @ sealed_sign c s6 7 (init_secret_key_bundle st))" by simp
  have k: "0 + length ?kb = length ?kb" "length ?kb + length (init_payload st) = length pt" by (simp_all add: pt_def)
  show ?thesis
    unfolding confirm_encode_def Let_def CONFIRM_PAYLOAD_START_def k m(1) option.case p1 bind.simps p2 x1 prod.case x2 ..
qed

text \<open>
  How the initiator reads a reply in which \<open>pt\<close> is sealed, for any type of handshake: what is left
  open is the choice of the bundle and the confirm message.
\<close>

lemma process_reply_layout:
  fixes c s t ct ss pt b
  defines "s3 \<equiv> reply_start c s t ct ss"
  defines "s4 \<equiv> payload_state c s3 4 pt"
  defines "s5 \<equiv> mix c s4 5 (sealed_sign c s4 5 b)"
  assumes cl: "crypto_lengths c" and cc: "cipher_correct c" and ct: "length ct = CIPHERTEXT_LEN" and t: "t \<le> HANDSHAKE_TYPE_MAX"
    and chosen: "(if t = HANDSHAKE_TYPE_FALLBACK then init_fallback st else Some (init_symmetric st)) = Some s"
    and kem: "dk_decapsulate c (decapsulation_key st) ct = Some ss"
    and key: "\<And>rest. reply_key_bundle c st t (t # ct @ pt @ rest) (REPLY_PAYLOAD_START + length pt) now bundle_malloc =
      Some (Inr (r, REPLY_PAYLOAD_START + k))" and k: "k \<le> length pt"
    and sig: "bundle_verify c r [5] (channel_binding s4) (bundle_sign c b [5] (channel_binding s4)) now = Inr ()"
    and confirm: "t \<noteq> HANDSHAKE_TYPE_RESUME \<Longrightarrow> confirm_encode c st s5 message_malloc = Some (Inr (s7, cm))"
  shows "process_reply c st (t # ct @ sealed c s3 4 pt @ sealed_sign c s4 5 b) now bundle_malloc message_malloc =
    Some (Inr \<lparr> message_to_send = (if t = HANDSHAKE_TYPE_RESUME then None else Some cm),
      complete_keys = (if t = HANDSHAKE_TYPE_RESUME then split_keys c s5 13 else split_keys c s7 8),
      complete_bundle = r, recv_payload = drop k pt \<rparr>)"
proof -
  define pre where "pre = t # ct"
  define g where "g = sealed_sign c s4 5 b"
  define msg where "msg = pre @ sealed c s3 4 pt @ g"
  let ?n = "REPLY_PAYLOAD_START + length pt + PAYLOAD_REV_START"
  have pre: "length pre = REPLY_PAYLOAD_START" by (simp add: pre_def ct reply_layout)
  have g: "length g = ONLINE_SIGN_REV_END" unfolding g_def by (rule length_sealed_sign [OF cl])
  have L: "length msg = ?n" by (simp add: msg_def pre length_sealed [OF cl] g tail_layout)
  obtain tag where tag: "length tag = TAG_LEN"
    and x1: "on_range msg (REPLY_PAYLOAD_START, ?n - PAYLOAD_TAG_REV_START) (decrypt_and_mix c s3 4) =
      Some ((s4, Inr ()), pre @ (pt @ tag) @ g)"
    using open_payload [OF cl cc pre g msg_def] L unfolding s4_def by auto
  have L2: "length ((pre @ pt @ tag) @ g) = ?n" by (simp add: pre g tag tail_layout)
  have split: "pre @ (pt @ tag) @ g = (pre @ pt @ tag) @ g" by simp
  obtain g' where g': "length g' = ONLINE_SIGN_REV_END"
    and x2: "on_range (pre @ (pt @ tag) @ g) (?n - ONLINE_SIGN_REV_END, ?n) (\<lambda>d. verify c s4 5 (Some r) d now) =
      Some ((s5, Inr ()), (pre @ pt @ tag) @ g')"
    using open_sign [OF cl cc _ sig, of "(pre @ pt @ tag) @ g" "pre @ pt @ tag", folded g_def, OF refl, unfolded L2]
    unfolding s5_def g_def [symmetric] split by blast
  have cs: "checked_sub ?n PAYLOAD_REV_START = Some (REPLY_PAYLOAD_START + length pt)"
    "checked_sub ?n PAYLOAD_TAG_REV_START = Some (?n - PAYLOAD_TAG_REV_START)"
    "checked_sub ?n ONLINE_SIGN_REV_END = Some (?n - ONLINE_SIGN_REV_END)"
    "checked_sub ?n ONLINE_SIGN_TAG_REV_START = Some ?n"
    by (simp_all add: checked_sub_def tail_layout)
  have i: "get_idx msg HANDSHAKE_TYPE_IDX = Some t" by (simp add: msg_def pre_def get_idx_def HANDSHAKE_TYPE_IDX_def)
  have sl: "slice_range msg EPHEMERAL_CIPHERTEXT_RANGE = Some ct"
    using ct by (simp add: msg_def pre_def slice_range_def slice_def reply_layout)
  have d2: "slice msg 0 EPHEMERAL_CIPHERTEXT_END = Some pre"
    using pre by (simp add: msg_def slice_def reply_layout)
  have key': "reply_key_bundle c st t (pre @ (pt @ tag) @ g) (REPLY_PAYLOAD_START + length pt) now bundle_malloc =
      Some (Inr (r, REPLY_PAYLOAD_START + k))"
    using key [of "tag @ g"] by (simp add: pre_def)
  have pl: "slice ((pre @ pt @ tag) @ g') (REPLY_PAYLOAD_START + k) (REPLY_PAYLOAD_START + length pt) = Some (drop k pt)"
    using k pre by (simp add: slice_def)
  have guard: "\<not> length msg < REPLY_PAYLOAD_START + PAYLOAD_REV_START" "\<not> t > HANDSHAKE_TYPE_MAX" using L t by auto
  have "process_reply c st msg now bundle_malloc message_malloc =
    Some (Inr \<lparr> message_to_send = (if t = HANDSHAKE_TYPE_RESUME then None else Some cm),
      complete_keys = (if t = HANDSHAKE_TYPE_RESUME then split_keys c s5 13 else split_keys c s7 8),
      complete_bundle = r, recv_payload = drop k pt \<rparr>)"
    unfolding process_reply_def Let_def guard simp_thms if_False i bind.simps chosen option.case sl kem d2
      reply_start_def [of c s t ct ss, folded pre_def s3_def, symmetric] L cs x1 prod.case sum.case key' x2 pl
    using confirm t by auto
  then show ?thesis by (simp add: msg_def pre_def g_def)
qed

lemma process_confirm_layout:
  fixes c pt st b
  defines "s6 \<equiv> payload_state c (reply_symmetric st) 6 pt"
  defines "s7 \<equiv> mix c s6 7 (sealed_sign c s6 7 b)"
  assumes cl: "crypto_lengths c" and cc: "cipher_correct c"
    and auth: "authenticate c pt now malloc = Some (Inr r)" and k: "length (public_bytes r) \<le> length pt"
    and id: "\<And>h. remote_offline_hash st = Some h \<Longrightarrow> offline_eq_raw r h"
    and storage: "\<not> (reject_if_remote_has_reliable_storage st \<and> (bundle_flags r AND FLAG_RELIABLE_STORAGE) > 0)"
    and sig: "bundle_verify c r [7] (channel_binding s6) (bundle_sign c b [7] (channel_binding s6)) now = Inr ()"
  shows "process_confirm c st (sealed c (reply_symmetric st) 6 pt @ sealed_sign c s6 7 b) now malloc =
    Some (Inr \<lparr> message_to_send = None, complete_keys = split_keys c s7 8, complete_bundle = r,
      recv_payload = drop (length (public_bytes r)) pt \<rparr>)"
proof -
  define g where "g = sealed_sign c s6 7 b"
  define msg where "msg = [] @ sealed c (reply_symmetric st) 6 pt @ g"
  let ?n = "length pt + PAYLOAD_REV_START"
  have g: "length g = ONLINE_SIGN_REV_END" unfolding g_def by (rule length_sealed_sign [OF cl])
  have L: "length msg = ?n" by (simp add: msg_def length_sealed [OF cl] g tail_layout)
  have z: "length ([] :: bytes) = 0" by simp
  obtain tag where tag: "length tag = TAG_LEN"
    and x1: "on_range msg (0, ?n - PAYLOAD_TAG_REV_START) (decrypt_and_mix c (reply_symmetric st) 6) =
      Some ((s6, Inr ()), (pt @ tag) @ g)"
    using open_payload [OF cl cc z g msg_def] L unfolding s6_def by auto
  have L2: "length ((pt @ tag) @ g) = ?n" by (simp add: g tag tail_layout)
  obtain g' where g': "length g' = ONLINE_SIGN_REV_END"
    and x2: "on_range ((pt @ tag) @ g) (?n - ONLINE_SIGN_REV_END, ?n) (\<lambda>d. verify c s6 7 (Some r) d now) =
      Some ((s7, Inr ()), (pt @ tag) @ g')"
    using open_sign [OF cl cc _ sig, of "(pt @ tag) @ g" "pt @ tag", folded g_def, OF refl, unfolded L2]
    unfolding s7_def g_def [symmetric] by blast
  have cs: "checked_sub ?n PAYLOAD_REV_START = Some (length pt)"
    "checked_sub ?n PAYLOAD_TAG_REV_START = Some (?n - PAYLOAD_TAG_REV_START)"
    "checked_sub ?n ONLINE_SIGN_REV_END = Some (?n - ONLINE_SIGN_REV_END)"
    "checked_sub ?n ONLINE_SIGN_TAG_REV_START = Some ?n"
    by (simp_all add: checked_sub_def tail_layout)
  have sl: "slice ((pt @ tag) @ g) 0 (length pt) = Some pt"
    "slice ((pt @ tag) @ g') (0 + length (public_bytes r)) (length pt) = Some (drop (length (public_bytes r)) pt)"
    using k by (simp_all add: slice_def)
  have id': "\<not> (case remote_offline_hash st of Some h \<Rightarrow> \<not> offline_eq_raw r h | None \<Rightarrow> False)"
    using id by (auto split: option.splits)
  have guard: "\<not> length msg < 0 + PAYLOAD_REV_START" using L by auto
  have "process_confirm c st msg now malloc =
    Some (Inr \<lparr> message_to_send = None, complete_keys = split_keys c s7 8, complete_bundle = r,
      recv_payload = drop (length (public_bytes r)) pt \<rparr>)"
    unfolding process_confirm_def Let_def CONFIRM_PAYLOAD_START_def guard simp_thms if_False L bind.simps cs x1 prod.case sum.case
      sl auth x2
    using id' storage by auto
  then show ?thesis by (simp add: msg_def g_def)
qed

text \<open>
  The message that resumes a handshake, as the responder expects it: the sealed checksum and payload
  and a sealed signature behind the ephemeral key and the token.
\<close>

lemma decode_resumption_layout:
  fixes c s9 r b ib payload
  defines "s10 \<equiv> mix c s9 10 (resumption_secret r)"
  defines "pt \<equiv> checksum c s10 (bundle_hash (resumption_bundle r)) (bundle_hash (public_bundle b)) KEY_BUNDLE_CHECKSUM_LEN @ payload"
  defines "s11 \<equiv> payload_state c s10 11 pt"
  assumes cl: "crypto_lengths c" and cc: "cipher_correct c" and pre: "length pre = RESUMPTION_TOKEN_END"
    and sig: "bundle_verify c (resumption_bundle r) [12] (channel_binding s11) (bundle_sign c ib [12] (channel_binding s11)) now = Inr ()"
  shows "decode_resumption c s9 (pre @ sealed c s10 11 pt @ sealed_sign c s11 12 ib) b r now =
    Some (Inr (HANDSHAKE_TYPE_RESUME, mix c s11 12 (sealed_sign c s11 12 ib), Some (offline_hash (resumption_bundle r)),
      Some (resumption_bundle r, payload)))"
proof -
  define g where "g = sealed_sign c s11 12 ib"
  define msg where "msg = pre @ sealed c s10 11 pt @ g"
  define cks where "cks = checksum c s10 (bundle_hash (resumption_bundle r)) (bundle_hash (public_bundle b)) KEY_BUNDLE_CHECKSUM_LEN"
  have pt: "pt = cks @ payload" "length cks = KEY_BUNDLE_CHECKSUM_LEN"
    using cl by (simp_all add: pt_def cks_def checksum_def crypto_lengths_def)
  let ?n = "RESUMPTION_TOKEN_END + length pt + PAYLOAD_REV_START"
  have g: "length g = ONLINE_SIGN_REV_END" unfolding g_def by (rule length_sealed_sign [OF cl])
  have L: "length msg = ?n" by (simp add: msg_def pre length_sealed [OF cl] g tail_layout)
  obtain tag where tag: "length tag = TAG_LEN"
    and x1: "on_range msg (RESUMPTION_TOKEN_END, ?n - PAYLOAD_TAG_REV_START) (decrypt_and_mix c s10 11) =
      Some ((s11, Inr ()), pre @ (pt @ tag) @ g)"
    using open_payload [OF cl cc pre g msg_def] L unfolding s11_def by auto
  have L2: "length ((pre @ pt @ tag) @ g) = ?n" by (simp add: pre g tag tail_layout)
  have split: "pre @ (pt @ tag) @ g = (pre @ pt @ tag) @ g" by simp
  obtain g' where g': "length g' = ONLINE_SIGN_REV_END"
    and x2: "on_range (pre @ (pt @ tag) @ g) (?n - ONLINE_SIGN_REV_END, ?n) (\<lambda>d. verify c s11 12 (Some (resumption_bundle r)) d now) =
      Some ((mix c s11 12 g, Inr ()), (pre @ pt @ tag) @ g')"
    using open_sign [OF cl cc _ sig, of "(pre @ pt @ tag) @ g" "pre @ pt @ tag", folded g_def, OF refl, unfolded L2]
    unfolding split by blast
  have cs: "checked_sub ?n PAYLOAD_REV_START = Some (RESUMPTION_TOKEN_END + length pt)"
    "checked_sub ?n PAYLOAD_TAG_REV_START = Some (?n - PAYLOAD_TAG_REV_START)"
    "checked_sub ?n ONLINE_SIGN_REV_END = Some (?n - ONLINE_SIGN_REV_END)"
    "checked_sub ?n ONLINE_SIGN_TAG_REV_START = Some ?n"
    by (simp_all add: checked_sub_def tail_layout)
  have rng: "fst KEY_BUNDLE_CHECKSUM_RANGE = RESUMPTION_TOKEN_END"
    "INIT_PAYLOAD_START = RESUMPTION_TOKEN_END + KEY_BUNDLE_CHECKSUM_LEN"
    by (simp_all add: KEY_BUNDLE_CHECKSUM_RANGE_def INIT_PAYLOAD_START_def)
  have guard: "\<not> length msg < INIT_PAYLOAD_START + PAYLOAD_REV_START" using L pt by (simp add: rng)
  have sl: "slice_range (pre @ (pt @ tag) @ g) KEY_BUNDLE_CHECKSUM_RANGE = Some cks"
    "slice ((pre @ pt @ tag) @ g') INIT_PAYLOAD_START (RESUMPTION_TOKEN_END + length pt) = Some payload"
    using pre pt by (simp_all add: slice_range_def slice_def KEY_BUNDLE_CHECKSUM_RANGE_def rng(2))
  have "decode_resumption c s9 msg b r now =
    Some (Inr (HANDSHAKE_TYPE_RESUME, mix c s11 12 g, Some (offline_hash (resumption_bundle r)), Some (resumption_bundle r, payload)))"
    unfolding decode_resumption_def Let_def guard simp_thms if_False L cs bind.simps
      s10_def [symmetric] rng(1) x1 prod.case sum.case sl(1) cks_def [symmetric] if_True x2 sl(2)
    using guard L by simp
  then show ?thesis by (simp add: msg_def g_def)
qed

section \<open>Agreement\<close>

text \<open>
  What the handshake needs of a party's bundle: other parties authenticate it, also with a payload
  behind it, and its signatures verify with its online key, within the period of validity.
\<close>

definition good_bundle ::
  "('x, 'sk, 'pk, 'dk) crypto \<Rightarrow> (nat \<Rightarrow> bytes option) \<Rightarrow> u64 \<Rightarrow> ('sk, 'pk) secret_bundle \<Rightarrow> bool" where
  "good_bundle c malloc now b \<longleftrightarrow>
     not_before (public_bundle b) \<le> now \<and> now \<le> not_after (public_bundle b) \<and>
     (\<forall>rest. authenticate c (public_bytes (public_bundle b) @ rest) now malloc = Some (Inr (public_bundle b))) \<and>
     (\<forall>ctx d. pk_verify c (online_key (public_bundle b)) ctx d (sk_sign c (online_secret_key b) ctx d))"

lemma good_bundle_verify:
  "good_bundle c malloc now b \<Longrightarrow> bundle_verify c (public_bundle b) ctx d (bundle_sign c b ctx d) now = Inr ()"
  by (auto simp: good_bundle_def bundle_verify_def bundle_sign_def)

lemma full_handshake_run:
  assumes "crypto_lengths c" and "cipher_correct c" and "malloc_ok malloc" and "length ek = ENCAPSULATION_KEY_LEN"
    and "dk_encapsulate c ek = Some (ss, ct)" and "dk_decapsulate c dk ct = Some ss"
    and "good_bundle c malloc now I" and "good_bundle c malloc now R"
  shows "\<exists>m1 st1 m2 st2 m3 done1 done2.
     initialize c (ek, dk) aad I None payloadI malloc = Some (Some (m1, st1)) \<and>
     process_initialize c aad m1 R None now malloc payloadR = Some (Inr (Incomplete m2 st2)) \<and>
     process_reply c st1 m2 now malloc malloc = Some (Inr done1) \<and> message_to_send done1 = Some m3 \<and>
     process_confirm c st2 m3 now malloc = Some (Inr done2) \<and> message_to_send done2 = None \<and>
     complete_keys done1 = complete_keys done2 \<and>
     complete_bundle done1 = public_bundle R \<and> complete_bundle done2 = public_bundle I \<and>
     recv_payload done1 = payloadR \<and> recv_payload done2 = payloadI"
proof -
  note cl = assms(1) and cc = assms(2) and mem = assms(3)
  define s1 where "s1 = mix c (symmetric_new c aad) 1 ek"
  define st1 where "st1 = \<lparr> init_symmetric = s1, init_fallback = None, decapsulation_key = dk, init_payload = payloadI,
    init_secret_key_bundle = I, init_remote_key_bundle = None \<rparr>"
  have init: "initialize c (ek, dk) aad I None payloadI malloc = Some (Some (ek, st1))"
    unfolding st1_def s1_def by (rule initialize_full [OF mem assms(4)])
  have ct: "length ct = CIPHERTEXT_LEN" using cl assms(5) by (simp add: crypto_lengths_def)
  define s3 where "s3 = reply_start c s1 HANDSHAKE_TYPE_FULL ct ss"
  define ptR where "ptR = public_bytes (public_bundle R) @ payloadR"
  define s4 where "s4 = payload_state c s3 4 ptR"
  define s5 where "s5 = mix c s4 5 (sealed_sign c s4 5 R)"
  define m2 where "m2 = HANDSHAKE_TYPE_FULL # ct @ sealed c s3 4 ptR @ sealed_sign c s4 5 R"
  define st2 where "st2 = \<lparr> reply_symmetric = s5, remote_offline_hash = None, reject_if_remote_has_reliable_storage = False \<rparr>"
  have ty: "HANDSHAKE_TYPE_FULL \<noteq> HANDSHAKE_TYPE_RESUME" "HANDSHAKE_TYPE_FULL \<noteq> HANDSHAKE_TYPE_FALLBACK"
    "HANDSHAKE_TYPE_FULL \<le> HANDSHAKE_TYPE_MAX"
    by (simp_all add: HANDSHAKE_TYPE_FULL_def HANDSHAKE_TYPE_RESUME_def HANDSHAKE_TYPE_FALLBACK_def)
  have enc: "reply_encode c HANDSHAKE_TYPE_FULL s1 ss ct R payloadR malloc = Some (Inr (s5, m2))"
    using reply_encode_layout [OF cl mem ct, of HANDSHAKE_TYPE_FULL s1 ss R payloadR] ty
    by (simp add: s5_def s4_def s3_def ptR_def m2_def)
  have reply: "process_initialize c aad ek R None now malloc payloadR = Some (Inr (Incomplete m2 st2))"
    using assms(4,5) enc decode_initialize_full [OF assms(4), of c aad R now] ty
    by (simp add: process_initialize_def slice_range_def slice_def init_layout s1_def [symmetric] st2_def)
  define ptI where "ptI = public_bytes (public_bundle I) @ payloadI"
  define s6 where "s6 = payload_state c s5 6 ptI"
  define s7 where "s7 = mix c s6 7 (sealed_sign c s6 7 I)"
  define m3 where "m3 = sealed c s5 6 ptI @ sealed_sign c s6 7 I"
  have conf: "confirm_encode c st1 s5 malloc = Some (Inr (s7, m3))"
    using confirm_encode_layout [OF cl mem, of st1 s5] by (simp add: st1_def ptI_def s6_def s7_def m3_def)
  have key: "reply_key_bundle c st1 HANDSHAKE_TYPE_FULL (HANDSHAKE_TYPE_FULL # ct @ ptR @ rest) (REPLY_PAYLOAD_START + length ptR)
      now malloc = Some (Inr (public_bundle R, REPLY_PAYLOAD_START + length (public_bytes (public_bundle R))))" for rest
    using assms(8) ct ty
    by (simp add: reply_key_bundle_def slice_def reply_layout good_bundle_def ptR_def st1_def)
  have "process_reply c st1 m2 now malloc malloc =
    Some (Inr \<lparr> message_to_send = Some m3, complete_keys = split_keys c s7 8, complete_bundle = public_bundle R,
      recv_payload = payloadR \<rparr>)"
    using process_reply_layout [where t = HANDSHAKE_TYPE_FULL and s = s1 and pt = ptR and b = R and st = st1 and cm = m3 and ?s7.0 = s7,
        OF cl cc ct ty(3) _ _ key _ good_bundle_verify [OF assms(8)] conf [unfolded s5_def s4_def s3_def]] assms(6) ty
    by (simp add: st1_def m2_def s4_def s3_def ptR_def)
  moreover have "process_confirm c st2 m3 now malloc =
    Some (Inr \<lparr> message_to_send = None, complete_keys = split_keys c s7 8, complete_bundle = public_bundle I,
      recv_payload = payloadI \<rparr>)"
    using process_confirm_layout [where st = st2 and pt = ptI and b = I and r = "public_bundle I" and malloc = malloc,
        OF cl cc _ _ _ _ good_bundle_verify [OF assms(7)]] assms(7)
    by (simp add: st2_def m3_def ptI_def s6_def s7_def good_bundle_def)
  ultimately show ?thesis using init reply by (metis handshake_complete.select_convs)
qed

text \<open>
  C1. A full handshake: the initiator's message makes the responder reply, the reply makes the
  initiator complete and send a confirmation, and the confirmation makes the responder complete.
  Both sides then hold the same keys, each holds the other's bundle, and each received exactly the
  payload that the other sent.  The hypotheses are the documented behaviour of the primitives (output
  lengths, decryption inverts encryption, decapsulation inverts encapsulation), bundles that verify,
  and successful allocations.
\<close>

theorem full_handshake_agrees:
  assumes "crypto_lengths c" and "cipher_correct c" and "malloc_ok malloc" and "length ek = ENCAPSULATION_KEY_LEN"
    and "dk_encapsulate c ek = Some (ss, ct)" and "dk_decapsulate c dk ct = Some ss"
    and "good_bundle c malloc now I" and "good_bundle c malloc now R"
  shows "\<exists>m1 st1 m2 st2 m3 done1 done2.
     initialize c (ek, dk) aad I None payloadI malloc = Some (Some (m1, st1)) \<and>
     process_initialize c aad m1 R None now malloc payloadR = Some (Inr (Incomplete m2 st2)) \<and>
     process_reply c st1 m2 now malloc malloc = Some (Inr done1) \<and> message_to_send done1 = Some m3 \<and>
     process_confirm c st2 m3 now malloc = Some (Inr done2) \<and> message_to_send done2 = None \<and>
     complete_keys done1 = complete_keys done2 \<and>
     complete_bundle done1 = public_bundle R \<and> complete_bundle done2 = public_bundle I \<and>
     recv_payload done1 = payloadR \<and> recv_payload done2 = payloadI"
  using assms by (rule full_handshake_run)

text \<open>A handshake between two parties that share the sample bundle.\<close>

definition sample_secret :: "(unit, unit) secret_bundle" where
  "sample_secret = \<lparr> online_secret_key = (), public_bundle = sample_bundle \<rparr>"

lemma sample_good: "good_bundle sample_crypto sample_malloc 15 sample_secret"
  using sample_bundle_authentic [of 15]
  by (auto simp: good_bundle_def sample_secret_def sample_bundle_def) (simp_all add: sample_crypto_def)

lemma sample_malloc_ok: "malloc_ok sample_malloc"
  by (simp add: malloc_ok_def sample_malloc_def)

lemma sample_kem:
  "dk_encapsulate sample_crypto (replicate ENCAPSULATION_KEY_LEN 5) =
     Some (replicate SHARED_SECRET_KEY_LEN 1, replicate CIPHERTEXT_LEN 1)"
  "dk_decapsulate sample_crypto () (replicate CIPHERTEXT_LEN 1) = Some (replicate SHARED_SECRET_KEY_LEN 1)"
  by (simp_all add: sample_crypto_def)

theorem full_handshake_agrees_witness:
  "\<exists>m1 st1 m2 st2 m3 done1 done2.
     initialize sample_crypto (replicate ENCAPSULATION_KEY_LEN 5, ()) [1] sample_secret None [2, 3] sample_malloc = Some (Some (m1, st1)) \<and>
     process_initialize sample_crypto [1] m1 sample_secret None 15 sample_malloc [4] = Some (Inr (Incomplete m2 st2)) \<and>
     process_reply sample_crypto st1 m2 15 sample_malloc sample_malloc = Some (Inr done1) \<and> message_to_send done1 = Some m3 \<and>
     process_confirm sample_crypto st2 m3 15 sample_malloc = Some (Inr done2) \<and>
     complete_keys done1 = complete_keys done2 \<and> recv_payload done1 = [4] \<and> recv_payload done2 = [2, 3]"
  using full_handshake_agrees [OF sample_crypto_ok sample_malloc_ok _ sample_kem sample_good sample_good, of "[1]" "[2, 3]" "[4]"]
  by auto

lemma sample_run:
  "\<exists>st1 m2 st2 m3 done1 done2.
     process_reply sample_crypto st1 m2 15 sample_malloc sample_malloc = Some (Inr done1) \<and>
     process_confirm sample_crypto st2 m3 15 sample_malloc = Some (Inr done2)"
  using full_handshake_run [OF sample_crypto_ok sample_malloc_ok length_replicate sample_kem sample_good sample_good, of "[1]" "[2, 3]" "[4]"]
  by blast

section \<open>Authentication\<close>

lemma on_rangeD:
  assumes "on_range buf r f = Some (s, buf')"
  obtains m m' where "slice_range buf r = Some m" "f m = Some (s, m')" "put_range buf r m' = Some buf'"
  using assms by (auto simp: on_range_def split: option.splits)

lemma verify_sound:
  assumes "verify c s n (Some b) d now = Some ((s', Inr ()), d')"
  shows "not_before b \<le> now \<and> now \<le> not_after b \<and> (\<exists>sig. length sig = SIGN_LEN \<and> pk_verify c (online_key b) [n] (channel_binding s) sig)"
  using assms
  by (auto simp: verify_def bundle_verify_def not_less split: if_splits bind_splits sum.splits)

lemma reply_key_bundle_sound:
  assumes "reply_key_bundle c st t msg pe now malloc = Some (Inr (b, k))"
  shows "(t = HANDSHAKE_TYPE_RESUME \<longrightarrow> init_remote_key_bundle st = Some b) \<and>
    (t \<noteq> HANDSHAKE_TYPE_RESUME \<longrightarrow> (\<exists>p. slice msg REPLY_PAYLOAD_START pe = Some p \<and> authenticate c p now malloc = Some (Inr b))) \<and>
    (\<forall>e. init_remote_key_bundle st = Some e \<longrightarrow> offline_hash e = offline_hash b) \<and>
    (t = HANDSHAKE_TYPE_FALLBACK \<longrightarrow>
       (bundle_flags b AND bundle_flags (public_bundle (init_secret_key_bundle st))) AND FLAG_RELIABLE_STORAGE = 0)"
proof -
  have "HANDSHAKE_TYPE_FALLBACK \<noteq> HANDSHAKE_TYPE_RESUME" by (simp add: HANDSHAKE_TYPE_FALLBACK_def HANDSHAKE_TYPE_RESUME_def)
  then show ?thesis
    using assms
    by (auto simp: reply_key_bundle_def Let_def offline_eq_def offline_eq_raw_def word_neq_0_conv [symmetric]
        split: if_splits bind_splits sum.splits option.splits)
qed

text \<open>
  C2. What an initiator knows when \<open>process_reply\<close> completes: the state it continues with was chosen by
  the type of the handshake (a fallback only if it offered a resumption), the peer's signature over
  the channel binding of the transcript, with the decapsulated secret and the sealed payload mixed
  in, verifies under the online key of the returned bundle, the bundle is in its period of validity
  and has been authenticated (or is the one of the resumption), its offline identity is the expected
  one if there is one, and a fallback does not happen when both sides claim reliable storage.
\<close>

theorem initiator_authentic:
  assumes "process_reply c st msg now bundle_malloc message_malloc = Some (Inr d)"
  shows "\<exists>t s ct ss sealed_payload s4 opened sig. get_idx msg HANDSHAKE_TYPE_IDX = Some t \<and> t \<le> HANDSHAKE_TYPE_MAX \<and>
     (if t = HANDSHAKE_TYPE_FALLBACK then init_fallback st else Some (init_symmetric st)) = Some s \<and>
     slice_range msg EPHEMERAL_CIPHERTEXT_RANGE = Some ct \<and> dk_decapsulate c (decapsulation_key st) ct = Some ss \<and>
     slice msg REPLY_PAYLOAD_START (length msg - PAYLOAD_TAG_REV_START) = Some sealed_payload \<and>
     decrypt_and_mix c (reply_start c s t ct ss) 4 sealed_payload = Some ((s4, Inr ()), opened) \<and>
     pk_verify c (online_key (complete_bundle d)) [5] (channel_binding s4) sig \<and>
     not_before (complete_bundle d) \<le> now \<and> now \<le> not_after (complete_bundle d) \<and>
     (if t = HANDSHAKE_TYPE_RESUME then init_remote_key_bundle st = Some (complete_bundle d)
      else (\<exists>p. authenticate c p now bundle_malloc = Some (Inr (complete_bundle d)))) \<and>
     (\<forall>e. init_remote_key_bundle st = Some e \<longrightarrow> offline_hash e = offline_hash (complete_bundle d)) \<and>
     (t = HANDSHAKE_TYPE_FALLBACK \<longrightarrow>
        (bundle_flags (complete_bundle d) AND bundle_flags (public_bundle (init_secret_key_bundle st))) AND FLAG_RELIABLE_STORAGE = 0)"
proof -
  obtain t s ct ss d2 s4 msg4 pe k b s5 u msg5 where len: "\<not> length msg < REPLY_PAYLOAD_START + PAYLOAD_REV_START"
    and t: "get_idx msg HANDSHAKE_TYPE_IDX = Some t" "\<not> t > HANDSHAKE_TYPE_MAX"
    and s: "(if t = HANDSHAKE_TYPE_FALLBACK then init_fallback st else Some (init_symmetric st)) = Some s"
    and ct: "slice_range msg EPHEMERAL_CIPHERTEXT_RANGE = Some ct" "dk_decapsulate c (decapsulation_key st) ct = Some ss"
    and d2: "slice msg 0 EPHEMERAL_CIPHERTEXT_END = Some d2"
    and x1: "on_range msg (REPLY_PAYLOAD_START, length msg - PAYLOAD_TAG_REV_START)
        (decrypt_and_mix c (mix c (mix c s 2 d2) 3 ss) 4) = Some ((s4, Inr ()), msg4)"
    and key: "reply_key_bundle c st t msg4 pe now bundle_malloc = Some (Inr (b, k))"
    and x2: "on_range msg4 u (\<lambda>d. verify c s4 5 (Some b) d now) = Some ((s5, Inr ()), msg5)"
    and d: "complete_bundle d = b"
    using assms
    by (auto simp: process_reply_def checked_sub_def Let_def simp del: not_less
        split: if_splits bind_splits sum.splits option.splits prod.splits)
  obtain m m' where m: "slice_range msg (REPLY_PAYLOAD_START, length msg - PAYLOAD_TAG_REV_START) = Some m"
    "decrypt_and_mix c (mix c (mix c s 2 d2) 3 ss) 4 m = Some ((s4, Inr ()), m')" by (rule on_rangeD [OF x1])
  have "d2 = t # ct"
    using len t(1) ct(1) d2
    by (cases msg) (auto simp: get_idx_def slice_range_def slice_def reply_layout split: if_splits)
  then have "decrypt_and_mix c (reply_start c s t ct ss) 4 m = Some ((s4, Inr ()), m')"
    using m(2) by (simp add: reply_start_def)
  moreover have "slice msg REPLY_PAYLOAD_START (length msg - PAYLOAD_TAG_REV_START) = Some m" "t \<le> HANDSHAKE_TYPE_MAX"
    using m(1) t(2) by (simp_all add: slice_range_def)
  moreover obtain sig where "pk_verify c (online_key b) [5] (channel_binding s4) sig" "not_before b \<le> now" "now \<le> not_after b"
    using x2 verify_sound by (blast elim: on_rangeD)
  moreover note key_sound = reply_key_bundle_sound [OF key]
  then have "if t = HANDSHAKE_TYPE_RESUME then init_remote_key_bundle st = Some b
      else (\<exists>p. authenticate c p now bundle_malloc = Some (Inr b))" by auto
  ultimately show ?thesis
    unfolding d using t(1) s ct key_sound [THEN conjunct2, THEN conjunct2] by blast
qed

theorem initiator_authentic_witness:
  "\<exists>st msg d s4 sig. process_reply sample_crypto st msg 15 sample_malloc sample_malloc = Some (Inr d) \<and>
     pk_verify sample_crypto (online_key (complete_bundle d)) [5] (channel_binding s4) sig"
proof -
  obtain st msg d where run: "process_reply sample_crypto st msg 15 sample_malloc sample_malloc = Some (Inr d)"
    using sample_run by blast
  show ?thesis using initiator_authentic [OF run] run by blast
qed

text \<open>
  C3. What a responder knows when \<open>process_confirm\<close> completes: the bundle in the sealed payload has been
  authenticated and is in its period of validity, its online key verifies the peer's signature over
  the channel binding of the whole transcript, its offline identity is the one that an earlier
  resumption had, and after a fallback at most one side claims reliable storage.
\<close>

theorem responder_authentic:
  assumes "process_confirm c st msg now malloc = Some (Inr d)"
  shows "\<exists>sealed_payload s6 opened p sig. slice msg CONFIRM_PAYLOAD_START (length msg - PAYLOAD_TAG_REV_START) = Some sealed_payload \<and>
     decrypt_and_mix c (reply_symmetric st) 6 sealed_payload = Some ((s6, Inr ()), opened) \<and>
     authenticate c p now malloc = Some (Inr (complete_bundle d)) \<and>
     pk_verify c (online_key (complete_bundle d)) [7] (channel_binding s6) sig \<and>
     not_before (complete_bundle d) \<le> now \<and> now \<le> not_after (complete_bundle d) \<and>
     (\<forall>h. remote_offline_hash st = Some h \<longrightarrow> offline_hash (complete_bundle d) = h) \<and>
     (reject_if_remote_has_reliable_storage st \<longrightarrow> bundle_flags (complete_bundle d) AND FLAG_RELIABLE_STORAGE = 0)"
proof -
  obtain s6 msg6 p s7 u msg7 where
    x1: "on_range msg (CONFIRM_PAYLOAD_START, length msg - PAYLOAD_TAG_REV_START) (decrypt_and_mix c (reply_symmetric st) 6) =
        Some ((s6, Inr ()), msg6)"
    and auth: "authenticate c p now malloc = Some (Inr (complete_bundle d))"
    and h: "\<And>h. remote_offline_hash st = Some h \<Longrightarrow> offline_eq_raw (complete_bundle d) h"
    and fl: "\<not> (reject_if_remote_has_reliable_storage st \<and> (bundle_flags (complete_bundle d) AND FLAG_RELIABLE_STORAGE) > 0)"
    and x2: "on_range msg6 u (\<lambda>b. verify c s6 7 (Some (complete_bundle d)) b now) = Some ((s7, Inr ()), msg7)"
    using assms
    by (auto simp: process_confirm_def checked_sub_def Let_def
        split: if_splits bind_splits sum.splits option.splits prod.splits)
  obtain m m' where m: "slice_range msg (CONFIRM_PAYLOAD_START, length msg - PAYLOAD_TAG_REV_START) = Some m"
    "decrypt_and_mix c (reply_symmetric st) 6 m = Some ((s6, Inr ()), m')" by (rule on_rangeD [OF x1])
  moreover obtain sig where "pk_verify c (online_key (complete_bundle d)) [7] (channel_binding s6) sig"
      "not_before (complete_bundle d) \<le> now" "now \<le> not_after (complete_bundle d)"
    using x2 verify_sound by (blast elim: on_rangeD)
  moreover have "reject_if_remote_has_reliable_storage st \<longrightarrow> bundle_flags (complete_bundle d) AND FLAG_RELIABLE_STORAGE = 0"
    using fl by (auto simp: word_neq_0_conv [symmetric])
  moreover have "\<forall>h. remote_offline_hash st = Some h \<longrightarrow> offline_hash (complete_bundle d) = h"
    using h by (simp add: offline_eq_raw_def)
  ultimately show ?thesis using auth by (auto simp: slice_range_def)
qed

theorem responder_authentic_witness:
  "\<exists>st msg d s6 sig. process_confirm sample_crypto st msg 15 sample_malloc = Some (Inr d) \<and>
     pk_verify sample_crypto (online_key (complete_bundle d)) [7] (channel_binding s6) sig"
proof -
  obtain st msg d where run: "process_confirm sample_crypto st msg 15 sample_malloc = Some (Inr d)"
    using sample_run by blast
  show ?thesis using responder_authentic [OF run] run by blast
qed


text \<open>A resumption of the sample parties, and the message that asks for it.\<close>

definition sample_resumption :: "unit resumption" where
  "sample_resumption =
     \<lparr> resumption_token = replicate RESUMPTION_TOKEN_LEN 6, resumption_secret = replicate 64 7, resumption_bundle = sample_bundle \<rparr>"

lemma sample_resumption_completes:
  "\<exists>msg d. process_initialize sample_crypto [1] msg sample_secret (Some sample_resumption) 15 sample_malloc [4] = Some (Inr (Complete d))"
proof -
  define pre where "pre = replicate ENCAPSULATION_KEY_LEN (5 :: u8) @ resumption_token sample_resumption"
  have pre: "length pre = RESUMPTION_TOKEN_END" "slice_range (pre @ rest) EPHEMERAL_ENC_KEY_RANGE = Some (replicate ENCAPSULATION_KEY_LEN 5)"
    "slice_range (pre @ rest) RESUMPTION_TOKEN_RANGE = Some (resumption_token sample_resumption)"
    "slice (pre @ rest) 0 RESUMPTION_TOKEN_END = Some pre" for rest
    by (simp_all add: pre_def sample_resumption_def init_layout slice_range_def slice_def)
  define s9 where "s9 = mix sample_crypto (symmetric_new sample_crypto [1]) 9 pre"
  have "bundle_verify sample_crypto (resumption_bundle sample_resumption) ctx d (bundle_sign sample_crypto sample_secret ctx d) 15 = Inr ()"
    for ctx d
    using good_bundle_verify [OF sample_good] by (simp add: sample_resumption_def sample_secret_def)
  from decode_resumption_layout [OF sample_crypto_ok pre(1) this, of s9]
  obtain rest s o' b' received where dec: "decode_resumption sample_crypto s9 (pre @ rest) sample_secret sample_resumption 15 =
      Some (Inr (HANDSHAKE_TYPE_RESUME, s, o', Some (b', received)))" by blast
  then have "decode_initialize sample_crypto [1] (pre @ rest) sample_secret (Some sample_resumption) 15 =
      Some (Inr (HANDSHAKE_TYPE_RESUME, s, o', Some (b', received)))"
    using pre by (simp add: decode_initialize_def s9_def)
  moreover have ct: "length (replicate CIPHERTEXT_LEN (1 :: u8)) = CIPHERTEXT_LEN" by simp
  have "\<not> length (pre @ rest) < EPHEMERAL_ENC_KEY_END" using pre(1) by (simp add: init_layout)
  ultimately show ?thesis
    using pre(2) sample_kem(1)
      reply_encode_layout [OF sample_crypto_ok(1) sample_malloc_ok ct, of HANDSHAKE_TYPE_RESUME s "replicate SHARED_SECRET_KEY_LEN 1" sample_secret "[4]"]
    by (intro exI [of _ "pre @ rest"]) (simp add: process_initialize_def)
qed


section \<open>Panics\<close>

text \<open>
  C38. An initiator that has a resumption cannot start a handshake: \<open>initialize\<close> panics in every such
  call whose allocation succeeds, because the range for the signature ends \<open>TAG_LEN\<close> bytes too early
  (it uses \<open>ONLINE_SIGN_TAG_REV_END\<close> where the decoders use \<open>ONLINE_SIGN_TAG_REV_START\<close>) and the
  signature does not fit.
\<close>

theorem initialize_resumption_panics:
  assumes "crypto_lengths c" and "malloc (INIT_PAYLOAD_START + length payload + PAYLOAD_REV_START) = Some m"
  shows "initialize c generated aad b (Some r) payload malloc = None"
proof -
  have *: "on_range msg (n - ONLINE_SIGN_REV_END, n - ONLINE_SIGN_TAG_REV_END) (sign c s 12 b) = None"
    for s n and msg :: bytes
  proof -
    have "sign c s 12 b d = None" if "length d \<le> SIGN_LEN" for d
      using that assms(1)
      by (auto simp: sign_def Let_def put_range_def copy_range_def bundle_sign_def crypto_lengths_def crypto_lens)
    then show ?thesis
      by (auto simp: on_range_def slice_range_def slice_def tail_layout split: option.splits)
  qed
  show ?thesis
    unfolding initialize_def Let_def by (auto simp: assms(2) * checked_sub_def split: bind_splits prod.splits)
qed

theorem initialize_resumption_panics_witness:
  "initialize sample_crypto (replicate ENCAPSULATION_KEY_LEN 5, ()) [1] sample_secret (Some sample_resumption) [2, 3] sample_malloc = None"
  using initialize_resumption_panics [OF sample_crypto_ok(1)] by (simp add: sample_malloc_def)

text \<open>
  A peer can make \<open>process_confirm\<close> panic, and needs no certified key for it: a confirm message
  without payload whose tag is right reaches \<open>authenticate\<close> with an empty slice.  The symmetric state
  at this point only depends on the ephemeral key exchange.
\<close>

theorem empty_confirm_panics:
  assumes "crypto_lengths c" and "cipher_correct c" and "length g = ONLINE_SIGN_REV_END"
  shows "process_confirm c st (sealed c (reply_symmetric st) 6 [] @ g) now malloc = None"
proof -
  let ?msg = "sealed c (reply_symmetric st) 6 [] @ g"
  have L: "length ?msg = PAYLOAD_REV_START" by (simp add: length_sealed [OF assms(1)] assms(3) tail_layout)
  obtain tag where x: "on_range ?msg (0, PAYLOAD_REV_START - PAYLOAD_TAG_REV_START) (decrypt_and_mix c (reply_symmetric st) 6) =
      Some ((payload_state c (reply_symmetric st) 6 [], Inr ()), tag @ g)"
    using open_payload [OF assms(1,2) _ assms(3), of "[]" 0 ?msg "reply_symmetric st" 6 "[]"] L by auto
  have a: "authenticate c [] now malloc = None" by (simp add: authenticate_def get_idx_def)
  have cs: "checked_sub PAYLOAD_REV_START PAYLOAD_REV_START = Some 0"
    "checked_sub PAYLOAD_REV_START PAYLOAD_TAG_REV_START = Some (PAYLOAD_REV_START - PAYLOAD_TAG_REV_START)"
    "checked_sub PAYLOAD_REV_START ONLINE_SIGN_REV_END = Some (PAYLOAD_REV_START - ONLINE_SIGN_REV_END)"
    "checked_sub PAYLOAD_REV_START ONLINE_SIGN_TAG_REV_START = Some PAYLOAD_REV_START"
    by (simp_all add: checked_sub_def tail_layout)
  have sl: "slice (tag @ g) 0 0 = Some []" by (simp add: slice_def)
  show ?thesis
    unfolding process_confirm_def L CONFIRM_PAYLOAD_START_def cs bind.simps x prod.case sum.case sl a by simp
qed

theorem empty_confirm_panics_witness:
  "process_confirm sample_crypto \<lparr> reply_symmetric = symmetric_new sample_crypto [1], remote_offline_hash = None,
       reject_if_remote_has_reliable_storage = False \<rparr>
     (sealed sample_crypto (symmetric_new sample_crypto [1]) 6 [] @ replicate ONLINE_SIGN_REV_END 0) 15 sample_malloc = None"
  using empty_confirm_panics [OF sample_crypto_ok, of "replicate ONLINE_SIGN_REV_END 0"
      "\<lparr> reply_symmetric = symmetric_new sample_crypto [1], remote_offline_hash = None, reject_if_remote_has_reliable_storage = False \<rparr>"]
  by simp

end
