(* ===== verification/Mem_Types.thy ===== *)
theory Mem_Types
  imports Session_State
begin

text \<open>
  The memory types behind the trait \<open>Mem\<close> of \<open>transport/src/crypto/mem.rs\<close>: \<open>Vec<u8>\<close> and \<open>Box<[u8]>\<close>, and
  \<open>PrefixMem\<close> and \<open>DocMem\<close> of \<open>session/src/crypto/mem.rs\<close>.  A memory dereferences to a slice; writing through it is
  modelled by the new content of the whole slice.  \<open>DocMem\<close> is a raw pointer, so its bytes are in a heap.
\<close>

section \<open>Memory types\<close>

text \<open>\<open>Mem::malloc\<close> of \<open>Vec<u8>\<close> and \<open>Box<[u8]>\<close> gives zeroed memory.\<close>

definition mem_malloc :: "nat \<Rightarrow> bytes option" where
  "mem_malloc len = Some (replicate len 0)"

record prefix_mem =
  pm_mem :: bytes
  pm_start :: nat

definition prefix_malloc :: "bytes \<Rightarrow> nat \<Rightarrow> prefix_mem option" where
  "prefix_malloc m len = (let start = length m; m = m @ replicate len 0 in Some \<lparr> pm_mem = m, pm_start = start \<rparr>)"

definition prefix_deref :: "prefix_mem \<Rightarrow> bytes option" where
  "prefix_deref p = slice (pm_mem p) (pm_start p) (length (pm_mem p))"

definition prefix_deref_mut :: "bytes \<Rightarrow> prefix_mem \<Rightarrow> prefix_mem option" where
  "prefix_deref_mut b p = map_option (\<lambda>m. p\<lparr> pm_mem := m \<rparr>) (copy_range (pm_mem p) (pm_start p) (length (pm_mem p)) b)"

record doc_mem_ptr =
  dm_mem :: address
  dm_len :: nat

definition doc_malloc :: "(nat \<Rightarrow> address option) \<Rightarrow> nat \<Rightarrow> doc_mem_ptr option" where
  "doc_malloc alloc len = map_option (\<lambda>a. \<lparr> dm_mem = a, dm_len = len \<rparr>) (alloc len)"

definition doc_deref :: "(address \<Rightarrow> u8) \<Rightarrow> doc_mem_ptr \<Rightarrow> bytes" where
  "doc_deref h d = map h [dm_mem d..<dm_mem d + dm_len d]"

definition doc_deref_mut :: "bytes \<Rightarrow> (address \<Rightarrow> u8) \<Rightarrow> doc_mem_ptr \<Rightarrow> address \<Rightarrow> u8" where
  "doc_deref_mut b h d = (\<lambda>a. if dm_mem d \<le> a \<and> a < dm_mem d + dm_len d then b ! (a - dm_mem d) else h a)"

section \<open>The contract of a memory\<close>

text \<open>
  Storing a segment, as \<open>copy_from_slice\<close> on a range of the dereferenced memory does, and storing the pieces of
  a message one behind the other, for any memory type.
\<close>

definition store :: "('h \<Rightarrow> 'm \<Rightarrow> bytes option) \<Rightarrow> (bytes \<Rightarrow> 'h \<Rightarrow> 'm \<Rightarrow> ('h \<times> 'm) option) \<Rightarrow> nat \<Rightarrow> bytes \<Rightarrow> 'h \<Rightarrow> 'm \<Rightarrow> ('h \<times> 'm) option" where
  "store deref deref_mut off data h m =
     do {
       b \<leftarrow> deref h m;
       b \<leftarrow> copy_range b off (off + length data) data;
       deref_mut b h m
     }"

primrec store_all :: "('h \<Rightarrow> 'm \<Rightarrow> bytes option) \<Rightarrow> (bytes \<Rightarrow> 'h \<Rightarrow> 'm \<Rightarrow> ('h \<times> 'm) option) \<Rightarrow> nat \<Rightarrow> bytes list \<Rightarrow> 'h \<Rightarrow> 'm \<Rightarrow> ('h \<times> 'm) option" where
  "store_all deref deref_mut off [] h m = Some (h, m)"
| "store_all deref deref_mut off (data # rest) h m =
     do { (h, m) \<leftarrow> store deref deref_mut off data h m; store_all deref deref_mut (off + length data) rest h m }"

text \<open>
  What the users of the trait rely on: a memory has the length it was asked for, keeps that length, and
  holds what was last written to it; the part of the state that is not its own (\<open>outside\<close>) is not changed
  by writing.
\<close>

locale byte_mem =
  fixes malloc :: "'h \<Rightarrow> nat \<Rightarrow> ('h \<times> 'm) option" and deref :: "'h \<Rightarrow> 'm \<Rightarrow> bytes option"
    and deref_mut :: "bytes \<Rightarrow> 'h \<Rightarrow> 'm \<Rightarrow> ('h \<times> 'm) option" and outside :: "'h \<Rightarrow> 'm \<Rightarrow> 'o"
  assumes malloc_length: "malloc h len = Some (h', m) \<Longrightarrow> \<exists>b. deref h' m = Some b \<and> length b = len"
    and write_read: "deref h m = Some b \<Longrightarrow> length b' = length b \<Longrightarrow>
      \<exists>h' m'. deref_mut b' h m = Some (h', m') \<and> deref h' m' = Some b' \<and> outside h' m' = outside h m"
begin

lemma store_ok:
  assumes "deref h m = Some b" and "off + length data \<le> length b"
  shows "\<exists>h' m'. store deref deref_mut off data h m = Some (h', m') \<and> outside h' m' = outside h m \<and>
    deref h' m' = Some (take off b @ data @ drop (off + length data) b)"
  using write_read [OF assms(1), of "take off b @ data @ drop (off + length data) b"] assms
  by (auto simp: store_def copy_range_def)

lemma store_all_ok:
  assumes "deref h m = Some b" and "off + length (concat pieces) \<le> length b"
  shows "\<exists>h' m'. store_all deref deref_mut off pieces h m = Some (h', m') \<and> outside h' m' = outside h m \<and>
    deref h' m' = Some (take off b @ concat pieces @ drop (off + length (concat pieces)) b)"
  using assms
proof (induction pieces arbitrary: off h m b)
  case (Cons data rest)
  let ?b = "take off b @ data @ drop (off + length data) b"
  obtain h1 m1 where s: "store deref deref_mut off data h m = Some (h1, m1)" "outside h1 m1 = outside h m" "deref h1 m1 = Some ?b"
    using store_ok [OF Cons.prems(1), of off data] Cons.prems(2) by auto
  have l: "off + length data + length (concat rest) \<le> length ?b" using Cons.prems(2) by simp
  have o: "min (length b) off = off" "min off (length b) = off" using Cons.prems(2) by simp_all
  from Cons.IH [OF s(3) l] obtain h2 m2 where "store_all deref deref_mut (off + length data) rest h1 m1 = Some (h2, m2)"
    "outside h2 m2 = outside h1 m1"
    "deref h2 m2 = Some (take (off + length data) ?b @ concat rest @ drop (off + length data + length (concat rest)) ?b)"
    by blast
  then show ?case using s(1,2) by (simp add: o ac_simps)
qed simp

lemma malloc_store_all:
  assumes "malloc h (length (concat pieces)) = Some (h1, m)"
  shows "\<exists>h' m'. store_all deref deref_mut 0 pieces h1 m = Some (h', m') \<and> deref h' m' = Some (concat pieces) \<and>
    outside h' m' = outside h1 m"
  using malloc_length [OF assms] store_all_ok [of h1 m _ 0 pieces] by auto

end

interpretation vec: byte_mem "\<lambda>h len. map_option (Pair h) (mem_malloc len)" "\<lambda>_ m. Some m"
  "\<lambda>b h m. map_option (Pair h) (copy_range m 0 (length m) b)" "\<lambda>h _. h"
  by unfold_locales (auto simp: mem_malloc_def copy_range_def)

interpretation prefixed: byte_mem "\<lambda>v len. map_option (Pair v) (prefix_malloc v len)" "\<lambda>_. prefix_deref"
  "\<lambda>b v p. map_option (Pair v) (prefix_deref_mut b p)" "\<lambda>v p. (v, take (pm_start p) (pm_mem p))"
proof unfold_locales
  fix v v' :: bytes and len p
  assume "map_option (Pair v) (prefix_malloc v len) = Some (v', p)"
  then show "\<exists>b. prefix_deref p = Some b \<and> length b = len" by (auto simp: prefix_malloc_def prefix_deref_def slice_def)
next
  fix v b' b :: bytes and p
  assume "prefix_deref p = Some b" "length b' = length b"
  then show "\<exists>v' p'. map_option (Pair v) (prefix_deref_mut b' p) = Some (v', p') \<and> prefix_deref p' = Some b' \<and>
      (v', take (pm_start p') (pm_mem p')) = (v, take (pm_start p) (pm_mem p))"
    by (auto simp: prefix_deref_def prefix_deref_mut_def slice_def copy_range_def split: if_splits)
qed

text \<open>The memory of a document; the bytes at other addresses are outside.\<close>

definition elsewhere :: "(address \<Rightarrow> u8) \<Rightarrow> doc_mem_ptr \<Rightarrow> address \<Rightarrow> u8 option" where
  "elsewhere h d = (\<lambda>a. if dm_mem d \<le> a \<and> a < dm_mem d + dm_len d then None else Some (h a))"

lemma doc_deref_mut_read:
  assumes "length b = dm_len d"
  shows "doc_deref (doc_deref_mut b h d) d = b" and "elsewhere (doc_deref_mut b h d) d = elsewhere h d"
  using assms by (auto simp: doc_deref_def doc_deref_mut_def elsewhere_def intro!: nth_equalityI)

interpretation docm: byte_mem "\<lambda>h len. map_option (Pair h) (doc_malloc alloc len)" "\<lambda>h d. Some (doc_deref h d)"
  "\<lambda>b h d. Some (doc_deref_mut b h d, d)" "\<lambda>h d. (d, elsewhere h d)" for alloc
  by unfold_locales (auto simp: doc_malloc_def doc_deref_mut_read, simp_all add: doc_deref_def doc_deref_mut_read [unfolded doc_deref_def])

section \<open>Properties\<close>

text \<open>
  C39. The memory types keep their contract.  A message put together in any number of pieces in a memory of
  its length is what the memory dereferences to.  With \<open>PrefixMem\<close>, which leaves room in front of a message,
  the bytes in front stay as they are; with \<open>DocMem\<close>, a raw pointer, no byte outside its range changes.
\<close>

theorem memories_hold_messages:
  "(prefix_malloc v (length (concat pieces)) = Some p \<longrightarrow>
      (\<exists>p'. store_all (\<lambda>_. prefix_deref) (\<lambda>b u p. map_option (Pair u) (prefix_deref_mut b p)) 0 pieces v p = Some (v, p') \<and>
        prefix_deref p' = Some (concat pieces) \<and> pm_mem p' = v @ concat pieces)) \<and>
   (doc_malloc alloc (length (concat pieces)) = Some d \<longrightarrow>
      (\<exists>h'. store_all (\<lambda>h d. Some (doc_deref h d)) (\<lambda>b h d. Some (doc_deref_mut b h d, d)) 0 pieces h d = Some (h', d) \<and>
        doc_deref h' d = concat pieces \<and>
        (\<forall>a. a < dm_mem d \<or> dm_mem d + length (concat pieces) \<le> a \<longrightarrow> h' a = h a)))"
proof (intro conjI impI)
  assume p: "prefix_malloc v (length (concat pieces)) = Some p"
  from prefixed.malloc_store_all [of v pieces v p] p obtain v' p' where
    s: "store_all (\<lambda>_. prefix_deref) (\<lambda>b u p. map_option (Pair u) (prefix_deref_mut b p)) 0 pieces v p = Some (v', p')"
    "prefix_deref p' = Some (concat pieces)" "v' = v" "take (pm_start p') (pm_mem p') = take (pm_start p) (pm_mem p)" by auto
  have "take (pm_start p) (pm_mem p) = v" using p by (auto simp: prefix_malloc_def)
  moreover have "drop (pm_start p') (pm_mem p') = concat pieces" using s(2) by (auto simp: prefix_deref_def slice_def split: if_splits)
  ultimately have "pm_mem p' = v @ concat pieces" using s(4) append_take_drop_id [of "pm_start p'" "pm_mem p'"] by simp
  then show "\<exists>p'. store_all (\<lambda>_. prefix_deref) (\<lambda>b u p. map_option (Pair u) (prefix_deref_mut b p)) 0 pieces v p = Some (v, p') \<and>
      prefix_deref p' = Some (concat pieces) \<and> pm_mem p' = v @ concat pieces" using s(1-3) by blast
next
  assume d: "doc_malloc alloc (length (concat pieces)) = Some d"
  from docm.malloc_store_all [of h alloc pieces h d] d obtain h' d' where
    s: "store_all (\<lambda>h d. Some (doc_deref h d)) (\<lambda>b h d. Some (doc_deref_mut b h d, d)) 0 pieces h d = Some (h', d')"
    "doc_deref h' d' = concat pieces" "d' = d" "elsewhere h' d = elsewhere h d" by auto
  have "dm_len d = length (concat pieces)" using d by (auto simp: doc_malloc_def)
  then have "h' a = h a" if "a < dm_mem d \<or> dm_mem d + length (concat pieces) \<le> a" for a
    using fun_cong [OF s(4), of a] that by (auto simp: elsewhere_def split: if_splits)
  then show "\<exists>h'. store_all (\<lambda>h d. Some (doc_deref h d)) (\<lambda>b h d. Some (doc_deref_mut b h d, d)) 0 pieces h d = Some (h', d) \<and>
      doc_deref h' d = concat pieces \<and> (\<forall>a. a < dm_mem d \<or> dm_mem d + length (concat pieces) \<le> a \<longrightarrow> h' a = h a)"
    using s by blast
qed

theorem memories_hold_messages_witness:
  "\<exists>p p'. prefix_malloc [9] 3 = Some p \<and>
     store_all (\<lambda>_. prefix_deref) (\<lambda>b u p. map_option (Pair u) (prefix_deref_mut b p)) 0 [[1], [2, 3]] [9 :: u8] p = Some ([9], p') \<and>
     pm_mem p' = [9, 1, 2, 3]"
proof -
  obtain p where "prefix_malloc [9] (length (concat [[1 :: u8], [2, 3]])) = Some p" by (simp add: prefix_malloc_def)
  with memories_hold_messages [of "[9]" "[[1], [2, 3]]" p "\<lambda>_. None" "\<lparr> dm_mem = 0, dm_len = 0 \<rparr>" "\<lambda>_. 0"] show ?thesis by (auto simp: numeral_3_eq_3)
qed

end
