(* ===== verification/Context.thy ===== *)
theory Context
  imports Session_Recv Desegmenter Initiator Responder Mem_Types
begin

text \<open>
  The context, \<open>session/src/context.rs\<close>: every packet of the process arrives here.  It belongs to a
  handshake in progress, which is found by its number, or to a socket of a session.

  Two tables hold the state.  A socket id is reserved, without a socket, as soon as it is announced in
  a handshake message.  The environment has what the context takes from outside: the cryptography, the
  clock, random numbers, and the serialisation of the payload.
\<close>

type_synonym u128 = "128 word"
type_synonym socket_id = u64

section \<open>Constants\<close>

definition SOCKET_ID_INIT_MESSAGE :: socket_id where "SOCKET_ID_INIT_MESSAGE = 0"
definition SOCKET_ID_CONFIRM_MESSAGE :: socket_id where "SOCKET_ID_CONFIRM_MESSAGE = 2"
definition SOCKET_ID_RESERVED_MAX :: socket_id where "SOCKET_ID_RESERVED_MAX = ucast VARINT_U8_MAX"
definition HANDSHAKE_NO_LEN :: nat where "HANDSHAKE_NO_LEN = 128 div 8"
definition HANDSHAKE_NO_SOCKET_ID_INC :: u128 where "HANDSHAKE_NO_SOCKET_ID_INC = push_bit (128 - 8) 1"
definition CUR_MAJOR_VERSION :: u32 where "CUR_MAJOR_VERSION = 0"
definition CUR_MINOR_VERSION :: u32 where "CUR_MINOR_VERSION = 1"

record handshake_payload =
  major_version :: u32
  minor_version :: u32
  payload_socket_id :: socket_id

section \<open>State\<close>

text \<open>A socket refers to its session by a weak reference, here an identity that may be gone.\<close>

record net_socket =
  socket_session :: nat
  socket_decrypt :: "u32 \<Rightarrow> bytes \<Rightarrow> bool \<times> bytes"

datatype ('sk, 'pk, 'dk) handshake_entry =
    CoolDown
  | ResponderRecv desegmenter
  | InitiatorSent socket_id "desegmenter option" bytes "('sk, 'pk, 'dk) init_state"
  | ResponderSent socket_id "desegmenter option" bytes reply_state

record ('sk, 'pk, 'dk) net_context =
  socket_table :: "socket_id \<rightharpoonup> net_socket option"
  handshake_table :: "u128 \<rightharpoonup> ('sk, 'pk, 'dk) handshake_entry"
  context_bundle :: "('sk, 'pk) secret_bundle"
  sessions :: "nat \<rightharpoonup> session"

record ('x, 'sk, 'pk, 'dk) env =
  env_crypto :: "('x, 'sk, 'pk, 'dk) crypto"
  env_secs :: u64
  env_to_vec :: "handshake_payload \<Rightarrow> bytes"
  env_draws :: "(socket_id \<Rightarrow> socket_id \<Rightarrow> socket_id) list"
  env_generated :: "bytes \<times> 'dk"

text \<open>
  How a call ends: it returns a channel or none, reaches a \<open>todo!()\<close>, violates a \<open>debug_assert!\<close>, or
  panics in another way.  The state at that moment is part of the result in every case.
\<close>

datatype outcome = Returned "u64 option" | Todo | Assert_Failed | Panicked

section \<open>Reserving a socket id\<close>

text \<open>
  The loop of \<open>create_payload\<close>, with its counter.  Each element of the list is one call of
  \<open>random_range\<close>: a function of the bounds, lower inclusive and upper exclusive, of which the first two calls
  ask for a short id.  The loop draws until it finds an unused one; the result is \<open>None\<close> when the given
  draws are used up.
\<close>

fun create_payload ::
  "(handshake_payload \<Rightarrow> bytes) \<Rightarrow> nat \<Rightarrow> (socket_id \<Rightarrow> socket_id \<Rightarrow> socket_id) list \<Rightarrow> ('sk, 'pk, 'dk) net_context \<Rightarrow>
   (('sk, 'pk, 'dk) net_context \<times> bytes \<times> socket_id) option" where
  "create_payload to_vec i [] ctx = None"
| "create_payload to_vec i (random_range # draws) ctx =
     (let i = i + 1;
          new_socket_id = (if i \<le> 2 then random_range (SOCKET_ID_RESERVED_MAX + 1) (ucast VARINT_U16_MAX)
            else random_range (SOCKET_ID_RESERVED_MAX + 1) (ucast VARINT_U32_MAX)) in
      if socket_table ctx new_socket_id \<noteq> None then create_payload to_vec i draws ctx
      else Some (ctx\<lparr> socket_table := (socket_table ctx)(new_socket_id \<mapsto> None) \<rparr>,
        to_vec \<lparr> major_version = CUR_MAJOR_VERSION, minor_version = CUR_MINOR_VERSION, payload_socket_id = new_socket_id \<rparr>,
        new_socket_id))"

text \<open>Removing a reserved id; the code asserts that it was in the table, without a socket.\<close>

definition remove_reserved :: "socket_id \<Rightarrow> ('sk, 'pk, 'dk) net_context \<Rightarrow> ('sk, 'pk, 'dk) net_context \<times> bool" where
  "remove_reserved socket_id ctx =
     (ctx\<lparr> socket_table := (socket_table ctx)(socket_id := None) \<rparr>, socket_table ctx socket_id = Some None)"

section \<open>Opening a session\<close>

definition add_u128 :: "u128 \<Rightarrow> u128 \<Rightarrow> u128 option" where
  "add_u128 a b = (if unat a + unat b < 2 ^ 128 then Some (a + b) else None)"

text \<open>The argument \<open>random\<close> is the random handshake number; the rest of \<open>open\<close> is \<open>todo!()\<close>.\<close>

definition open_session ::
  "('x, 'sk, 'pk, 'dk) env \<Rightarrow> u128 \<Rightarrow> ('sk, 'pk, 'dk) net_context \<Rightarrow> (('sk, 'pk, 'dk) net_context \<times> outcome) option" where
  "open_session env random ctx =
     (let handshake_no = drop_bit 8 random in
      do {
        reply_no \<leftarrow> add_u128 handshake_no HANDSHAKE_NO_SOCKET_ID_INC;
        (ctx, payload, reserved_socket_id) \<leftarrow> create_payload (env_to_vec env) 0 (env_draws env) ctx;
        case initialize (env_crypto env) (env_generated env) (to_be_bytes handshake_no) (context_bundle ctx) None payload mem_malloc of
          Some (Some (cur_message, state)) \<Rightarrow>
            let pre_entry = handshake_table ctx reply_no;
                ctx = ctx\<lparr> handshake_table := (handshake_table ctx)(reply_no \<mapsto> InitiatorSent reserved_socket_id None cur_message state) \<rparr> in
            Some (ctx, if pre_entry = None then Todo else Assert_Failed)
        | _ \<Rightarrow> Some (ctx, Panicked)
      })"

section \<open>Handshake messages\<close>

definition complete_handshake ::
  "socket_id \<Rightarrow> 'pk handshake_complete \<Rightarrow> ('sk, 'pk, 'dk) net_context \<Rightarrow> ('sk, 'pk, 'dk) net_context \<times> u64 option" where
  "complete_handshake new_socket_id complete ctx = (ctx, None)"

text \<open>Whether \<open>process_initialize\<close> gets as far as to call the closure that creates the payload.\<close>

definition payload_requested :: "('x, 'sk, 'pk, 'dk) env \<Rightarrow> bytes \<Rightarrow> bytes \<Rightarrow> ('sk, 'pk) secret_bundle \<Rightarrow> bool" where
  "payload_requested env aad message bundle \<longleftrightarrow>
     EPHEMERAL_ENC_KEY_END \<le> length message \<and>
     (case slice_range message EPHEMERAL_ENC_KEY_RANGE of Some key \<Rightarrow> dk_encapsulate (env_crypto env) key \<noteq> None | None \<Rightarrow> False) \<and>
     (case decode_initialize (env_crypto env) aad message bundle None (env_secs env) of Some (Inr _) \<Rightarrow> True | _ \<Rightarrow> False)"

text \<open>
  The part of \<open>recv_init_message\<close> behind the call: the reserved id, if there is one, and the result of
  \<open>process_initialize\<close>.
\<close>

definition init_processed ::
  "u128 \<Rightarrow> socket_id option \<Rightarrow> (reply_error + 'pk init_ok) option \<Rightarrow> ('sk, 'pk, 'dk) net_context \<Rightarrow>
   ('sk, 'pk, 'dk) net_context \<times> outcome" where
  "init_processed handshake_no reserved result ctx =
     (case result of
        None \<Rightarrow> (ctx, Panicked)
      | Some (Inr (Complete complete)) \<Rightarrow>
          (case reserved of
             None \<Rightarrow> (ctx, Panicked)
           | Some reserved_socket_id \<Rightarrow>
               let (ctx, channel) = complete_handshake reserved_socket_id complete ctx in (ctx, Returned channel))
      | Some (Inr (Incomplete cur_message state)) \<Rightarrow>
          (case (reserved, Option.bind (add_u128 handshake_no HANDSHAKE_NO_SOCKET_ID_INC) (\<lambda>n. add_u128 n HANDSHAKE_NO_SOCKET_ID_INC)) of
             (Some reserved_socket_id, Some confirm_no) \<Rightarrow>
               if handshake_table ctx confirm_no \<noteq> None then
                 let (ctx, ok) = remove_reserved reserved_socket_id ctx in (ctx, if ok then Returned None else Assert_Failed)
               else (ctx\<lparr> handshake_table := (handshake_table ctx)(confirm_no \<mapsto>
                 ResponderSent reserved_socket_id None cur_message state) \<rparr>, Returned None)
           | _ \<Rightarrow> (ctx, Panicked))
      | Some (Inl error) \<Rightarrow>
          (case reserved of
             None \<Rightarrow> (ctx, Todo)
           | Some socket_id \<Rightarrow>
               let (ctx, ok) = remove_reserved socket_id ctx in (ctx, if ok then Todo else Assert_Failed)))"

definition recv_init_message ::
  "('x, 'sk, 'pk, 'dk) env \<Rightarrow> u128 \<Rightarrow> bytes \<Rightarrow> ('sk, 'pk, 'dk) net_context \<Rightarrow> (('sk, 'pk, 'dk) net_context \<times> outcome) option" where
  "recv_init_message env handshake_no message ctx =
     (let aad = to_be_bytes handshake_no;
          process = process_initialize (env_crypto env) aad message (context_bundle ctx) None (env_secs env) mem_malloc in
      if payload_requested env aad message (context_bundle ctx) then do {
        (ctx, payload, socket_id) \<leftarrow> create_payload (env_to_vec env) 0 (env_draws env) ctx;
        Some (init_processed handshake_no (Some socket_id) (process payload) ctx)
      }
      else Some (init_processed handshake_no None (process []) ctx))"

section \<open>Receiving\<close>

text \<open>
  A packet of a handshake in progress: what becomes of the entry, and the whole message if the packet
  completes it.
\<close>

datatype progress = Stop | Crash | Message bytes

definition more_segments :: "bytes \<Rightarrow> nat \<Rightarrow> desegmenter \<Rightarrow> desegmenter \<times> progress" where
  "more_segments packet idx d =
     (case recv_mut d packet idx True True True of
        None \<Rightarrow> (d, Crash)
      | Some (d, _, Inr m) \<Rightarrow> (d, Message m)
      | Some (d, _, Inl _) \<Rightarrow> (d, Stop))"

definition first_segment :: "bytes \<Rightarrow> nat \<Rightarrow> desegmenter option \<times> progress" where
  "first_segment packet idx =
     (case try_new_seg mem_malloc packet idx True True True of
        None \<Rightarrow> (None, Crash)
      | Some (NewSegmented d, _) \<Rightarrow> (Some d, Stop)
      | Some (SingleSeg (a, b), _) \<Rightarrow> (None, case slice packet a b of None \<Rightarrow> Crash | Some m \<Rightarrow> Message m)
      | Some (NewInvalid, _) \<Rightarrow> (None, Stop)
      | Some (MissingLen, _) \<Rightarrow> (None, Crash)
      | Some (AllocFailure, _) \<Rightarrow> (None, Crash))"

fun entry_message ::
  "bytes \<Rightarrow> nat \<Rightarrow> ('sk, 'pk, 'dk) handshake_entry \<Rightarrow> ('sk, 'pk, 'dk) handshake_entry \<times> progress" where
  "entry_message packet idx CoolDown = (CoolDown, Stop)"
| "entry_message packet idx (ResponderRecv d) =
     (let (d, p) = more_segments packet idx d in (ResponderRecv d, p))"
| "entry_message packet idx (InitiatorSent i (Some d) m st) =
     (let (d, p) = more_segments packet idx d in (InitiatorSent i (Some d) m st, p))"
| "entry_message packet idx (ResponderSent i (Some d) m st) =
     (let (d, p) = more_segments packet idx d in (ResponderSent i (Some d) m st, p))"
| "entry_message packet idx (InitiatorSent i None m st) =
     (let (d, p) = first_segment packet idx in (InitiatorSent i d m st, p))"
| "entry_message packet idx (ResponderSent i None m st) =
     (let (d, p) = first_segment packet idx in (ResponderSent i d m st, p))"

text \<open>
  The end of a handshake for one side.  Behind a message that is not authentic the code reaches the
  \<open>todo!()\<close> at the end of \<open>recv\<close>.
\<close>

definition handshake_done ::
  "socket_id \<Rightarrow> (error + 'pk handshake_complete) option \<Rightarrow> ('sk, 'pk, 'dk) net_context \<Rightarrow> ('sk, 'pk, 'dk) net_context \<times> outcome" where
  "handshake_done reserved_socket_id result ctx =
     (case result of
        None \<Rightarrow> (ctx, Panicked)
      | Some (Inr complete) \<Rightarrow>
          let (ctx, channel) = complete_handshake reserved_socket_id complete ctx in (ctx, Returned channel)
      | Some (Inl error) \<Rightarrow>
          let (ctx, ok) = remove_reserved reserved_socket_id ctx in (ctx, if ok then Todo else Assert_Failed))"

definition set_entry :: "u128 \<Rightarrow> ('sk, 'pk, 'dk) handshake_entry \<Rightarrow> ('sk, 'pk, 'dk) net_context \<Rightarrow> ('sk, 'pk, 'dk) net_context" where
  "set_entry handshake_no e ctx = ctx\<lparr> handshake_table := (handshake_table ctx)(handshake_no \<mapsto> e) \<rparr>"

definition recv_occupied ::
  "('x, 'sk, 'pk, 'dk) env \<Rightarrow> bytes \<Rightarrow> nat \<Rightarrow> u128 \<Rightarrow> ('sk, 'pk, 'dk) handshake_entry \<Rightarrow> ('sk, 'pk, 'dk) net_context \<Rightarrow>
   (('sk, 'pk, 'dk) net_context \<times> outcome) option" where
  "recv_occupied env packet idx handshake_no entry ctx =
     (let (entry, progress) = entry_message packet idx entry; ctx = set_entry handshake_no entry ctx in
      case progress of
        Stop \<Rightarrow> Some (ctx, Returned None)
      | Crash \<Rightarrow> Some (ctx, Panicked)
      | Message message \<Rightarrow>
          let ctx = set_entry handshake_no CoolDown ctx in
          (case entry of
             CoolDown \<Rightarrow> Some (ctx, Panicked)
           | ResponderRecv _ \<Rightarrow> recv_init_message env handshake_no message ctx
           | InitiatorSent reserved_socket_id _ _ state \<Rightarrow>
               Some (handshake_done reserved_socket_id
                 (process_reply (env_crypto env) state message (env_secs env) mem_malloc mem_malloc) ctx)
           | ResponderSent reserved_socket_id _ _ state \<Rightarrow>
               Some (handshake_done reserved_socket_id
                 (process_confirm (env_crypto env) state message (env_secs env) mem_malloc) ctx)))"

definition recv_vacant ::
  "('x, 'sk, 'pk, 'dk) env \<Rightarrow> bytes \<Rightarrow> nat \<Rightarrow> u128 \<Rightarrow> socket_id \<Rightarrow> ('sk, 'pk, 'dk) net_context \<Rightarrow>
   (('sk, 'pk, 'dk) net_context \<times> outcome) option" where
  "recv_vacant env packet idx handshake_no socket_id ctx =
     (if socket_id \<noteq> SOCKET_ID_INIT_MESSAGE then Some (ctx, Returned None)
      else case first_segment packet idx of
          (Some d, Stop) \<Rightarrow> Some (set_entry handshake_no (ResponderRecv d) ctx, Returned None)
        | (None, Message message) \<Rightarrow> recv_init_message env handshake_no message (set_entry handshake_no CoolDown ctx)
        | (None, Stop) \<Rightarrow> Some (ctx, Returned None)
        | _ \<Rightarrow> Some (ctx, Panicked))"

text \<open>A packet of a socket.  Whatever happens to it, the code ends in the \<open>todo!()\<close> behind it.\<close>

definition recv_data ::
  "bytes \<Rightarrow> nat \<Rightarrow> socket_id \<Rightarrow> ('sk, 'pk, 'dk) net_context \<Rightarrow> ('sk, 'pk, 'dk) net_context \<times> outcome" where
  "recv_data packet idx socket_id ctx =
     (case socket_table ctx socket_id of
        Some (Some socket) \<Rightarrow>
          (case sessions ctx (socket_session socket) of
             None \<Rightarrow> (ctx, Returned None)
           | Some session \<Rightarrow>
               if idx + 4 > length packet then (ctx, Returned None)
               else
                 let counter = from_be_bytes (take 4 (drop idx packet)); idx = idx + 4;
                     (ok, plain) = socket_decrypt socket counter (drop idx packet) in
                 if \<not> ok then (ctx, Returned None)
                 else (case recv_packet (take idx packet @ plain) idx session of
                     None \<Rightarrow> (ctx, Panicked)
                   | Some (session, _) \<Rightarrow> (ctx\<lparr> sessions := (sessions ctx)(socket_session socket \<mapsto> session) \<rparr>, Todo)))
      | _ \<Rightarrow> (ctx, Returned None))"

definition recv_context ::
  "('x, 'sk, 'pk, 'dk) env \<Rightarrow> bytes \<Rightarrow> ('sk, 'pk, 'dk) net_context \<Rightarrow> (('sk, 'pk, 'dk) net_context \<times> outcome) option" where
  "recv_context env packet ctx =
     (case varu64_try_read packet 0 of
        (None, _) \<Rightarrow> Some (ctx, Returned None)
      | (Some socket_id, idx) \<Rightarrow>
          if socket_id \<le> SOCKET_ID_RESERVED_MAX then
            if length packet < HANDSHAKE_NO_LEN then Some (ctx, Returned None)
            else if socket_id > SOCKET_ID_CONFIRM_MESSAGE then Some (ctx, Returned None)
            else
              let handshake_no = from_be_bytes (take HANDSHAKE_NO_LEN packet); idx = HANDSHAKE_NO_LEN in
              if socket_id \<noteq> ucast (drop_bit (128 - 8) handshake_no) then Some (ctx, Assert_Failed)
              else (case handshake_table ctx handshake_no of
                  Some entry \<Rightarrow> recv_occupied env packet idx handshake_no entry ctx
                | None \<Rightarrow> recv_vacant env packet idx handshake_no socket_id ctx)
          else Some (recv_data packet idx socket_id ctx))"

end
