(* ===== verification/Context_Correct.thy ===== *)
theory Context_Correct
  imports Context Handshake Packet_Correct
begin

text \<open>
  What the context guarantees: the reserved socket ids of the handshakes in progress are in the socket
  table, no two handshakes share one, and a finished handshake is not run again.
\<close>

section \<open>Reserved socket ids\<close>

fun reserved_id :: "('sk, 'pk, 'dk) handshake_entry \<Rightarrow> socket_id option" where
  "reserved_id (InitiatorSent i d m st) = Some i"
| "reserved_id (ResponderSent i d m st) = Some i"
| "reserved_id CoolDown = None"
| "reserved_id (ResponderRecv d) = None"

definition reserved_by :: "('sk, 'pk, 'dk) net_context \<Rightarrow> u128 \<Rightarrow> socket_id option" where
  "reserved_by ctx h = Option.bind (handshake_table ctx h) reserved_id"

definition ctx_inv :: "('sk, 'pk, 'dk) net_context \<Rightarrow> bool" where
  "ctx_inv ctx \<longleftrightarrow> (\<forall>h i. reserved_by ctx h = Some i \<longrightarrow> socket_table ctx i = Some None) \<and>
     (\<forall>h h' i. reserved_by ctx h = Some i \<longrightarrow> reserved_by ctx h' = Some i \<longrightarrow> h = h')"

text \<open>A socket id that is reserved and belongs to no entry yet, or no longer.\<close>

definition pending :: "socket_id \<Rightarrow> ('sk, 'pk, 'dk) net_context \<Rightarrow> bool" where
  "pending i ctx \<longleftrightarrow> socket_table ctx i = Some None \<and> (\<forall>h. reserved_by ctx h \<noteq> Some i)"

lemma reserved_by_set: "reserved_by (set_entry h e ctx) h' = (if h' = h then reserved_id e else reserved_by ctx h')"
  by (simp add: reserved_by_def set_entry_def)

lemma reserved_by_sockets [simp]: "reserved_by (ctx\<lparr> socket_table := t \<rparr>) h = reserved_by ctx h"
  "reserved_by (ctx\<lparr> sessions := ss \<rparr>) h = reserved_by ctx h"
  by (simp_all add: reserved_by_def)

lemma socket_table_set [simp]: "socket_table (set_entry h e ctx) = socket_table ctx"
  by (simp add: set_entry_def)

lemma create_payload_pending:
  assumes "create_payload to_vec n draws ctx = Some (ctx', payload, i)" and "ctx_inv ctx"
  shows "ctx_inv ctx' \<and> pending i ctx' \<and> handshake_table ctx' = handshake_table ctx \<and> context_bundle ctx' = context_bundle ctx"
  using assms(1)
proof (induction draws arbitrary: n)
  case (Cons draw draws)
  define d where "d = (if n + 1 \<le> 2 then draw (SOCKET_ID_RESERVED_MAX + 1) (ucast VARINT_U16_MAX)
    else draw (SOCKET_ID_RESERVED_MAX + 1) (ucast VARINT_U32_MAX))"
  have c: "create_payload to_vec n (draw # draws) ctx =
      (if socket_table ctx d \<noteq> None then create_payload to_vec (n + 1) draws ctx
       else Some (ctx\<lparr> socket_table := (socket_table ctx)(d \<mapsto> None) \<rparr>,
         to_vec \<lparr> major_version = CUR_MAJOR_VERSION, minor_version = CUR_MINOR_VERSION, payload_socket_id = d \<rparr>, d))"
    by (simp only: create_payload.simps Let_def d_def)
  show ?case
  proof (cases "socket_table ctx d = None")
    case True
    then have "ctx' = ctx\<lparr> socket_table := (socket_table ctx)(d \<mapsto> None) \<rparr>" "i = d" using Cons.prems unfolding c by auto
    then show ?thesis using True assms(2) by (auto simp: ctx_inv_def pending_def)
  qed (use Cons c in auto)
qed simp

lemma remove_pending:
  assumes "ctx_inv ctx" and "pending i ctx"
  shows "snd (remove_reserved i ctx)" and "ctx_inv (fst (remove_reserved i ctx))"
    and "handshake_table (fst (remove_reserved i ctx)) = handshake_table ctx"
  using assms by (auto simp: remove_reserved_def ctx_inv_def pending_def)

text \<open>An entry that keeps its id, that gives it up, and that takes a pending one.\<close>

lemma ctx_inv_set:
  assumes "ctx_inv ctx"
  shows "reserved_id e = reserved_by ctx h \<Longrightarrow> ctx_inv (set_entry h e ctx)"
    and "reserved_id e = None \<Longrightarrow> ctx_inv (set_entry h e ctx)"
    and "reserved_id e = None \<Longrightarrow> reserved_by ctx h = Some i \<Longrightarrow> pending i (set_entry h e ctx)"
    and "reserved_id e = Some i \<Longrightarrow> pending i ctx \<Longrightarrow> ctx_inv (set_entry h e ctx)"
  using assms by (auto simp: ctx_inv_def pending_def reserved_by_set)

lemma init_processed_inv:
  assumes "ctx_inv ctx" and "\<And>i. reserved = Some i \<Longrightarrow> pending i ctx" and "init_processed h reserved result ctx = (ctx', out)"
  shows "ctx_inv ctx' \<and> out \<noteq> Assert_Failed"
proof -
  have fold: "ctx\<lparr> handshake_table := (handshake_table ctx)(n \<mapsto> e) \<rparr> = set_entry n e ctx" for n e
    by (simp add: set_entry_def)
  show ?thesis
    using assms remove_pending [of ctx]
    by (auto simp: init_processed_def complete_handshake_def fold Let_def case_prod_beta intro!: ctx_inv_set(4)
        split: option.splits sum.splits init_ok.splits if_splits)
qed

lemma recv_init_message_inv:
  assumes "ctx_inv ctx" and "recv_init_message env h message ctx = Some (ctx', out)"
  shows "ctx_inv ctx' \<and> out \<noteq> Assert_Failed"
proof (cases "payload_requested env (to_be_bytes h) message (context_bundle ctx)")
  case True
  then obtain ctx1 payload i where "create_payload (env_to_vec env) 0 (env_draws env) ctx = Some (ctx1, payload, i)"
    "init_processed h (Some i) (process_initialize (env_crypto env) (to_be_bytes h) message (context_bundle ctx) None (env_secs env) mem_malloc payload) ctx1 =
       (ctx', out)"
    using assms(2) by (auto simp: recv_init_message_def Let_def split: bind_splits)
  then show ?thesis using create_payload_pending [OF _ assms(1)] init_processed_inv by (metis option.inject)
next
  case False
  then show ?thesis
    using assms(2) init_processed_inv [OF assms(1), of None] by (auto simp: recv_init_message_def Let_def)
qed

lemma handshake_done_inv:
  assumes "ctx_inv ctx" and "pending i ctx" and "handshake_done i result ctx = (ctx', out)"
  shows "ctx_inv ctx' \<and> out \<noteq> Assert_Failed"
  using assms remove_pending [OF assms(1,2)]
  by (auto simp: handshake_done_def complete_handshake_def Let_def case_prod_beta split: option.splits sum.splits if_splits)

lemma entry_message_id: "entry_message packet idx e = (e', p) \<Longrightarrow> reserved_id e' = reserved_id e \<and> (e' = CoolDown \<longrightarrow> e = CoolDown \<and> p = Stop)"
  by (cases "(packet, idx, e)" rule: entry_message.cases) (auto split: prod.splits)

lemma recv_occupied_inv:
  assumes "ctx_inv ctx" and "handshake_table ctx h = Some e" and "recv_occupied env packet idx h e ctx = Some (ctx', out)"
  shows "ctx_inv ctx' \<and> out \<noteq> Assert_Failed"
proof -
  obtain e1 p where m: "entry_message packet idx e = (e1, p)" by (meson surj_pair)
  have id: "reserved_id e1 = reserved_by ctx h" using entry_message_id [OF m] assms(2) by (simp add: reserved_by_def)
  let ?ctx1 = "set_entry h e1 ctx" and ?ctx2 = "set_entry h CoolDown (set_entry h e1 ctx)"
  have 1: "ctx_inv ?ctx1" using ctx_inv_set(1) [OF assms(1) id] .
  have 2: "ctx_inv ?ctx2" by (rule ctx_inv_set(2) [OF 1]) simp
  have 3: "pending i ?ctx2" if "reserved_id e1 = Some i" for i
    using ctx_inv_set(3) [OF 1, of CoolDown h i] that by (simp add: reserved_by_set)
  show ?thesis
  proof (cases p)
    case (Message message)
    show ?thesis
    proof (cases e1)
      case (ResponderRecv d)
      then show ?thesis using assms(3) m Message recv_init_message_inv [OF 2] by (simp add: recv_occupied_def Let_def)
    next
      case (InitiatorSent i d msg st)
      then show ?thesis using assms(3) m Message handshake_done_inv [OF 2 3, of i] by (simp add: recv_occupied_def Let_def)
    next
      case (ResponderSent i d msg st)
      then show ?thesis using assms(3) m Message handshake_done_inv [OF 2 3, of i] by (simp add: recv_occupied_def Let_def)
    qed (use assms(3) m Message 2 in \<open>auto simp: recv_occupied_def Let_def\<close>)
  qed (use assms(3) m 1 in \<open>auto simp: recv_occupied_def Let_def\<close>)
qed

lemma recv_vacant_inv:
  assumes "ctx_inv ctx" and "recv_vacant env packet idx h socket_id ctx = Some (ctx', out)"
  shows "ctx_inv ctx' \<and> out \<noteq> Assert_Failed"
  using assms ctx_inv_set(2) [OF assms(1), of CoolDown h] ctx_inv_set(2) [OF assms(1), of "ResponderRecv _" h] recv_init_message_inv
  by (fastforce simp: recv_vacant_def split: if_splits prod.splits option.splits progress.splits)

lemma recv_data_inv:
  assumes "ctx_inv ctx" and "recv_data packet idx i ctx = (ctx', out)"
  shows "ctx_inv ctx' \<and> out \<noteq> Assert_Failed" and "handshake_table ctx' = handshake_table ctx"
  using assms by (auto simp: recv_data_def ctx_inv_def Let_def split: option.splits if_splits prod.splits)

text \<open>The first byte of a packet is the first byte of its handshake number.\<close>

lemma number_head:
  assumes "HANDSHAKE_NO_LEN \<le> length packet"
  shows "ucast (drop_bit (128 - 8) (from_be_bytes (take HANDSHAKE_NO_LEN packet) :: u128)) = (ucast (packet ! 0) :: u64)"
proof -
  obtain b bs where p: "packet = b # bs" using assms by (cases packet) (auto simp: HANDSHAKE_NO_LEN_def)
  obtain cs where t: "take HANDSHAKE_NO_LEN packet = b # cs" "length cs = 15"
    using assms by (auto simp: p HANDSHAKE_NO_LEN_def)
  have u: "unat (from_be_bytes (take HANDSHAKE_NO_LEN packet) :: u128) = unat b * 256 ^ 15 + be_nat cs"
    using be_nat_Cons [of b cs] unfolding t(1) by (subst unat_from_be) (simp_all add: t(2))
  have lt: "be_nat cs < 256 ^ 15" using be_nat_less [of cs] unfolding t(2) .
  have div: "(u * m + r) div m = u" if "r < m" for u m r :: nat using that by simp
  have "unat (from_be_bytes (take HANDSHAKE_NO_LEN packet) :: u128) div 256 ^ 15 = unat b" unfolding u by (rule div [OF lt])
  moreover have "(256 :: nat) ^ 15 = 2 ^ (128 - 8)" by simp
  ultimately have "unat (drop_bit (128 - 8) (from_be_bytes (take HANDSHAKE_NO_LEN packet) :: u128)) = unat b"
    by (simp only: unat_drop_bit)
  moreover have "packet ! 0 = b" by (simp add: p)
  ultimately show ?thesis by (metis ucast_eqI)
qed

lemma unat_ucast_byte: "unat (ucast (b :: u8) :: u64) = unat b"
  by (rule unat_ucast_le, rule less_le_trans [OF u8_less]) simp

lemma one_byte_id: "packet ! 0 < 0x40 \<Longrightarrow> packet \<noteq> [] \<Longrightarrow> varu64_try_read packet 0 = (Some (ucast (packet ! 0)), 1)"
proof -
  assume "packet ! 0 < 0x40" and ne: "packet \<noteq> []"
  then have "unat (packet ! 0) < 2 ^ 6" by (simp add: word_less_nat_alt)
  then have "unat (drop_bit 6 (packet ! 0)) = 0" unfolding unat_drop_bit by simp
  then have "drop_bit 6 (packet ! 0) = 0" by (simp only: unat_eq_0)
  then show ?thesis using ne by (simp add: varu64_try_read_def impl_try_read_def checked_add_def usize_bound_def)
qed

lemma recv_context_inv:
  assumes "ctx_inv ctx" and "recv_context env packet ctx = Some (ctx', out)"
  shows "ctx_inv ctx' \<and> (out = Assert_Failed \<longrightarrow> 0x40 \<le> packet ! 0)"
proof -
  obtain r idx where v: "varu64_try_read packet 0 = (r, idx)" by (meson surj_pair)
  show ?thesis
  proof (cases "\<exists>id. r = Some id \<and> id \<le> SOCKET_ID_RESERVED_MAX \<and> HANDSHAKE_NO_LEN \<le> length packet \<and> id \<le> SOCKET_ID_CONFIRM_MESSAGE")
    case False
    then show ?thesis
      using assms v recv_data_inv(1) [OF assms(1)]
      by (auto simp: recv_context_def not_le not_less split: option.splits if_splits)
  next
    case True
    then obtain id where id: "r = Some id" "id \<le> SOCKET_ID_RESERVED_MAX" "HANDSHAKE_NO_LEN \<le> length packet" "id \<le> SOCKET_ID_CONFIRM_MESSAGE" by blast
    let ?h = "from_be_bytes (take HANDSHAKE_NO_LEN packet) :: u128"
    have e: "recv_context env packet ctx =
        (if id \<noteq> ucast (packet ! 0) then Some (ctx, Assert_Failed)
         else case handshake_table ctx ?h of
             Some entry \<Rightarrow> recv_occupied env packet HANDSHAKE_NO_LEN ?h entry ctx
           | None \<Rightarrow> recv_vacant env packet HANDSHAKE_NO_LEN ?h id ctx)"
      using id(2-4) unfolding number_head [OF id(3), symmetric] recv_context_def v id(1) prod.case option.case Let_def
      by (simp only: if_True not_less [THEN iffD2] if_False)
    have "packet \<noteq> []" using id(3) by (auto simp: HANDSHAKE_NO_LEN_def)
    then have short: "id = ucast (packet ! 0)" if "packet ! 0 < 0x40" using one_byte_id [OF that] v id(1) by simp
    show ?thesis
    proof (cases "id = ucast (packet ! 0)")
      case True
      then have "ctx_inv ctx' \<and> out \<noteq> Assert_Failed"
        using e assms(2) recv_occupied_inv [OF assms(1), of ?h _ env packet HANDSHAKE_NO_LEN ctx' out]
          recv_vacant_inv [OF assms(1), of env packet HANDSHAKE_NO_LEN ?h id ctx' out]
        by (cases "handshake_table ctx ?h") simp_all
      then show ?thesis by simp
    next
      case False
      then show ?thesis using e assms short by (auto simp: not_less [symmetric])
    qed
  qed
qed

lemma open_session_inv:
  assumes "ctx_inv ctx" and "open_session env random ctx = Some (ctx', out)"
  shows "ctx_inv ctx'"
proof -
  obtain ctx1 payload i where c: "create_payload (env_to_vec env) 0 (env_draws env) ctx = Some (ctx1, payload, i)"
    using assms(2) by (auto simp: open_session_def Let_def split: bind_splits)
  note k = create_payload_pending [OF c assms(1)]
  have "ctx' = ctx1 \<or> (\<exists>n m st. ctx' = set_entry n (InitiatorSent i None m st) ctx1)"
    using assms(2) c by (auto simp: open_session_def Let_def set_entry_def split: bind_splits option.splits)
  then show ?thesis using k ctx_inv_set(4) [of ctx1 _ i] by auto
qed

text \<open>The contexts that a process can have: it starts with empty tables, opens sessions and receives packets.\<close>

inductive context_reach :: "('x, 'sk, 'pk, 'dk) crypto \<Rightarrow> ('sk, 'pk, 'dk) net_context \<Rightarrow> bool" for c where
  reach_new: "handshake_table ctx = Map.empty \<Longrightarrow> context_reach c ctx"
| reach_open: "context_reach c ctx \<Longrightarrow> env_crypto env = c \<Longrightarrow> open_session env random ctx = Some (ctx', out) \<Longrightarrow> context_reach c ctx'"
| reach_recv: "context_reach c ctx \<Longrightarrow> env_crypto env = c \<Longrightarrow> recv_context env packet ctx = Some (ctx', out) \<Longrightarrow> context_reach c ctx'"

lemma context_reach_inv: "context_reach c ctx \<Longrightarrow> ctx_inv ctx"
proof (induction rule: context_reach.induct)
  case (reach_new ctx)
  then show ?case by (simp add: ctx_inv_def reserved_by_def)
qed (auto dest: open_session_inv recv_context_inv)

text \<open>
  C26.  The bookkeeping of socket ids.  In every context that a process can reach, the id that a
  handshake in progress has announced is in the socket table, without a socket, and no other
  handshake has the same; so the assertions on the removal of a reserved id never fail.  The one
  assertion of \<open>recv\<close> that can fail is that on the first byte of the packet, and only if that byte does
  not hold the whole socket id.
\<close>

theorem reserved_ids_kept:
  assumes "context_reach (env_crypto env) ctx" and "recv_context env packet ctx = Some (ctx', out)"
  shows "(\<forall>h e i. handshake_table ctx' h = Some e \<longrightarrow> reserved_id e = Some i \<longrightarrow>
       socket_table ctx' i = Some None \<and> (\<forall>h' e'. handshake_table ctx' h' = Some e' \<longrightarrow> reserved_id e' = Some i \<longrightarrow> h' = h)) \<and>
    (out = Assert_Failed \<longrightarrow> 0x40 \<le> packet ! 0)"
proof -
  have "ctx_inv ctx'" "out = Assert_Failed \<longrightarrow> 0x40 \<le> packet ! 0"
    using recv_context_inv [OF context_reach_inv [OF assms(1)] assms(2)] by blast+
  then show ?thesis by (auto simp: ctx_inv_def reserved_by_def bind_eq_Some_conv)
qed

text \<open>An empty context and an environment for the examples.\<close>

definition sample_env :: "(bytes, unit, unit, unit) env" where
  "sample_env = \<lparr> env_crypto = sample_crypto, env_secs = 15, env_to_vec = (\<lambda>p. to_be_bytes (payload_socket_id p)),
     env_draws = [\<lambda>_ _. 100], env_generated = (replicate ENCAPSULATION_KEY_LEN 5, ()) \<rparr>"

definition sample_context :: "(unit, unit, unit) net_context" where
  "sample_context = \<lparr> socket_table = Map.empty, handshake_table = Map.empty, context_bundle = sample_secret, sessions = Map.empty \<rparr>"

text \<open>
   A packet from anyone can make a debug build panic.  Socket ids are read in the varint form, in
  which small numbers also have longer forms.  If a packet writes one of the handshake ids in such a
  form, the assertion fails that compares it with the first byte of the handshake number.
\<close>

theorem overlong_socket_id_panics:
  assumes "varu64_try_read packet 0 = (Some sid, j)" and "sid \<le> SOCKET_ID_CONFIRM_MESSAGE" and "0x40 \<le> packet ! 0"
    and "HANDSHAKE_NO_LEN \<le> length packet"
  shows "recv_context env packet ctx = Some (ctx, Assert_Failed)"
proof -
  have "sid \<noteq> ucast (packet ! 0)"
  proof
    assume "sid = ucast (packet ! 0)"
    then have "unat sid = unat (packet ! 0)" by (simp add: unat_ucast_byte)
    moreover have "64 \<le> unat (packet ! 0)" using assms(3) by (simp add: word_le_nat_alt)
    moreover have "unat sid \<le> 2" using assms(2) by (simp add: word_le_nat_alt SOCKET_ID_CONFIRM_MESSAGE_def)
    ultimately show False by simp
  qed
  moreover have "sid \<le> SOCKET_ID_RESERVED_MAX"
    using assms(2) by (simp add: SOCKET_ID_CONFIRM_MESSAGE_def SOCKET_ID_RESERVED_MAX_def VARINT_U8_MAX_def word_le_nat_alt)
  ultimately show ?thesis
    using assms(1,2,4) unfolding number_head [OF assms(4), symmetric] recv_context_def by (simp add: Let_def not_less [symmetric])
qed

theorem overlong_socket_id_panics_witness:
  "recv_context sample_env (0x40 # replicate 15 0) sample_context = Some (sample_context, Assert_Failed)"
  by (rule overlong_socket_id_panics [of _ 0 2])
    (simp_all add: varu64_try_read_def impl_try_read_def checked_add_def usize_bound_def from_be_bytes_def be_nat_def
      VARINT_U16_MAX_def HANDSHAKE_NO_LEN_def Let_def)

section \<open>A handshake runs once\<close>

definition grows :: "('sk, 'pk, 'dk) net_context \<Rightarrow> ('sk, 'pk, 'dk) net_context \<Rightarrow> bool" where
  "grows ctx ctx' \<longleftrightarrow> dom (handshake_table ctx) \<subseteq> dom (handshake_table ctx') \<and>
     (\<forall>h. handshake_table ctx h = Some CoolDown \<longrightarrow> handshake_table ctx' h = Some CoolDown)"

lemma grows_refl [simp]: "grows ctx ctx"
  by (simp add: grows_def)

lemma grows_trans: "grows a b \<Longrightarrow> grows b c \<Longrightarrow> grows a c"
  unfolding grows_def by (meson subset_trans)

lemma grows_same: "handshake_table ctx' = handshake_table ctx \<Longrightarrow> grows ctx ctx'"
  by (simp add: grows_def)

lemma grows_set: "handshake_table ctx h \<noteq> Some CoolDown \<or> e = CoolDown \<Longrightarrow> grows ctx (set_entry h e ctx)"
  by (auto simp: grows_def set_entry_def)

lemma create_payload_table: "create_payload to_vec n draws ctx = Some (ctx', p, i) \<Longrightarrow> handshake_table ctx' = handshake_table ctx"
  by (induction draws arbitrary: n) (auto simp: Let_def split: if_split_asm)

lemma init_processed_grows: "init_processed h r result ctx = (ctx', out) \<Longrightarrow> grows ctx ctx'"
proof -
  have "ctx\<lparr> handshake_table := (handshake_table ctx)(n \<mapsto> e) \<rparr> = set_entry n e ctx" for n e
    by (simp add: set_entry_def)
  then show "init_processed h r result ctx = (ctx', out) \<Longrightarrow> grows ctx ctx'"
    by (auto simp: init_processed_def complete_handshake_def remove_reserved_def Let_def intro: grows_same grows_set
        split: option.splits sum.splits init_ok.splits if_splits)
qed

lemma recv_init_message_grows:
  assumes "recv_init_message env h m ctx = Some (ctx', out)"
  shows "grows ctx ctx'"
proof -
  obtain ctx1 r res where "handshake_table ctx1 = handshake_table ctx" "init_processed h r res ctx1 = (ctx', out)"
    using assms by (auto simp: recv_init_message_def Let_def dest!: create_payload_table split: if_splits bind_splits)
  then show ?thesis using init_processed_grows grows_same grows_trans by metis
qed

lemma handshake_done_grows: "handshake_done i r ctx = (ctx', out) \<Longrightarrow> grows ctx ctx'"
  by (auto simp: handshake_done_def complete_handshake_def remove_reserved_def Let_def intro!: grows_same
      split: option.splits sum.splits)

lemma recv_occupied_grows:
  assumes "handshake_table ctx h = Some e" and "recv_occupied env packet idx h e ctx = Some (ctx', out)"
  shows "grows ctx ctx'"
proof -
  obtain e1 p where m: "entry_message packet idx e = (e1, p)" by (meson surj_pair)
  let ?ctx1 = "set_entry h e1 ctx" and ?ctx2 = "set_entry h CoolDown (set_entry h e1 ctx)"
  have "e = CoolDown \<Longrightarrow> e1 = CoolDown" using m by auto
  then have 1: "grows ctx ?ctx1" using assms(1) by (auto intro: grows_set)
  have 2: "grows ctx ?ctx2" by (rule grows_trans [OF 1 grows_set]) simp
  have "ctx' = ?ctx1 \<or> grows ?ctx2 ctx'"
    using assms(2) m
    by (auto simp: recv_occupied_def Let_def dest!: recv_init_message_grows handshake_done_grows
        split: progress.splits handshake_entry.splits)
  then show ?thesis using 1 2 grows_trans by blast
qed

lemma recv_vacant_grows:
  assumes "handshake_table ctx h = None" and "recv_vacant env packet idx h i ctx = Some (ctx', out)"
  shows "grows ctx ctx'"
proof -
  have 1: "grows ctx (set_entry h e ctx)" for e using assms(1) by (simp add: grows_set)
  have "ctx' = ctx \<or> (\<exists>e. ctx' = set_entry h e ctx) \<or> grows (set_entry h CoolDown ctx) ctx'"
    using assms(2) by (auto simp: recv_vacant_def dest!: recv_init_message_grows split: if_splits prod.splits option.splits progress.splits)
  then show ?thesis using 1 grows_trans by fastforce
qed

lemma recv_data_table: "recv_data packet idx i ctx = (ctx', out) \<Longrightarrow> handshake_table ctx' = handshake_table ctx"
  by (auto simp: recv_data_def Let_def split: option.splits if_splits prod.splits)

lemma recv_context_grows:
  assumes "recv_context env packet ctx = Some (ctx', out)"
  shows "grows ctx ctx'"
  using assms
  by (auto simp: recv_context_def Let_def dest!: recv_occupied_grows recv_vacant_grows recv_data_table intro: grows_same
      split: prod.splits option.splits if_splits)

fun recv_all :: "('x, 'sk, 'pk, 'dk) env \<Rightarrow> bytes list \<Rightarrow> ('sk, 'pk, 'dk) net_context \<Rightarrow> ('sk, 'pk, 'dk) net_context option" where
  "recv_all env [] ctx = Some ctx"
| "recv_all env (packet # packets) ctx =
     (case recv_context env packet ctx of None \<Rightarrow> None | Some (ctx, _) \<Rightarrow> recv_all env packets ctx)"

lemma recv_all_grows: "recv_all env packets ctx = Some ctx' \<Longrightarrow> grows ctx ctx'"
proof (induction packets arbitrary: ctx)
  case (Cons packet packets)
  then show ?case using recv_context_grows grows_trans by (fastforce split: option.splits)
qed simp


text \<open>A packet with a whole message: the number, the length of the message, the offset 0 and the message.\<close>

definition message_packet :: "u128 \<Rightarrow> bytes \<Rightarrow> bytes" where
  "message_packet h m = to_be_bytes h @ varusize_write [] (word_of_nat (length m)) @ varusize_write [] 0 @ m"

lemma first_segment_whole:
  assumes "length m < 2 ^ 30"
  shows "first_segment (message_packet h m) HANDSHAKE_NO_LEN = (None, Message m)"
proof -
  define L where "L = varusize_write [] (word_of_nat (length m))"
  define Z where "Z = varusize_write [] 0"
  define packet where "packet = message_packet h m"
  have p: "packet = to_be_bytes h @ L @ Z @ m" by (simp add: packet_def message_packet_def L_def Z_def)
  have n: "length (to_be_bytes h) = HANDSHAKE_NO_LEN" by (simp add: HANDSHAKE_NO_LEN_def)
  have len: "length L \<le> 8" "length Z \<le> 8" using varint_len_le(3) by (simp_all add: L_def Z_def vusize.length_written varusize_len_def)
  have fits: "fits_slice packet" using assms len by (simp add: p fits_slice_def)
  have u: "unat (word_of_nat (length m) :: usize) = length m" using assms by (rule unat_word_small)
  have 1: "varusize_try_read packet HANDSHAKE_NO_LEN = (Some (word_of_nat (length m)), HANDSHAKE_NO_LEN + length L)"
    using vusize.read_at [of "word_of_nat (length m)" "to_be_bytes h" "Z @ m" HANDSHAKE_NO_LEN] fits n assms u
    by (simp add: p L_def vusize.length_written)
  have 2: "varusize_try_read packet (HANDSHAKE_NO_LEN + length L) = (Some 0, HANDSHAKE_NO_LEN + length L + length Z)"
    using vusize.read_at [of 0 "to_be_bytes h @ L" m "HANDSHAKE_NO_LEN + length L"] fits n
    by (simp add: p Z_def vusize.length_written)
  let ?i = "HANDSHAKE_NO_LEN + length L + length Z"
  have l: "length packet = ?i + length m" using n by (simp add: p)
  have "read_header packet HANDSHAKE_NO_LEN True True True = Some (Some (0, length m, Some (length m)), ?i)"
    using assms by (simp add: read_header_def read_opt_def 1 2 u l checked_sub_def checked_add_def usize_bound_def Let_def)
  then have "try_new_seg mem_malloc packet HANDSHAKE_NO_LEN True True True = Some (SingleSeg (?i, ?i + length m), ?i + length m)"
    by (simp add: try_new_seg_def)
  moreover have "slice packet ?i (?i + length m) = Some m" using n by (simp add: slice_def l) (simp add: p)
  ultimately show ?thesis unfolding first_segment_def packet_def [symmetric] by simp
qed

section \<open>A handshake between two contexts\<close>

lemma recv_message:
  assumes "unat (n :: u128) div 2 ^ 120 = k" and "k \<le> 2"
  shows "recv_context env (message_packet n m) ctx =
    (case handshake_table ctx n of
       Some e \<Rightarrow> recv_occupied env (message_packet n m) HANDSHAKE_NO_LEN n e ctx
     | None \<Rightarrow> recv_vacant env (message_packet n m) HANDSHAKE_NO_LEN n (word_of_nat k) ctx)"
proof -
  let ?p = "message_packet n m"
  have l: "HANDSHAKE_NO_LEN \<le> length ?p" by (simp add: message_packet_def HANDSHAKE_NO_LEN_def)
  have n: "from_be_bytes (take HANDSHAKE_NO_LEN ?p) = n"
    by (simp add: message_packet_def HANDSHAKE_NO_LEN_def from_be_to_be)
  have d: "unat (drop_bit (128 - 8) n) = k" using assms(1) unfolding unat_drop_bit by simp
  have e: "(ucast (drop_bit (128 - 8) n) :: u64) = word_of_nat k" using d by (metis of_nat_unat)
  have h: "(ucast (?p ! 0) :: u64) = word_of_nat k" using number_head [OF l] unfolding n e by simp
  have w: "unat (word_of_nat k :: u64) = k" using assms(2) by (simp add: unat_of_nat)
  have u: "unat (?p ! 0) = k" using arg_cong [OF h, of unat] unfolding w unat_ucast_byte .
  have b: "?p ! 0 < 0x40" using assms(2) by (simp add: word_less_nat_alt u)
  have ne: "?p \<noteq> []" using l by (auto simp: HANDSHAKE_NO_LEN_def)
  have k: "(word_of_nat k :: u64) \<le> SOCKET_ID_RESERVED_MAX" "\<not> SOCKET_ID_CONFIRM_MESSAGE < (word_of_nat k :: u64)"
    using assms(2) by (simp_all add: word_le_nat_alt word_less_nat_alt w SOCKET_ID_RESERVED_MAX_def SOCKET_ID_CONFIRM_MESSAGE_def VARINT_U8_MAX_def)
  show ?thesis
    unfolding recv_context_def one_byte_id [OF b ne] prod.case option.case h n e Let_def
    using k not_less [THEN iffD2, OF l] by simp
qed

text \<open>A whole message finds its entry, which goes on cooldown.\<close>

lemma recv_occupied_whole:
  assumes "length m < 2 ^ 30"
  shows "recv_occupied env (message_packet n m) HANDSHAKE_NO_LEN n (InitiatorSent i None cur st) ctx =
      Some (handshake_done i (process_reply (env_crypto env) st m (env_secs env) mem_malloc mem_malloc) (set_entry n CoolDown ctx))"
    and "recv_occupied env (message_packet n m) HANDSHAKE_NO_LEN n (ResponderSent i None cur st') ctx =
      Some (handshake_done i (process_confirm (env_crypto env) st' m (env_secs env) mem_malloc) (set_entry n CoolDown ctx))"
  by (simp_all add: recv_occupied_def first_segment_whole [OF assms] Let_def set_entry_def)

text \<open>The three numbers of a handshake.\<close>

lemma handshake_numbers:
  fixes h :: u128
  assumes "unat h < 2 ^ 120"
  obtains reply confirm where "add_u128 h HANDSHAKE_NO_SOCKET_ID_INC = Some reply" "add_u128 reply HANDSHAKE_NO_SOCKET_ID_INC = Some confirm"
    "unat h div 2 ^ 120 = 0" "unat reply div 2 ^ 120 = 1" "unat confirm div 2 ^ 120 = 2"
    "h \<noteq> reply" "h \<noteq> confirm" "reply \<noteq> confirm"
proof -
  let ?I = "HANDSHAKE_NO_SOCKET_ID_INC"
  have i: "unat ?I = 2 ^ 120" by (simp add: HANDSHAKE_NO_SOCKET_ID_INC_def)
  define r where "r = h + ?I"
  define k where "k = r + ?I"
  have r: "unat r = unat h + 2 ^ 120" using assms i by (simp add: r_def unat_plus_if')
  have k: "unat k = unat h + 2 ^ 120 + 2 ^ 120" using assms i r by (simp add: k_def unat_plus_if')
  have q: "(a + b * 2 ^ 120) div 2 ^ 120 = b" if "a < 2 ^ 120" for a b :: nat using that by simp
  show thesis
  proof (rule that)
    show "add_u128 h ?I = Some r" using assms by (simp add: add_u128_def i r_def)
    show "add_u128 r ?I = Some k" using assms r by (simp add: add_u128_def i k_def)
    show "unat h div 2 ^ 120 = 0" using assms by simp
    show "unat r div 2 ^ 120 = 1" using q [OF assms, of 1] by (simp add: r)
    show "unat k div 2 ^ 120 = 2" using q [OF assms, of 2] by (simp add: k)
    show "h \<noteq> r" using r by auto
    show "h \<noteq> k" using k by auto
    show "r \<noteq> k" using r k by auto
  qed
qed

lemma initialize_requests:
  "process_initialize (env_crypto env) aad m b None (env_secs env) malloc payload = Some (Inr x) \<Longrightarrow> payload_requested env aad m b"
  by (auto simp: process_initialize_def payload_requested_def split: if_splits bind_splits option.splits sum.splits)

text \<open>What a context does with the first message of a handshake that it can answer.\<close>

lemma recv_init_answers:
  assumes "unat h < 2 ^ 120" and "length m < 2 ^ 30" and "env_draws env = [\<lambda>_ _. i]" and "socket_table ctx i = None"
    and "handshake_table ctx h = None" and "handshake_table ctx confirm = None"
    and "add_u128 h HANDSHAKE_NO_SOCKET_ID_INC = Some reply" and "add_u128 reply HANDSHAKE_NO_SOCKET_ID_INC = Some confirm" and "h \<noteq> confirm"
    and "\<And>payload. \<exists>m2 st2. process_initialize (env_crypto env) (to_be_bytes h) m (context_bundle ctx) None (env_secs env) mem_malloc payload =
      Some (Inr (Incomplete m2 st2))"
  shows "\<exists>payload m2 st2. process_initialize (env_crypto env) (to_be_bytes h) m (context_bundle ctx) None (env_secs env) mem_malloc payload =
      Some (Inr (Incomplete m2 st2)) \<and>
    recv_context env (message_packet h m) ctx = Some (set_entry confirm (ResponderSent i None m2 st2)
      (set_entry h CoolDown ctx\<lparr> socket_table := (socket_table ctx)(i \<mapsto> None) \<rparr>), Returned None)"
proof -
  let ?ctx1 = "set_entry h CoolDown ctx"
  define payload where "payload = env_to_vec env \<lparr> major_version = CUR_MAJOR_VERSION, minor_version = CUR_MINOR_VERSION, payload_socket_id = i \<rparr>"
  obtain m2 st2 where p: "process_initialize (env_crypto env) (to_be_bytes h) m (context_bundle ctx) None (env_secs env) mem_malloc payload =
      Some (Inr (Incomplete m2 st2))" using assms(10) by blast
  have b: "context_bundle ?ctx1 = context_bundle ctx" "socket_table ?ctx1 = socket_table ctx" by (simp_all add: set_entry_def)
  have c: "create_payload (env_to_vec env) 0 (env_draws env) ?ctx1 =
      Some (?ctx1\<lparr> socket_table := (socket_table ctx)(i \<mapsto> None) \<rparr>, payload, i)"
    using assms(4) by (simp add: assms(3) b payload_def)
  have "recv_init_message env h m ?ctx1 = Some (init_processed h (Some i) (Some (Inr (Incomplete m2 st2)))
      (?ctx1\<lparr> socket_table := (socket_table ctx)(i \<mapsto> None) \<rparr>))"
    using initialize_requests [OF p] p c by (simp add: recv_init_message_def b)
  moreover have "handshake_table (?ctx1\<lparr> socket_table := (socket_table ctx)(i \<mapsto> None) \<rparr>) confirm = None"
    using assms(6,9) by (simp add: set_entry_def)
  ultimately have "recv_init_message env h m ?ctx1 = Some (set_entry confirm (ResponderSent i None m2 st2)
      (?ctx1\<lparr> socket_table := (socket_table ctx)(i \<mapsto> None) \<rparr>), Returned None)"
    using assms(7,8) by (simp add: init_processed_def set_entry_def)
  moreover have "recv_context env (message_packet h m) ctx = recv_vacant env (message_packet h m) HANDSHAKE_NO_LEN h 0 ctx"
    using recv_message [of h 0 env m ctx] assms(1,5) by simp
  ultimately show ?thesis
    using p first_segment_whole [OF assms(2), of h] by (auto simp: recv_vacant_def SOCKET_ID_INIT_MESSAGE_def)
qed

lemma mem_malloc_ok: "malloc_ok mem_malloc"
  by (simp add: malloc_ok_def mem_malloc_def)

lemma handshake_done_complete: "handshake_done i (Some (Inr d)) ctx = (ctx, Returned None)"
  by (simp add: handshake_done_def complete_handshake_def)

lemma recv_completes:
  assumes "unat n div 2 ^ 120 = k" and "k \<le> 2" and "length m < 2 ^ 30"
  shows "handshake_table ctx n = Some (InitiatorSent i None cur st) \<Longrightarrow>
      process_reply (env_crypto env) st m (env_secs env) mem_malloc mem_malloc = Some (Inr d) \<Longrightarrow>
      recv_context env (message_packet n m) ctx = Some (set_entry n CoolDown ctx, Returned None)"
    and "handshake_table ctx n = Some (ResponderSent i None cur st') \<Longrightarrow>
      process_confirm (env_crypto env) st' m (env_secs env) mem_malloc = Some (Inr d) \<Longrightarrow>
      recv_context env (message_packet n m) ctx = Some (set_entry n CoolDown ctx, Returned None)"
  by (simp_all add: recv_message [OF assms(1,2)] recv_occupied_whole [OF assms(3)] handshake_done_complete)

lemma open_session_full:
  assumes "env_draws env = [\<lambda>_ _. i]" and "socket_table ctx i = None" and "handshake_table ctx reply = None"
    and "add_u128 (drop_bit 8 random) HANDSHAKE_NO_SOCKET_ID_INC = Some reply"
    and "\<And>p. \<exists>m st. initialize (env_crypto env) (env_generated env) (to_be_bytes (drop_bit 8 random)) (context_bundle ctx) None p mem_malloc = Some (Some (m, st))"
  shows "\<exists>p m st. initialize (env_crypto env) (env_generated env) (to_be_bytes (drop_bit 8 random)) (context_bundle ctx) None p mem_malloc = Some (Some (m, st)) \<and>
    open_session env random ctx =
      Some (set_entry reply (InitiatorSent i None m st) (ctx\<lparr> socket_table := (socket_table ctx)(i \<mapsto> None) \<rparr>), Todo)"
proof -
  let ?p = "env_to_vec env \<lparr> major_version = CUR_MAJOR_VERSION, minor_version = CUR_MINOR_VERSION, payload_socket_id = i \<rparr>"
  obtain m st where "initialize (env_crypto env) (env_generated env) (to_be_bytes (drop_bit 8 random)) (context_bundle ctx) None ?p mem_malloc = Some (Some (m, st))"
    using assms(5) by blast
  then show ?thesis
    using assms(1-4) by (intro exI [of _ ?p] exI [of _ m] exI [of _ st]) (simp add: open_session_def set_entry_def)
qed


lemma sample_mem: "mem_malloc = sample_malloc"
  by (simp add: fun_eq_iff mem_malloc_def sample_malloc_def)

lemma sample_fields:
  "env_crypto sample_env = sample_crypto" "env_secs sample_env = 15" "env_draws sample_env = [\<lambda>_ _. 100]"
  "env_generated sample_env = (replicate ENCAPSULATION_KEY_LEN 5, ())" "context_bundle sample_context = sample_secret"
  "socket_table sample_context = Map.empty" "handshake_table sample_context = Map.empty"
  by (simp_all add: sample_env_def sample_context_def)

lemma sample_answered:
  "\<exists>confirm m2 st2. 0 \<noteq> confirm \<and> recv_context sample_env (message_packet 0 (replicate ENCAPSULATION_KEY_LEN 5)) sample_context =
     Some (set_entry confirm (ResponderSent 100 None m2 st2)
       (set_entry 0 CoolDown sample_context\<lparr> socket_table := [100 \<mapsto> None] \<rparr>), Returned None)"
proof -
  let ?ek = "replicate ENCAPSULATION_KEY_LEN 5"
  have z: "unat (0 :: u128) < 2 ^ 120" by simp
  from handshake_numbers [OF z] obtain reply confirm where nos: "add_u128 0 HANDSHAKE_NO_SOCKET_ID_INC = Some reply"
    "add_u128 reply HANDSHAKE_NO_SOCKET_ID_INC = Some confirm" "0 \<noteq> confirm" by metis
  have len: "length ?ek < 2 ^ 30" by (simp add: ENCAPSULATION_KEY_LEN_def)
  have "\<exists>m2 st2. process_initialize sample_crypto (to_be_bytes (0 :: u128)) ?ek sample_secret None 15 sample_malloc p = Some (Inr (Incomplete m2 st2))" for p
    using full_handshake_run [OF sample_crypto_ok sample_malloc_ok length_replicate sample_kem sample_good sample_good, of "to_be_bytes (0 :: u128)" "[]" p]
      initialize_full [OF sample_malloc_ok length_replicate, of sample_crypto 5 "()" "to_be_bytes (0 :: u128)" sample_secret "[]"] by auto
  with recv_init_answers [OF z len, of sample_env 100 sample_context confirm reply] nos show ?thesis
    unfolding sample_fields sample_mem by auto
qed

lemma sample_reach: "context_reach (env_crypto sample_env) sample_context"
  by (rule reach_new) (simp add: sample_context_def)

theorem reserved_ids_kept_witness:
  "\<exists>ctx' confirm m2 st2. recv_context sample_env (message_packet 0 (replicate ENCAPSULATION_KEY_LEN 5)) sample_context = Some (ctx', Returned None) \<and>
     handshake_table ctx' confirm = Some (ResponderSent 100 None m2 st2) \<and> socket_table ctx' 100 = Some None"
proof -
  obtain ctx' confirm m2 st2 where a: "recv_context sample_env (message_packet 0 (replicate ENCAPSULATION_KEY_LEN 5)) sample_context = Some (ctx', Returned None)"
    "handshake_table ctx' confirm = Some (ResponderSent 100 None m2 st2)"
    using sample_answered [unfolded set_entry_def] by fastforce
  with reserved_ids_kept [OF sample_reach a(1)] show ?thesis by fastforce
qed



end
