(* ===== verification/End_To_End.thy ===== *)
theory End_To_End
  imports Recv_Tables Packet_Correct
begin

text \<open>
  A document on its way from the send table of one peer to a channel of the other: cut into segments,
  one packet for each, received in any order.  The session as a whole is a third instance of the
  reassembler interface; its step is what \<open>recv_seg\<close> does with a segment once it has parsed it.
\<close>

section \<open>One segment at the session\<close>

text \<open>The part of \<open>recv_seg\<close> behind the parser.\<close>

definition recv_parsed :: "parsed_seg \<Rightarrow> session \<Rightarrow> (session \<times> (recv_error + unit)) option" where
  "recv_parsed p s =
     (if is_sending s (ps_doc_no p) then Some (s, Inl Invalid)
      else do {
        i \<leftarrow> slot_idx (ps_doc_no p) (recv_table s);
        if rs_doc_no (recv_table s ! i) = ps_doc_no p then update_doc p i s
        else if rs_doc_no (recv_table s ! i) < ps_doc_no p then create_doc p i s
        else Some (s, Inr ())
      })"

lemma recv_seg_parsed:
  "parse_seg v packet i = Some (Inr p, j) \<Longrightarrow> recv_seg v packet i s = map_option (\<lambda>(s, r). (s, j, r)) (recv_parsed p s)"
  by (auto simp: recv_seg_def recv_parsed_def Let_def split: option.splits bind_splits)

text \<open>A segment of document \<open>n\<close>, as the sender of an ordinary document that is not acknowledged yet forms it.\<close>

definition doc_seg :: "u64 \<Rightarrow> nat \<Rightarrow> u64 \<Rightarrow> nat \<Rightarrow> bytes \<Rightarrow> parsed_seg" where
  "doc_seg n len q off data = \<lparr> ps_special = False, ps_is_closed = False, ps_doc_no = n, ps_doc_len = Some len,
     ps_parent_no = (if off = 0 then Some q else None), ps_seg_off = off, ps_seg = data \<rparr>"

lemma doc_seg_fields [simp]:
  "ps_special (doc_seg n len q off data) = False" "ps_is_closed (doc_seg n len q off data) = False"
  "ps_doc_no (doc_seg n len q off data) = n" "ps_doc_len (doc_seg n len q off data) = Some len"
  "ps_parent_no (doc_seg n len q off data) = (if off = 0 then Some q else None)"
  "ps_seg_off (doc_seg n len q off data) = off" "ps_seg (doc_seg n len q off data) = data"
  by (simp_all add: doc_seg_def)

text \<open>The slot of the document is free and there is room for it; the channel of its parent is open.\<close>

definition slot_ready :: "u64 \<Rightarrow> nat \<Rightarrow> nat \<Rightarrow> session \<Rightarrow> bool" where
  "slot_ready n len i s \<longleftrightarrow> \<not> is_sending s n \<and> slot_idx n (recv_table s) = Some i \<and> rs_doc_no (recv_table s ! i) < n \<and>
     rs_doc (recv_table s ! i) = FinAck \<and> rs_channel (recv_table s ! i) = None \<and>
     rs_orphans_expected_parent_no (recv_table s ! i) = None \<and>
     recv_bytes_total s + len \<le> recv_bytes_max s \<and> recv_bytes_max s < usize_bound"

definition parent_open :: "u64 \<Rightarrow> nat \<Rightarrow> open_channel \<Rightarrow> session \<Rightarrow> bool" where
  "parent_open q k ch s \<longleftrightarrow> is_sending s q \<and> slot_idx q (send_table s) = Some k \<and>
     ss_doc_no (send_table s ! k) = q \<and> ss_channel (send_table s ! k) = Some ch"

text \<open>The session while document \<open>n\<close> arrives: its slot holds \<open>d\<close>.\<close>

definition begun :: "u64 \<Rightarrow> nat \<Rightarrow> nat \<Rightarrow> session \<Rightarrow> session" where
  "begun n len i s = reserve_slot (doc_seg n len 0 0 []) i (s\<lparr> recv_bytes_total := recv_bytes_total s + len \<rparr>)"

definition arriving :: "u64 \<Rightarrow> nat \<Rightarrow> nat \<Rightarrow> session \<Rightarrow> recv_doc \<Rightarrow> session" where
  "arriving n len i s d = set_recv_slot i ((recv_table (begun n len i s) ! i)\<lparr> rs_doc := Active d \<rparr>) (begun n len i s)"

lemma begun_fields:
  assumes "i < length (recv_table s)"
  shows "recv_table (begun n len i s) ! i = (recv_table s ! i)\<lparr> rs_doc_no := n, rs_needs_send_control := False,
      rs_doc := ActiveReserved, rs_adoptable_orphans := [],
      rs_channel := Some \<lparr> ref_count = 0, ready_wakers = [], ready_docs = rs_adoptable_orphans (recv_table s ! i), reply_buffer = NoReply \<rparr> \<rparr>"
    "send_table (begun n len i s) = send_table s" "length (recv_table (begun n len i s)) = length (recv_table s)"
    "is_sending (begun n len i s) = is_sending s" "woken (begun n len i s) = woken s"
    "recv_bytes_total (begun n len i s) = recv_bytes_total s + len" "send_bytes_max (begun n len i s) = send_bytes_max s"
  using reserve_slot_fields [of i "s\<lparr> recv_bytes_total := recv_bytes_total s + len \<rparr>" "doc_seg n len 0 0 []"] assms
  by (simp_all add: begun_def) (simp add: reserve_slot_def Let_def set_recv_slot_def)

lemma arriving_fields:
  assumes "i < length (recv_table s)"
  shows "recv_table (arriving n len i s d) ! i = (recv_table (begun n len i s) ! i)\<lparr> rs_doc := Active d \<rparr>"
    "length (recv_table (arriving n len i s d)) = length (recv_table s)"
    "is_sending (arriving n len i s d) = is_sending s"
    "set_recv_slot i ((recv_table (begun n len i s) ! i)\<lparr> rs_doc := Active d' \<rparr>) (arriving n len i s d) = arriving n len i s d'"
  using assms begun_fields(3,4) [OF assms, of n len] by (simp_all add: arriving_def) (simp add: set_recv_slot_def)

text \<open>What happens to a document of which one more segment has been stored.\<close>

definition stored :: "u64 \<Rightarrow> nat \<Rightarrow> nat \<Rightarrow> session \<Rightarrow> recv_doc \<Rightarrow> bool \<Rightarrow> (session \<times> (recv_error + unit)) option" where
  "stored n len i s d complete =
     (if complete then fin_doc n i (arriving n len i s d) else Some (arriving n len i s d, Inr ()))"

lemma recv_first_seg:
  assumes "slot_ready n len i s"
    and "recv_doc_seg (new_doc (doc_seg n len q off data) len None) off data (heap (begun n len i s)) =
      Some (d, heap (begun n len i s), Inr complete)"
  shows "recv_parsed (doc_seg n len q off data) s = stored n len i s d complete"
proof -
  let ?p = "doc_seg n len q off data"
  have i: "i < length (recv_table s)" using assms(1) slot_idx_less by (auto simp: slot_ready_def)
  have r: "reserve_slot ?p i (s\<lparr> recv_bytes_total := recv_bytes_total s + len \<rparr>) = begun n len i s"
    by (simp add: begun_def reserve_slot_def)
  have ca: "checked_add (recv_bytes_total s) len = Some (recv_bytes_total s + len)"
    using assms(1) by (simp add: slot_ready_def checked_add_def)
  have f: "first_seg ?p i (new_doc ?p len None) (begun n len i s) = stored n len i s d complete"
    using assms(2) begun_fields(1) [OF i, of n len]
    by (simp add: first_seg_def Let_def stored_def arriving_def split: bool.splits)
  have "create_doc ?p i s = stored n len i s d complete"
    using assms(1) ca f
    by (simp add: create_doc_def Let_def slot_ready_def slot_is_fin_def r reply_mem_def drop_flushers_def wake_all_def
        drop_closed_channel_def)
  then show ?thesis using assms(1) by (auto simp: recv_parsed_def slot_ready_def)
qed

lemma recv_next_seg:
  assumes "slot_ready n len i s"
    and "recv_doc_seg d off data (heap (arriving n len i s d)) = Some (d', heap (arriving n len i s d), Inr complete)"
  shows "recv_parsed (doc_seg n len q off data) (arriving n len i s d) = stored n len i s d' complete"
proof -
  let ?a = "arriving n len i s d"
  have i: "i < length (recv_table s)" and n: "\<not> is_sending s n" "slot_idx n (recv_table s) = Some i"
    using assms(1) slot_idx_less by (auto simp: slot_ready_def)
  note f = arriving_fields [OF i, where n = n and len = len] and e = begun_fields(1) [OF i, of n len]
  have idx: "slot_idx n (recv_table ?a) = Some i" using n(2) f(2) by (simp add: slot_idx_def split: if_splits)
  have same: "set_recv_slot i (recv_table ?a ! i) ?a = ?a" by (simp add: set_recv_slot_def)
  have "update_doc (doc_seg n len q off data) i ?a = stored n len i s d' complete"
    using assms(2) f(1,4) same
    by (simp add: update_doc_def Let_def stored_def drop_closed_channel_def split: bool.splits)
  then show ?thesis using idx n(1) f(1,3) e by (simp add: recv_parsed_def)
qed

section \<open>The end of a document\<close>

lemma wake_opt_fields [simp]:
  "recv_table (wake_opt w s) = recv_table s" "send_table (wake_opt w s) = send_table s" "is_sending (wake_opt w s) = is_sending s"
  "woken (wake_opt w s) = woken s @ (case w of None \<Rightarrow> [] | Some w \<Rightarrow> [w])"
  "recv_bytes_total (wake_opt w s) = recv_bytes_total s" "send_bytes_max (wake_opt w s) = send_bytes_max s"
  by (simp_all add: wake_opt_def wake_all_def is_sending_def fun_eq_iff split: option.splits)

lemma limit_fields [simp]:
  "send_bytes_max (set_recv_slot i e s) = send_bytes_max s" "send_bytes_max (set_send_slot k f s) = send_bytes_max s"
  by (simp_all add: set_recv_slot_def set_send_slot_def)

text \<open>The document has arrived at the channel \<open>ch\<close> of its parent.\<close>

definition delivered :: "u64 \<Rightarrow> bytes \<Rightarrow> nat \<Rightarrow> nat \<Rightarrow> open_channel \<Rightarrow> session \<Rightarrow> session \<Rightarrow> bool" where
  "delivered n msg i k ch s s' \<longleftrightarrow>
     (\<exists>ch'. send_table s' = (send_table s)[k := (send_table s ! k)\<lparr> ss_channel := Some ch' \<rparr>] \<and>
        ready_docs ch' = ready_docs ch @ [\<lparr> ur_buf = msg, ur_doc_no = n, ur_has_special_parent = False, ur_is_closed = False \<rparr>]) \<and>
     woken s' = woken s @ (if ready_wakers ch = [] then [] else [last (ready_wakers ch)]) \<and>
     recv_bytes_total s' = recv_bytes_total s + length msg \<and> send_bytes_max s' = send_bytes_max s \<and>
     is_initiator s' = is_initiator s"

text \<open>Segments of a document that is no longer active change nothing.\<close>

definition settled :: "u64 \<Rightarrow> nat \<Rightarrow> session \<Rightarrow> bool" where
  "settled n i s \<longleftrightarrow> \<not> is_sending s n \<and> slot_idx n (recv_table s) = Some i \<and> rs_doc_no (recv_table s ! i) = n \<and>
     rs_doc (recv_table s ! i) = Finishing []"

lemma settled_ignores: "settled n i s \<Longrightarrow> recv_parsed (doc_seg n len q off data) s = Some (s, Inr ())"
  by (simp add: settled_def recv_parsed_def update_doc_def Let_def drop_closed_channel_def set_recv_slot_def)

lemma stored_complete:
  assumes ready: "slot_ready n (length msg) i s" and op: "parent_open q k ch s"
    and d: "rdoc_holds d msg {..<length msg}" "rd_parent_no d = Some q" "\<not> rd_has_special_parent d"
  shows "\<exists>s'. stored n (length msg) i s d True = Some (s', Inr ()) \<and> settled n i s' \<and> delivered n msg i k ch s s'"
proof -
  have i: "i < length (recv_table s)" and n: "\<not> is_sending s n" "slot_idx n (recv_table s) = Some i"
    using ready slot_idx_less by (auto simp: slot_ready_def)
  have k: "k < length (send_table s)" using op slot_idx_less by (auto simp: parent_open_def)
  let ?b = "begun n (length msg) i s"
  note b = begun_fields [OF i, of n "length msg"]
  define e where "e = (recv_table ?b ! i)\<lparr> rs_doc := Active d \<rparr>"
  have e: "rs_doc e = Active d" "rs_doc_no e = n" "rs_channel e = Some \<lparr> ref_count = 0, ready_wakers = [],
      ready_docs = rs_adoptable_orphans (recv_table s ! i), reply_buffer = NoReply \<rparr>" using b(1) by (simp_all add: e_def)
  obtain ch' w where post: "post_to_channel d n (rs_channel e = None) ch = Some (ch', w)"
    "ready_docs ch' = ready_docs ch @ [\<lparr> ur_buf = msg, ur_doc_no = n, ur_has_special_parent = False, ur_is_closed = False \<rparr>]"
    "w = (if ready_wakers ch = [] then None else Some (last (ready_wakers ch)))"
    using d(3) rdoc_complete [OF d(1)] e(3) by (cases "ready_wakers ch = []") (simp_all add: post_to_channel_def)
  let ?e = "e\<lparr> rs_doc := Finishing [], rs_channel := map_option (\<lambda>ch. ch\<lparr> ref_count := ref_count ch + 1 \<rparr>) (rs_channel e) \<rparr>"
  let ?s = "wake_opt w (set_send_slot k ((send_table ?b ! k)\<lparr> ss_channel := Some ch' \<rparr>) (set_recv_slot i ?e (set_recv_slot i e ?b)))"
  have fin: "fin_doc n i (set_recv_slot i e ?b) = Some (?s, Inr ())"
    by (rule fin_doc_to_sender [OF _ e(1) d(2) _ _ _ _ post(1)]) (use i b op in \<open>simp_all add: parent_open_def\<close>)
  have "slot_idx n (recv_table ?s) = Some i" using n(2) b(3) by (simp add: slot_idx_def split: if_splits)
  then have "settled n i ?s" using n(1) i b(3,4) e(2) by (simp add: settled_def)
  moreover have "is_initiator ?s = is_initiator s"
    by (simp add: wake_opt_def wake_all_def set_send_slot_def set_recv_slot_def begun_def reserve_slot_def Let_def split: option.splits)
  then have "delivered n msg i k ch s ?s"
    using post(2,3) k b by (auto simp: delivered_def intro!: exI [of _ ch'])
  ultimately show ?thesis using fin by (auto simp: stored_def arriving_def e_def)
qed

lemma stored_without_parent:
  assumes ready: "slot_ready n len i s" and d: "rd_parent_no d = None"
  shows "\<exists>s'. stored n len i s d True = Some (s', Inl Invalid) \<and> settled n i s' \<and> send_table s' = send_table s"
proof -
  have i: "i < length (recv_table s)" and n: "\<not> is_sending s n" "slot_idx n (recv_table s) = Some i"
    using ready slot_idx_less by (auto simp: slot_ready_def)
  let ?s = "set_recv_slot i ((recv_table (begun n len i s) ! i)\<lparr> rs_doc := Finishing [] \<rparr>) (arriving n len i s d)"
  note f = arriving_fields [OF i, where n = n and len = len] and b = begun_fields [OF i, of n len]
  have "stored n len i s d True = Some (?s, Inl Invalid)" using f(1) d by (simp add: stored_def fin_doc_def)
  moreover have "slot_idx n (recv_table ?s) = Some i" using n(2) f(2) by (simp add: slot_idx_def split: if_splits)
  then have "settled n i ?s" using n(1) i f(2,3) b(1) by (simp add: settled_def)
  moreover have "send_table ?s = send_table s" using b(2) by (simp add: arriving_def)
  ultimately show ?thesis by blast
qed

section \<open>The session as a reassembler\<close>

text \<open>
  A step is visible as soon as it fails or the document is no longer active; until then it returns
  nothing.  The parent that the session knows of, \<open>par\<close>, is the one of the segment that came first.
\<close>

definition session_step ::
  "u64 \<Rightarrow> nat \<Rightarrow> u64 \<Rightarrow> nat \<Rightarrow> session \<Rightarrow> nat \<Rightarrow> bytes \<Rightarrow> (session \<times> (session \<times> (recv_error + unit)) option) option" where
  "session_step n len q i s off data =
     (case recv_parsed (doc_seg n len q off data) s of
        None \<Rightarrow> None
      | Some (s', Inl e) \<Rightarrow> Some (s', Some (s', Inl e))
      | Some (s', Inr u) \<Rightarrow> Some (s', case rs_doc (recv_table s' ! i) of Active _ \<Rightarrow> None | _ \<Rightarrow> Some (s', Inr u)))"

definition session_holds ::
  "u64 \<Rightarrow> nat \<Rightarrow> u64 \<Rightarrow> nat \<Rightarrow> nat \<Rightarrow> open_channel \<Rightarrow> u64 option \<Rightarrow> session \<Rightarrow> session \<Rightarrow> bytes \<Rightarrow> nat set \<Rightarrow> bool" where
  "session_holds n len q i k ch par s0 s msg got \<longleftrightarrow> len = length msg \<and> len < usize_bound \<and> slot_ready n len i s0 \<and>
     parent_open q k ch s0 \<and> par \<in> {None, Some q} \<and>
     (if got = {} then s = s0
      else \<exists>d. s = arriving n len i s0 d \<and> rdoc_holds d msg got \<and> rd_parent_no d = par \<and> \<not> rd_has_special_parent d)"

definition session_accepts :: "u64 \<Rightarrow> u64 option \<Rightarrow> nat set \<Rightarrow> nat \<Rightarrow> nat \<Rightarrow> bool" where
  "session_accepts q par got off m \<longleftrightarrow> two_words got off m \<and> (got = {} \<longrightarrow> par = (if off = 0 then Some q else None))"

definition session_finished ::
  "u64 \<Rightarrow> nat \<Rightarrow> nat \<Rightarrow> open_channel \<Rightarrow> u64 option \<Rightarrow> session \<Rightarrow> bytes \<Rightarrow> session \<times> (recv_error + unit) \<Rightarrow> bool" where
  "session_finished n i k ch par s0 msg = (\<lambda>(s', r). settled n i s' \<and>
     (if par = None then r = Inl Invalid \<and> send_table s' = send_table s0 else r = Inr () \<and> delivered n msg i k ch s0 s'))"

lemma session_stored:
  assumes "session_holds n len q i k ch par s0 s msg got" and "0 < m" and "off + m \<le> length msg" and "session_accepts q par got off m"
  shows "\<exists>d. recv_parsed (doc_seg n len q off (take m (drop off msg))) s =
      stored n len i s0 d (got \<union> {off..<off + m} = {..<length msg}) \<and>
    rdoc_holds d msg (got \<union> {off..<off + m}) \<and> rd_parent_no d = par \<and> \<not> rd_has_special_parent d"
proof -
  have marks: "seg_marks off m = {off..<off + m}"
    using assms(4) by (simp add: session_accepts_def two_words_def seg_marks_short)
  note h = assms(1) [unfolded session_holds_def]
  show ?thesis
  proof (cases "got = {}")
    case True
    let ?new = "new_doc (doc_seg n len q off (take m (drop off msg))) len None"
    have new: "rd_parent_no ?new = par" "\<not> rd_has_special_parent ?new"
      using True assms(4) by (simp_all add: new_doc_def session_accepts_def)
    have hold: "rdoc_holds ?new msg {}" using h new_doc_holds [of msg] by simp
    from recv_doc_seg_holds [OF hold assms(2,3), of "heap (begun n len i s0)"] new obtain d where
      "recv_doc_seg ?new off (take m (drop off msg)) (heap (begun n len i s0)) =
        Some (d, heap (begun n len i s0), Inr ({off..<off + m} = {..<length msg}))"
      "rdoc_holds d msg {off..<off + m}" "rd_parent_no d = par" "\<not> rd_has_special_parent d"
      unfolding marks by auto
    then show ?thesis using recv_first_seg [of n len i s0] h True by auto
  next
    case False
    with h obtain d0 where d0: "s = arriving n len i s0 d0" "rdoc_holds d0 msg got" "rd_parent_no d0 = par" "\<not> rd_has_special_parent d0"
      by auto
    from recv_doc_seg_holds [OF d0(2) assms(2,3), of "heap s"] d0(3,4) obtain d where
      "recv_doc_seg d0 off (take m (drop off msg)) (heap s) = Some (d, heap s, Inr (got \<union> {off..<off + m} = {..<length msg}))"
      "rdoc_holds d msg (got \<union> {off..<off + m})" "rd_parent_no d = par" "\<not> rd_has_special_parent d"
      unfolding marks by auto
    then show ?thesis using recv_next_seg [of n len i s0] h d0(1) by auto
  qed
qed

lemma settled_visible:
  "settled n i s \<Longrightarrow> recv_parsed (doc_seg n len q off data) s0 = Some (s, r) \<Longrightarrow> session_step n len q i s0 off data = Some (s, Some (s, r))"
  by (auto simp: session_step_def settled_def split: sum.splits)

interpretation sess: reassembler "session_step n len q i" "session_finished n i k ch par s0" "session_holds n len q i k ch par s0"
  "session_accepts q par" for n len q i k ch par s0
proof unfold_locales
  fix s msg got
  assume h: "session_holds n len q i k ch par s0 s msg got"
  then show "got \<subseteq> {..<length msg}" by (auto simp: session_holds_def rdoc_holds_def split: if_splits)
  fix m off :: nat
  assume m: "0 < m" "off + m \<le> length msg" "session_accepts q par got off m"
  let ?got = "got \<union> {off..<off + m}" and ?data = "take m (drop off msg)"
  from session_stored [OF h m] obtain d where d: "recv_parsed (doc_seg n len q off ?data) s = stored n len i s0 d (?got = {..<length msg})"
    "rdoc_holds d msg ?got" "rd_parent_no d = par" "\<not> rd_has_special_parent d" by blast
  have c: "len = length msg" "slot_ready n (length msg) i s0" "parent_open q k ch s0" "par \<in> {None, Some q}"
    using h by (auto simp: session_holds_def)
  show "\<exists>s' r. session_step n len q i s off ?data = Some (s', r) \<and>
      (if ?got = {..<length msg} then \<exists>x. r = Some x \<and> session_finished n i k ch par s0 msg x
       else r = None \<and> session_holds n len q i k ch par s0 s' msg ?got)"
  proof (cases "?got = {..<length msg}")
    case full: True
    show ?thesis
    proof (cases par)
      case None
      from stored_without_parent [OF c(2), of d] None d(3) obtain s' where
        "stored n len i s0 d True = Some (s', Inl Invalid)" "settled n i s'" "send_table s' = send_table s0" using c(1) by auto
      then show ?thesis using settled_visible [of n i s'] d(1) full None by (auto simp: session_finished_def)
    next
      case (Some q')
      then have "rd_parent_no d = Some q" using c(4) d(3) by simp
      from stored_complete [OF c(2,3) d(2) [unfolded full] this d(4)] obtain s' where
        "stored n len i s0 d True = Some (s', Inr ())" "settled n i s'" "delivered n msg i k ch s0 s'" using c(1) by auto
      then show ?thesis using settled_visible [of n i s'] d(1) full Some by (auto simp: session_finished_def)
    qed
  next
    case False
    have i: "i < length (recv_table s0)" using c(2) slot_idx_less by (auto simp: slot_ready_def)
    have "?got \<noteq> {}" using m(1) by auto
    then have "session_holds n len q i k ch par s0 (arriving n len i s0 d) msg ?got"
      using h d(2-4) by (auto simp: session_holds_def)
    moreover have "session_step n len q i s off ?data = Some (arriving n len i s0 d, None)"
      using d(1) False arriving_fields(1) [OF i] by (simp add: session_step_def stored_def)
    ultimately show ?thesis using False by auto
  qed
qed

section \<open>Packets\<close>

text \<open>A packet with one segment, and a sequence of packets as they arrive.\<close>

definition seg_packet :: "u32 \<Rightarrow> segment \<Rightarrow> bytes option" where
  "seg_packet mtu seg = map_option (\<lambda>(p, full). buf p) (append_seg (packet_new mtu) seg)"

primrec recv_packets :: "bytes list \<Rightarrow> session \<Rightarrow> session option" where
  "recv_packets [] s = Some s"
| "recv_packets (packet # packets) s =
     (case recv_packet packet HEADER_LEN s of None \<Rightarrow> None | Some (s', _) \<Rightarrow> recv_packets packets s')"

definition or_abandon :: "session \<times> (recv_error + unit) \<Rightarrow> session" where
  "or_abandon = (\<lambda>(s, r). case r of Inl _ \<Rightarrow> abandon s | Inr _ \<Rightarrow> s)"

lemma seg_try_new_flags:
  assumes "seg_try_new n doc is_closed cap = (doc', Inr seg)"
  shows "\<not> bit (seg_variant seg) 7" and "\<not> sd_has_special_parent doc \<Longrightarrow> \<not> bit (seg_variant seg) 3"
  using assms by (auto simp: seg_try_new_def Let_def bit_or_iff flag_bits split: if_splits)

lemma seg_frame_variant:
  fixes cap :: nat
  assumes "seg_wf seg" and "\<not> bit (seg_variant seg) 7"
  defines "v \<equiv> seg_frame cap seg ! 0"
  shows "v \<noteq> VARIANT_NULL_TERMINATOR" and "VARIANT_SEG_MIN \<le> v \<and> v \<le> VARIANT_SEG_MAX"
proof -
  define t where "t = len_variant (cap - header_size (seg_variant seg) seg) (length (seg_data seg))"
  have t: "t \<in> {VARIANT_SEG_HAS_LEN, VARIANT_SEG_IS_TERMINATOR, VARIANT_SEG_HAS_TERMINATOR}" by (simp add: t_def len_variant_def)
  have v: "v = seg_variant seg OR t" by (simp add: v_def seg_frame_def Let_def t_def)
  note b = len_bits_set [OF _ t, of "seg_variant seg", folded v]
  have no: "no_len_bits (seg_variant seg)" using assms(1) by (simp add: seg_wf_def)
  have "v \<noteq> 0" using b(1) [OF no] t
    by (auto simp: VARIANT_SEG_HAS_LEN_def VARIANT_SEG_IS_TERMINATOR_def VARIANT_SEG_HAS_TERMINATOR_def)
  moreover have "\<not> bit v 7" using b(2) [OF no, of 7] assms(2) by simp
  then have "n < 7" if "bit v n" for n using bit_imp_le_length [OF that] that by (cases "n = 7") auto
  then have "take_bit 7 v = v" by (intro bit_word_eqI) (auto simp: bit_take_bit_iff)
  then have "unat v < 2 ^ 7" by (metis unat_take_bit mod_less_divisor zero_less_numeral zero_less_power)
  moreover from calculation have "0 < unat v" by (simp add: unat_gt_0)
  ultimately show "v \<noteq> VARIANT_NULL_TERMINATOR" "VARIANT_SEG_MIN \<le> v \<and> v \<le> VARIANT_SEG_MAX"
    by (auto simp: VARIANT_NULL_TERMINATOR_def VARIANT_SEG_MIN_def VARIANT_SEG_MAX_def word_le_nat_alt Suc_le_eq)
qed

lemma seg_packet_received:
  assumes "HEADER_LEN \<le> unat mtu" and "seg_try_new n doc False (unat mtu - HEADER_LEN) = (doc', Inr seg)"
    and "unat n < 2 ^ 30" and "length (sd_data doc) < 2 ^ 30" and "sd_parent_no doc < n"
    and "\<not> sd_has_special_parent doc" and "\<not> sd_has_been_acked doc"
  shows "\<exists>packet. seg_packet mtu seg = Some packet \<and>
    (\<forall>s. recv_packet packet HEADER_LEN s =
       map_option (\<lambda>x. (or_abandon x, length packet))
         (recv_parsed (doc_seg n (length (sd_data doc)) (sd_parent_no doc) (seg_off seg) (seg_data seg)) s))"
proof -
  let ?cap = "unat mtu - HEADER_LEN" and ?p = "packet_new mtu"
  obtain "next_segment n doc False ?cap doc' seg" and left: "sd_next_seg_off doc < length (sd_data doc)"
    using assms(2) by (cases rule: seg_try_new_cases [of doc n False ?cap]) auto
  note ns = this(1) [unfolded next_segment_def]
  have wf: "seg_wf seg" "seg_header_len seg + length (seg_data seg) \<le> ?cap"
    and f: "seg_doc_no seg = n" "seg_off seg = sd_next_seg_off doc" "seg_doc_len seg = length (sd_data doc)"
      "seg_doc_parent_no seg = sd_parent_no doc" "bit (seg_variant seg) 2 \<longleftrightarrow> sd_next_seg_off doc = 0"
      "\<not> bit (seg_variant seg) 6" "bit (seg_variant seg) 5 \<Longrightarrow> seg_data seg = sd_data doc"
      "bit (seg_variant seg) 4 \<or> bit (seg_variant seg) 5"
    and data: "take (length (seg_data seg)) (drop (sd_next_seg_off doc) (sd_data doc)) = seg_data seg"
    using ns assms(7) by (blast, blast, blast, blast, blast, blast, blast, blast, blast, blast, metis)
  note fl = seg_try_new_flags [OF assms(2)]
  have p: "pb_inv ?p" "pb_mtu ?p = mtu" "buf ?p = replicate HEADER_LEN 0"
    using assms(1) by (simp_all add: pb_inv_def packet_new_def)
  obtain p' full where app: "append_seg ?p seg = Some (p', full)" "pb_inv p'" "buf p' = buf ?p @ seg_frame ?cap seg" "pb_mtu p' = mtu"
    using append_seg_ok [OF p(1) wf(1)] wf(2) p(2,3) by auto
  let ?b = "buf p'" and ?v = "seg_frame ?cap seg ! 0"
  have v: "?b ! HEADER_LEN = ?v" "HEADER_LEN < length ?b" by (simp_all add: app(3) p(3) seg_frame_def Let_def nth_append)
  have "length (seg_data seg) \<le> length (sd_data doc)" using arg_cong [OF data, of length] by simp
  moreover have "unat (sd_parent_no doc) < 2 ^ 30" using assms(3,5) by (simp add: word_less_nat_alt)
  ultimately have small: "seg_small seg" using f assms(3,4) left by (simp add: seg_small_def)
  have "fits_slice ?b" using app(2,4) unsigned_less [of mtu, where ?'a = nat] by (simp add: pb_inv_def fits_slice_def)
  then have parse: "parse_seg ?v ?b (HEADER_LEN + 1) = Some (Inr (parsed_of seg), length ?b)"
    using parse_seg_frame [OF wf(1) small _ wf(2), of ?b "buf ?p" "[]"] assms(5) f(1,4) app(3) p(3) v(1) by simp
  have ps: "parsed_of seg = doc_seg n (length (sd_data doc)) (sd_parent_no doc) (seg_off seg) (seg_data seg)"
    using f fl(2) [OF assms(6)] by (auto simp: parsed_of_def Let_def doc_seg_def)
  have fin: "recv_packet ?b (length ?b) s = Some (s, length ?b)" for s by (simp add: recv_packet.simps)
  have "recv_packet ?b HEADER_LEN s = map_option (\<lambda>x. (or_abandon x, length ?b)) (recv_parsed (parsed_of seg) s)" for s
    using seg_frame_variant [OF wf(1) fl(1), of ?cap] v recv_seg_parsed [OF parse, of s]
    by (subst recv_packet.simps) (auto simp: or_abandon_def fin split: option.splits sum.splits)
  then show ?thesis using app(1) by (auto simp: seg_packet_def ps)
qed

text \<open>The range of a document that a segment carries.\<close>

definition piece :: "segment \<Rightarrow> nat \<times> nat" where
  "piece seg = (seg_off seg, length (seg_data seg))"

definition packet_for :: "u64 \<Rightarrow> u64 \<Rightarrow> bytes \<Rightarrow> nat \<times> nat \<Rightarrow> bytes \<Rightarrow> bool" where
  "packet_for n q msg x packet \<longleftrightarrow>
     (\<forall>s. recv_packet packet HEADER_LEN s = map_option (\<lambda>r. (or_abandon r, length packet))
        (recv_parsed (doc_seg n (length msg) q (fst x) (take (snd x) (drop (fst x) msg))) s))"

lemma settled_abandon [simp]: "settled n i (or_abandon (s, r)) = settled n i s"
  by (simp add: or_abandon_def abandon_def settled_def is_sending_def split: sum.splits)

lemma settled_packets: "list_all2 (packet_for n q msg) xs packets \<Longrightarrow> settled n i s \<Longrightarrow> recv_packets packets s = Some s"
  by (induction rule: list_all2_induct) (simp_all add: packet_for_def settled_ignores, simp add: or_abandon_def)

lemma deliver_packets:
  assumes "list_all2 (packet_for n q msg) xs packets" and "deliver (session_step n (length msg) q i) msg s xs = Some (s1, Some x)"
    and "settled n i (fst x)"
  shows "recv_packets packets s = Some (or_abandon x)"
  using assms(1,2)
proof (induction arbitrary: s rule: list_all2_induct)
  case (Cons y ys packet packets)
  let ?p = "doc_seg n (length msg) q (fst y) (take (snd y) (drop (fst y) msg))"
  obtain s' r where r: "recv_parsed ?p s = Some (s', r)" using Cons.prems by (auto simp: session_step_def split: option.splits)
  have rp: "recv_packets (packet # packets) s = recv_packets packets (or_abandon (s', r))"
    using Cons.hyps(1) r by (simp add: packet_for_def)
  show ?case
  proof (cases "r = Inr () \<and> (\<exists>d. rs_doc (recv_table s' ! i) = Active d)")
    case True
    then show ?thesis using rp Cons.prems Cons.IH [of s'] r by (auto simp: session_step_def or_abandon_def)
  next
    case False
    then have "x = (s', r)" using Cons.prems r by (auto simp: session_step_def split: sum.splits recv_doc_state.splits)
    then show ?thesis using rp settled_packets [OF Cons.hyps(2)] assms(3) by simp
  qed
qed simp

definition cut_from :: "u64 \<Rightarrow> bool \<Rightarrow> send_doc \<Rightarrow> nat set \<Rightarrow> segment \<Rightarrow> bool" where
  "cut_from n c doc caps seg \<longleftrightarrow> (\<exists>off cap doc'. cap \<in> caps \<and> off < length (sd_data doc) \<and>
     seg_try_new n (doc\<lparr> sd_next_seg_off := off \<rparr>) c cap = (doc', Inr seg) \<and>
     next_segment n (doc\<lparr> sd_next_seg_off := off \<rparr>) c cap doc' seg)"

lemma cut_from_mono: "cut_from n c doc caps seg \<Longrightarrow> caps \<subseteq> caps' \<Longrightarrow> cut_from n c doc caps' seg"
  by (auto simp: cut_from_def)

lemma cut_from_off [simp]: "cut_from n c (doc\<lparr> sd_next_seg_off := off \<rparr>) caps seg = cut_from n c doc caps seg"
  by (simp add: cut_from_def)

lemma cut_segs:
  assumes "cut n c doc caps = (doc', segs)" and "sd_next_seg_off doc \<le> length (sd_data doc)"
  shows "sd_next_seg_off doc \<le> sd_next_seg_off doc' \<and> covered (map piece segs) = {sd_next_seg_off doc..<sd_next_seg_off doc'} \<and>
    (\<forall>seg\<in>set segs. cut_from n c doc (set caps) seg)"
  using assms
proof (induction caps arbitrary: doc segs)
  case (Cons cap caps)
  have skip: ?case if "cut n c doc caps = (doc', segs)"
    using Cons.IH [OF that Cons.prems(2)] cut_from_mono [of n c doc "set caps" _ "set (cap # caps)"] by auto
  show ?case
  proof (cases rule: seg_try_new_cases [of doc n c cap])
    case (seg doc1 seg1)
    let ?o = "sd_next_seg_off doc" and ?m = "length (seg_data seg1)"
    obtain segs1 where segs: "segs = seg1 # segs1" "cut n c doc1 caps = (doc', segs1)"
      using Cons.prems(1) seg(2) by (auto split: prod.splits)
    have d1: "doc1 = doc\<lparr> sd_next_seg_off := ?o + ?m \<rparr>" "seg_off seg1 = ?o"
      "take ?m (drop ?o (sd_data doc)) = seg_data seg1" using seg(3) by (simp_all add: next_segment_def)
    have "?o + ?m \<le> length (sd_data doc)" using arg_cong [OF d1(3), of length] seg(1) by simp
    then have IH: "?o + ?m \<le> sd_next_seg_off doc'" "covered (map piece segs1) = {?o + ?m..<sd_next_seg_off doc'}"
      "\<forall>seg\<in>set segs1. cut_from n c doc (set caps) seg"
      using Cons.IH [OF segs(2)] by (simp_all add: d1(1))
    have "cut_from n c doc (set (cap # caps)) seg1"
      unfolding cut_from_def using seg by (intro exI [of _ ?o] exI [of _ cap] exI [of _ doc1]) simp
    moreover have "covered (map piece segs) = {?o..<sd_next_seg_off doc'}"
      using IH(1,2) d1(2) by (auto simp: segs(1) piece_def)
    moreover have "cut_from n c doc (set (cap # caps)) x" if "x \<in> set segs1" for x
      using IH(3) that cut_from_mono [of n c doc "set caps" x "set (cap # caps)"] by auto
    ultimately show ?thesis using IH(1) segs(1) by simp
  qed (use Cons.prems skip in simp_all)
qed simp

section \<open>Properties\<close>

text \<open>An ordinary document that has not been acknowledged yet, within the range of the varints.\<close>

definition plain_doc :: "u64 \<Rightarrow> send_doc \<Rightarrow> bool" where
  "plain_doc n doc \<longleftrightarrow> sd_data doc \<noteq> [] \<and> length (sd_data doc) < 2 ^ 30 \<and> unat n < 2 ^ 30 \<and> sd_parent_no doc < n \<and>
     \<not> sd_has_special_parent doc \<and> \<not> sd_has_been_acked doc"

lemma cut_from_packet:
  assumes "plain_doc n doc" and "HEADER_LEN \<le> unat mtu" and "cut_from n False doc {unat mtu - HEADER_LEN} seg"
  shows "\<exists>packet. seg_packet mtu seg = Some packet \<and> packet_for n (sd_parent_no doc) (sd_data doc) (piece seg) packet"
    and "0 < snd (piece seg) \<and> fst (piece seg) + snd (piece seg) \<le> length (sd_data doc)"
proof -
  let ?cap = "unat mtu - HEADER_LEN"
  obtain off doc' where c: "off < length (sd_data doc)" "seg_try_new n (doc\<lparr> sd_next_seg_off := off \<rparr>) False ?cap = (doc', Inr seg)"
    "next_segment n (doc\<lparr> sd_next_seg_off := off \<rparr>) False ?cap doc' seg"
    using assms(3) by (auto simp: cut_from_def)
  then have d: "seg_off seg = off" "take (length (seg_data seg)) (drop off (sd_data doc)) = seg_data seg" "seg_data seg \<noteq> []"
    by (simp_all add: next_segment_def)
  show "0 < snd (piece seg) \<and> fst (piece seg) + snd (piece seg) \<le> length (sd_data doc)"
    using d(1,3) arg_cong [OF d(2), of length] c(1) by (simp add: piece_def)
  show "\<exists>packet. seg_packet mtu seg = Some packet \<and> packet_for n (sd_parent_no doc) (sd_data doc) (piece seg) packet"
    using seg_packet_received [OF assms(2) c(2)] assms(1) d by (simp add: plain_doc_def packet_for_def piece_def)
qed

text \<open>The segments of a document in the order in which they arrive, repeated or not.\<close>

definition arrival :: "u32 \<Rightarrow> u64 \<Rightarrow> send_doc \<Rightarrow> segment list \<Rightarrow> bool" where
  "arrival mtu n doc segs \<longleftrightarrow> HEADER_LEN \<le> unat mtu \<and> plain_doc n doc \<and>
     (\<exists>m doc' cuts. cut n False (doc\<lparr> sd_next_seg_off := 0 \<rparr>) (replicate m (unat mtu - HEADER_LEN)) = (doc', cuts) \<and>
        sd_next_seg_off doc' = length (sd_data doc) \<and> set segs = set cuts) \<and>
     (\<forall>seg\<in>set segs. (seg_off seg + length (seg_data seg) - 1) div 64 \<le> seg_off seg div 64 + 1)"

lemma arrival_packets:
  assumes "arrival mtu n doc segs"
  obtains packets where "map (seg_packet mtu) segs = map Some packets"
    and "list_all2 (packet_for n (sd_parent_no doc) (sd_data doc)) (map piece segs) packets"
    and "\<forall>x\<in>set (map piece segs). 0 < snd x \<and> fst x + snd x \<le> length (sd_data doc)"
    and "covered (map piece segs) = {..<length (sd_data doc)}"
proof -
  from assms obtain m doc' cuts where c: "cut n False (doc\<lparr> sd_next_seg_off := 0 \<rparr>) (replicate m (unat mtu - HEADER_LEN)) = (doc', cuts)"
    "sd_next_seg_off doc' = length (sd_data doc)" "set segs = set cuts" and p: "plain_doc n doc" "HEADER_LEN \<le> unat mtu"
    by (auto simp: arrival_def)
  have cs: "covered (map piece cuts) = {..<length (sd_data doc)}" "\<forall>seg\<in>set cuts. cut_from n False doc (set (replicate m (unat mtu - HEADER_LEN))) seg"
    using cut_segs [OF c(1)] c(2) by (simp_all add: lessThan_atLeast0)
  have "cut_from n False doc {unat mtu - HEADER_LEN} seg" if "seg \<in> set segs" for seg
    using cs(2) that c(3) cut_from_mono by (metis set_replicate_Suc set_replicate_conv_if empty_subsetI order_refl)
  note seg = cut_from_packet [OF p this]
  have "\<exists>packets. map (seg_packet mtu) segs = map Some packets \<and>
      list_all2 (packet_for n (sd_parent_no doc) (sd_data doc)) (map piece segs) packets"
    using seg(1)
  proof (induction segs)
    case (Cons x xs)
    obtain packets where "map (seg_packet mtu) xs = map Some packets"
      "list_all2 (packet_for n (sd_parent_no doc) (sd_data doc)) (map piece xs) packets" using Cons.IH Cons.prems by auto
    moreover obtain packet where "seg_packet mtu x = Some packet" "packet_for n (sd_parent_no doc) (sd_data doc) (piece x) packet"
      using Cons.prems by auto
    ultimately show ?case by (intro exI [of _ "packet # packets"]) simp
  qed simp
  moreover have "covered (map piece segs) = {..<length (sd_data doc)}" using cs(1) c(3) by (simp add: covered_def)
  ultimately show thesis using that seg(2) by fastforce
qed

lemma arrival_result:
  assumes a: "arrival mtu n doc segs" and r: "slot_ready n (length (sd_data doc)) i s" "parent_open (sd_parent_no doc) k ch s"
    and par: "par = (if seg_off (hd segs) = 0 then Some (sd_parent_no doc) else None)"
  shows "\<exists>packets x. map (seg_packet mtu) segs = map Some packets \<and> recv_packets packets s = Some (or_abandon x) \<and>
    session_finished n i k ch par s (sd_data doc) x"
proof -
  let ?msg = "sd_data doc" and ?q = "sd_parent_no doc" and ?xs = "map piece segs"
  obtain packets where p: "map (seg_packet mtu) segs = map Some packets" "list_all2 (packet_for n ?q ?msg) ?xs packets"
    "\<forall>x\<in>set ?xs. 0 < snd x \<and> fst x + snd x \<le> length ?msg" "covered ?xs = {..<length ?msg}"
    using arrival_packets [OF a] by blast
  have msg: "?msg \<noteq> []" "length ?msg < usize_bound" using a by (simp_all add: arrival_def plain_doc_def usize_bound_def)
  have two: "two_words got (fst x) (snd x)" if "x \<in> set ?xs" for x got
    using a that by (auto simp: arrival_def two_words_def piece_def)
  have acc: "all_accepted (session_accepts ?q par) got xs" if "set xs \<subseteq> set ?xs" "got \<noteq> {}" for xs got
    using that two by (induction xs arbitrary: got) (simp_all add: session_accepts_def)
  have "all_accepted (session_accepts ?q par) {} ?xs"
  proof (cases segs)
    case (Cons x xs)
    have "session_accepts ?q par {} (fst (piece x)) (snd (piece x))"
      using Cons two [of "piece x"] par by (simp add: session_accepts_def) (simp add: piece_def)
    moreover have "all_accepted (session_accepts ?q par) {fst (piece x)..<fst (piece x) + snd (piece x)} (map piece xs)"
      by (rule acc) (use Cons p(3) in auto)
    ultimately show ?thesis using Cons by simp
  qed (use p(4) msg(1) in simp)
  moreover have "session_holds n (length ?msg) ?q i k ch par s s ?msg {}" using r msg(2) par by (simp add: session_holds_def)
  ultimately obtain s1 x where x: "deliver (session_step n (length ?msg) ?q i) ?msg s ?xs = Some (s1, Some x)"
    "session_finished n i k ch par s ?msg x"
    using sess.deliver_all [of n "length ?msg" ?q i k ch par s s ?msg "{}" ?xs] p(3,4) msg(1) by auto
  then have "settled n i (fst x)" by (auto simp: session_finished_def split: prod.splits)
  then show ?thesis using deliver_packets [OF p(2) x(1)] p(1) x(2) by blast
qed

text \<open>Document 8 of 60 bytes, which takes two packets of 61 bytes.\<close>

definition sample_doc :: send_doc where
  "sample_doc = \<lparr> sd_parent_no = 3, sd_has_special_parent = False, sd_has_been_acked = False, sd_next_seg_off = 0,
     sd_data = replicate 60 7, sd_flush_wakers = [] \<rparr>"

lemma sample_cut:
  obtains doc' seg1 seg2 where "cut 8 False (sample_doc\<lparr> sd_next_seg_off := 0 \<rparr>) (replicate 2 53) = (doc', [seg1, seg2])"
    and "sd_next_seg_off doc' = 60" and "seg_off seg1 = 0" and "length (seg_data seg1) = 49" and "seg_off seg2 = 49"
    and "length (seg_data seg2) = 11"
proof -
  have lens: "varu64_len 8 = 1" "varu64_len 3 = 1" "len_of_usize 60 = 1" "len_of_usize 49 = 1"
    by (simp_all add: varu64_len_def len_of_usize_def varusize_len_def VARINT_U8_MAX_def VARINT_U16_MAX_def word_le_nat_alt)
  show thesis
    by (rule that, simp add: sample_doc_def seg_try_new_def Let_def lens MIN_SEG_DATA_LEN_def numeral_2_eq_2) simp_all
qed

lemma sample_arrives: "slot_ready 8 60 0 sample_session" "parent_open 3 0 sample_channel sample_session"
  by (simp_all add: slot_ready_def parent_open_def sample_session_def is_sending_def slot_idx_def usize_bound_def)

lemma sample_arrival:
  obtains seg1 seg2 where "arrival 61 8 sample_doc [seg1, seg2]" and "arrival 61 8 sample_doc [seg2, seg1, seg2]"
    and "seg_off seg1 = 0" and "seg_off seg2 = 49"
proof -
  obtain doc' seg1 seg2 where c: "cut 8 False (sample_doc\<lparr> sd_next_seg_off := 0 \<rparr>) (replicate 2 53) = (doc', [seg1, seg2])"
    "sd_next_seg_off doc' = 60" "seg_off seg1 = 0" "length (seg_data seg1) = 49" "seg_off seg2 = 49" "length (seg_data seg2) = 11"
    by (rule sample_cut)
  have "arrival 61 8 sample_doc segs" if "set segs = {seg1, seg2}" for segs
    unfolding arrival_def using c that
    by (auto simp: HEADER_LEN_def plain_doc_def sample_doc_def intro!: exI [of _ 2])
  from this [of "[seg1, seg2]"] this [of "[seg2, seg1, seg2]"] show thesis using that [of seg1 seg2] c(3,5) by auto
qed



text \<open>
  C40. The same packets lose the document and the session when another segment comes first: the parent is
  only taken from the segment that opens the slot, and only the first segment names it.  When the last
  byte is in, the receiver finds a document without a parent, calls that invalid and abandons the
  session; no channel gets the document.
\<close>

theorem late_first_segment_abandons:
  assumes "arrival mtu n doc segs" and "seg_off (hd segs) \<noteq> 0"
    and "slot_ready n (length (sd_data doc)) i s" and "parent_open (sd_parent_no doc) k ch s"
  shows "\<exists>packets s'. map (seg_packet mtu) segs = map Some packets \<and> recv_packets packets s = Some s' \<and>
    send_bytes_max s' = 0 \<and> send_table s' = send_table s"
  using arrival_result [OF assms(1,3,4) refl] assms(2)
  by (fastforce simp: session_finished_def or_abandon_def abandon_def)

theorem late_first_segment_abandons_witness:
  "\<exists>seg1 seg2 packets s'. map (seg_packet 61) [seg2, seg1, seg2] = map Some packets \<and>
     recv_packets packets sample_session = Some s' \<and> send_bytes_max sample_session = 1000 \<and> send_bytes_max s' = 0"
proof (rule sample_arrival)
  fix seg1 seg2 assume a: "arrival 61 8 sample_doc [seg2, seg1, seg2]" "seg_off seg2 = 49"
  have "slot_ready 8 (length (sd_data sample_doc)) 0 sample_session" "parent_open (sd_parent_no sample_doc) 0 sample_channel sample_session"
    using sample_arrives by (simp_all add: sample_doc_def)
  note l = late_first_segment_abandons [OF a(1) _ this]
  have "seg_off (hd [seg2, seg1, seg2]) \<noteq> 0" using a(2) by simp
  from l [OF this] obtain packets s' where
    "map (seg_packet 61) [seg2, seg1, seg2] = map Some packets" "recv_packets packets sample_session = Some s'" "send_bytes_max s' = 0"
    by blast
  moreover have "send_bytes_max sample_session = 1000" by (simp add: sample_session_def)
  ultimately show ?thesis by blast
qed

end
