(* ===== verification/Acknowledged.thy ===== *)
theory Acknowledged
  imports Transmit_Correct
begin

text \<open>
  Acknowledgements between two peers: what one side appends to a packet (\<open>append_sorted_acks\<close>), the other
  side takes out of its set of unacknowledged packets (\<open>acknowledged\<close> of \<open>send.rs\<close>), and what is no longer
  in the set is not sent again by \<open>transmit\<close>.
\<close>

section \<open>Packet ids\<close>

lemma bit_uid_of: "bit (uid_of u a) n \<longleftrightarrow> (if n < 32 then bit a n else bit u (n - 32))"
  by (auto simp: uid_of_def bit_simps dest: bit_imp_le_length)

lemma uid_of_inject [simp]: "uid_of u a = uid_of v b \<longleftrightarrow> u = v \<and> a = b"
proof
  assume e: "uid_of u a = uid_of v b"
  have "bit a n = bit b n" if "n < 32" for n using arg_cong [OF e, of "\<lambda>w. bit w n"] that by (simp add: bit_uid_of)
  moreover have "bit u n = bit v n" for n using arg_cong [OF e, of "\<lambda>w. bit w (n + 32)"] by (simp add: bit_uid_of)
  ultimately show "u = v \<and> a = b" by (auto intro: bit_word_eqI)
qed simp

section \<open>Reading the frames of a packet\<close>

text \<open>Every acknowledgement frame of a packet from an index on is given to \<open>acknowledged\<close>.\<close>

function acknowledge_frames :: "u32 \<Rightarrow> bytes \<Rightarrow> nat \<Rightarrow> u64 set \<Rightarrow> u64 set option" where
  "acknowledge_frames u packet i unacked =
     (if i < length packet then
        (case acknowledged u (packet ! i) packet (i + 1) unacked of
           None \<Rightarrow> None
         | Some (unacked, j) \<Rightarrow> if i < j then acknowledge_frames u packet j unacked else None)
      else Some unacked)"
  by pat_completeness auto

termination
  by (relation "measure (\<lambda>(u, packet, i, unacked). length packet - i)") auto

declare acknowledge_frames.simps [simp del]

lemma acknowledge_decoded:
  "decode_frames packet i = Some acks \<Longrightarrow> acknowledge_frames u packet i unacked = Some (unacked - uid_of u ` set acks)"
proof (induction packet i arbitrary: acks unacked rule: decode_frames.induct)
  case (1 packet i)
  show ?case
  proof (cases "i < length packet")
    case True
    from "1.prems" True obtain j here rest where d: "decode packet (packet ! i = VARIANT_ACK_RUN) (i + 1) = Some (True, j, here)" "i < j"
      "decode_frames packet j = Some rest" "acks = here @ rest"
      by (subst (asm) decode_frames.simps) (auto split: option.splits prod.splits bool.splits if_splits)
    have "acknowledge_frames u packet i unacked = acknowledge_frames u packet j (unacked - uid_of u ` set here)"
      using True d(1,2) by (subst acknowledge_frames.simps) (simp add: acknowledged_def)
    also have "\<dots> = Some (unacked - uid_of u ` set here - uid_of u ` set rest)"
      using "1.IH" [OF True d(1) refl refl refl d(2,3)] .
    finally show ?thesis by (simp add: d(4) image_Un Diff_eq Int_assoc)
  next
    case False
    then show ?thesis using "1.prems" by (simp add: decode_frames.simps [of _ i] acknowledge_frames.simps)
  qed
qed

section \<open>Sending again\<close>

text \<open>
  A packet that is not among the unacknowledged ones makes no difference.  The queue is in the order of
  sending, so an acknowledged packet that is not due yet does not hold back one behind it.
\<close>

lemma pop_expired_filter:
  assumes "sorted (map sent_at q)" and "unacked \<subseteq> un" and "pop_expired rto q unacked r = (q', unacked', r')"
  shows "pop_expired rto (filter (\<lambda>p. packet_uid p \<in> un) q) unacked r = (filter (\<lambda>p. packet_uid p \<in> un) q', unacked', r') \<and>
    unacked' \<subseteq> un \<and> sorted (map sent_at q')"
  using assms
proof (induction q arbitrary: unacked r)
  case (Cons p q)
  show ?case
  proof (cases "sent_at p < rto")
    case True
    have "packet_uid p \<notin> unacked \<and> unacked - {packet_uid p} = unacked" if "packet_uid p \<notin> un" using that Cons.prems(2) by auto
    moreover have "unacked - {packet_uid p} \<subseteq> un" using Cons.prems(2) by auto
    ultimately show ?thesis
      using Cons.IH [of "unacked - {packet_uid p}" "if packet_uid p \<in> unacked then Some p else r"] Cons.prems True
      by (cases "packet_uid p \<in> un") auto
  next
    case False
    have "pop_expired rto qs unacked r = (qs, unacked, r)" if "\<forall>p'\<in>set qs. sent_at p \<le> sent_at p'" for qs
      using that False by (cases qs) auto
    from this [of "filter (\<lambda>p. packet_uid p \<in> un) q"] show ?thesis using False Cons.prems by auto
  qed
qed simp

lemma resend_loop_filter:
  assumes "sorted (map sent_at q)" and "unacked \<subseteq> un"
  shows "resend_loop mtu rto (filter (\<lambda>p. packet_uid p \<in> un) q) unacked t =
    map_option (\<lambda>(q', rest). (filter (\<lambda>p. packet_uid p \<in> un) q', rest)) (resend_loop mtu rto q unacked t)"
  using assms
proof (induction mtu rto q unacked t rule: resend_loop.induct)
  case (1 mtu rto q unacked t)
  obtain q' unacked' r where p: "pop_expired rto q unacked None = (q', unacked', r)" by (cases "pop_expired rto q unacked None") auto
  note f = pop_expired_filter [OF "1.prems" p]
  show ?case
  proof (cases r)
    case None
    then show ?thesis using p f by (subst (1 2) resend_loop.simps) simp
  next
    case (Some payload)
    show ?thesis
    proof (cases "resend_payload mtu payload (t\<lparr> tx_congestions := tx_congestions t + 1 \<rparr>)")
      case None
      then show ?thesis using p f Some by (subst (1 2) resend_loop.simps) simp
    next
      case res: (Some x)
      obtain t' ret where x: "x = (t', ret)" by (cases x)
      show ?thesis
        using "1.IH" [OF p [symmetric] refl Some] p f Some res x
        by (subst (1 2) resend_loop.simps) auto
    qed
  qed
qed

section \<open>Properties\<close>



end
