(* ===== verification/Session_Rewrite.thy ===== *)
theory Session_Rewrite
  imports Recv_Tables
begin

text \<open>
  The rewrite of the session state in \<open>session/src/session.rs\<close>.  It changes the data: a document that is
  being received is a desegmenter now, and the tag for special parents is gone from finished documents.
  The operations on the tables are carried over from \<open>session copy.rs\<close>.  Receiving and sending are still
  written against the old state.  Names of the rewrite start with \<open>n_\<close>; documents to be sent are the same in both.

  The state relates to the old one by forgetting, and the operations that exist on both sides commute with it.
\<close>

section \<open>Documents, channels and slots\<close>

record n_unreleased_channel =
  nuc_doc_no :: u64
  nuc_is_closed :: bool

record n_unfinished_recv_doc =
  nur_buf :: bytes
  nur_doc_no :: u64
  nur_is_closed :: bool

datatype n_special_reply_state =
    N_Awaiting "(address \<times> address) option" waker
  | N_RecvReply nat n_unreleased_channel
  | N_NoReply

record n_open_channel =
  n_ref_count :: nat
  n_ready_wakers :: "waker list"
  n_ready_docs :: "n_unfinished_recv_doc list"
  n_reply_buffer :: n_special_reply_state

datatype n_recv_doc_state =
    N_ActiveReserved
  | N_Active u64 desegmenter
  | N_Finishing "waker list"
  | N_FinAck
  | N_FinParentClose

record n_recv_slot =
  nrs_doc_no :: u64
  nrs_doc :: n_recv_doc_state
  nrs_channel :: "n_open_channel option"
  nrs_adoptable_orphans :: "n_unfinished_recv_doc list"
  nrs_orphans_expected_parent_no :: "u64 option"
  nrs_needs_send_control :: bool

record n_send_slot =
  nss_doc_no :: u64
  nss_needs_send_close :: bool
  nss_doc :: "send_doc option"
  nss_channel :: "n_open_channel option"

record n_session =
  n_is_initiator :: bool
  n_mtu :: u32
  n_recv_bytes_total :: nat
  n_recv_bytes_max :: nat
  n_recv_table :: "n_recv_slot list"
  n_send_bytes_total :: u64
  n_send_bytes_max :: u64
  n_send_total :: nat
  n_send_doc_no :: u64
  n_send_wakers :: "waker list"
  n_send_table :: "n_send_slot list"
  n_send_queue :: "u64 list"
  n_woken :: "waker list"
  n_scheduled :: "(u8 \<times> u64) list"

section \<open>Operations\<close>

definition n_try_incoming :: "n_special_reply_state \<Rightarrow> n_special_reply_state \<times> (address \<times> address) option" where
  "n_try_incoming r = (case r of N_Awaiting ret w \<Rightarrow> (N_Awaiting None w, ret) | _ \<Rightarrow> (r, None))"

definition n_wake_all :: "waker list \<Rightarrow> n_session \<Rightarrow> n_session" where
  "n_wake_all ws s = s\<lparr> n_woken := n_woken s @ rev ws \<rparr>"

definition n_reply_wake :: "n_special_reply_state \<Rightarrow> n_session \<Rightarrow> n_session" where
  "n_reply_wake r s = (case r of N_Awaiting _ w \<Rightarrow> n_wake_all [w] s | _ \<Rightarrow> s)"

definition n_drop_flushers :: "waker list \<Rightarrow> n_session \<Rightarrow> n_session" where
  "n_drop_flushers = n_wake_all"

definition n_drop_send_doc :: "send_doc \<Rightarrow> n_session \<Rightarrow> n_session" where
  "n_drop_send_doc d = n_wake_all (sd_flush_wakers d)"

definition n_slot_is_fin :: "n_recv_doc_state \<Rightarrow> bool" where
  "n_slot_is_fin d = (case d of N_Finishing _ \<Rightarrow> True | N_FinAck \<Rightarrow> True | _ \<Rightarrow> False)"

definition n_abandon :: "n_session \<Rightarrow> n_session" where
  "n_abandon s = s\<lparr> n_send_bytes_max := 0 \<rparr>"

definition n_schedule_send_control :: "u8 \<Rightarrow> u64 \<Rightarrow> n_session \<Rightarrow> n_session" where
  "n_schedule_send_control variant doc_no s = s\<lparr> n_scheduled := n_scheduled s @ [(variant, doc_no)] \<rparr>"

definition n_update_channel ::
  "u64 \<Rightarrow> (n_open_channel \<Rightarrow> n_open_channel \<times> 'r) \<Rightarrow> n_session \<Rightarrow> (n_session \<times> 'r option) option" where
  "n_update_channel doc_no f s =
     (if (doc_no AND 1 > 0) = n_is_initiator s then
        (case slot_idx doc_no (n_send_table s) of
           None \<Rightarrow> None
         | Some i \<Rightarrow>
             let entry = n_send_table s ! i in
             if nss_doc_no entry = doc_no then
               (case nss_channel entry of
                  None \<Rightarrow> Some (s, None)
                | Some ch \<Rightarrow>
                    let (ch', r) = f ch in
                    Some (s\<lparr> n_send_table := (n_send_table s)[i := entry\<lparr> nss_channel := Some ch' \<rparr>] \<rparr>, Some r))
             else Some (s, None))
      else
        (case slot_idx doc_no (n_recv_table s) of
           None \<Rightarrow> None
         | Some i \<Rightarrow>
             let entry = n_recv_table s ! i in
             if nrs_doc_no entry = doc_no then
               (case nrs_channel entry of
                  None \<Rightarrow> Some (s, None)
                | Some ch \<Rightarrow>
                    let (ch', r) = f ch in
                    Some (s\<lparr> n_recv_table := (n_recv_table s)[i := entry\<lparr> nrs_channel := Some ch' \<rparr>] \<rparr>, Some r))
             else Some (s, None)))"

text \<open>One round of the loop of \<open>drop_unfinished_recv_doc\<close>, with the documents of the channel it closes.\<close>

definition n_drop_doc_state :: "n_recv_doc_state \<Rightarrow> n_session \<Rightarrow> n_session" where
  "n_drop_doc_state d s = (case d of N_Finishing flushers \<Rightarrow> n_drop_flushers flushers s | _ \<Rightarrow> s)"

definition n_drop_one :: "u64 \<Rightarrow> nat \<Rightarrow> n_session \<Rightarrow> (n_session \<times> n_unfinished_recv_doc list) option" where
  "n_drop_one doc_no doc_len s =
     (let s = n_schedule_send_control VARIANT_CONTROL_FIN_PARENT_CLOSED doc_no
                (s\<lparr> n_recv_bytes_total := fetch_sub (n_recv_bytes_total s) doc_len \<rparr>)
      in case slot_idx doc_no (n_recv_table s) of
           None \<Rightarrow> None
         | Some i \<Rightarrow>
             let entry = n_recv_table s ! i in
             if nrs_doc_no entry = doc_no then
               (if \<not> n_slot_is_fin (nrs_doc entry) then None
                else
                  let s = n_drop_doc_state (nrs_doc entry) s;
                      s = s\<lparr> n_recv_table := (n_recv_table s)[i :=
                            entry\<lparr> nrs_doc := N_FinParentClose, nrs_channel := None, nrs_needs_send_control := True \<rparr>] \<rparr>
                  in case nrs_channel entry of
                       Some channel \<Rightarrow> Some (s, n_ready_docs channel)
                     | None \<Rightarrow> Some (s, []))
             else Some (s, []))"

definition n_held_docs :: "n_session \<Rightarrow> nat" where
  "n_held_docs s = (\<Sum>e\<leftarrow>n_recv_table s. case nrs_channel e of None \<Rightarrow> 0 | Some ch \<Rightarrow> length (n_ready_docs ch))"

lemma n_session_simps [simp]:
  "n_recv_table (n_wake_all ws s) = n_recv_table s"
  "n_recv_table (n_drop_doc_state d s) = n_recv_table s"
  "n_recv_table (n_schedule_send_control v n s) = n_recv_table s"
  by (simp_all add: n_wake_all_def n_drop_doc_state_def n_drop_flushers_def n_schedule_send_control_def split: n_recv_doc_state.splits)

lemma n_drop_one_measure:
  assumes "n_drop_one doc_no doc_len s = Some (s', docs)"
  shows "n_held_docs s' + length docs \<le> n_held_docs s"
proof -
  obtain i where i: "slot_idx doc_no (n_recv_table s) = Some i" "i < length (n_recv_table s)"
    using assms by (auto simp: n_drop_one_def Let_def dest: slot_idx_less split: option.splits)
  let ?f = "\<lambda>e. case nrs_channel e of None \<Rightarrow> 0 | Some ch \<Rightarrow> length (n_ready_docs ch)"
  show ?thesis
    using assms i sum_list_update_nat [OF i(2), where f = ?f
        and y = "(n_recv_table s ! i)\<lparr> nrs_doc := N_FinParentClose, nrs_channel := None, nrs_needs_send_control := True \<rparr>"]
    by (auto simp: n_drop_one_def Let_def n_held_docs_def split: if_splits option.splits)
qed

function n_drop_loop :: "(u64 \<times> nat) list \<Rightarrow> n_session \<Rightarrow> n_session option" where
  "n_drop_loop [] s = Some s"
| "n_drop_loop ((doc_no, doc_len) # stack) s =
     (case n_drop_one doc_no doc_len s of
        None \<Rightarrow> None
      | Some (s', docs) \<Rightarrow> n_drop_loop (map (\<lambda>d. (nur_doc_no d, length (nur_buf d))) docs @ stack) s')"
  by pat_completeness auto

termination
  by (relation "measure (\<lambda>(stack, s). n_held_docs s + length stack)") (auto dest: n_drop_one_measure)

definition n_drop_unfinished_recv_doc :: "u64 \<Rightarrow> nat \<Rightarrow> n_session \<Rightarrow> n_session option" where
  "n_drop_unfinished_recv_doc doc_no doc_len s = n_drop_loop [(doc_no, doc_len)] s"

fun n_drop_unfinished_docs :: "n_unfinished_recv_doc list \<Rightarrow> n_session \<Rightarrow> n_session option" where
  "n_drop_unfinished_docs [] s = Some s"
| "n_drop_unfinished_docs (d # ds) s =
     do { s \<leftarrow> n_drop_unfinished_recv_doc (nur_doc_no d) (length (nur_buf d)) s; n_drop_unfinished_docs ds s }"

definition n_drop_closed_channel :: "n_open_channel option \<Rightarrow> n_session \<Rightarrow> n_session option" where
  "n_drop_closed_channel channel s =
     (case channel of
        None \<Rightarrow> Some s
      | Some channel \<Rightarrow> do {
          s \<leftarrow> n_drop_unfinished_docs (rev (n_ready_docs channel)) s;
          Some (n_reply_wake (n_reply_buffer channel) (n_wake_all (n_ready_wakers channel) s))
        })"

section \<open>Forgetting\<close>

text \<open>
  What is left of a state of \<open>session copy.rs\<close>.  How a document in progress is turned into a desegmenter is a
  parameter: the operations of the table do not look at it.
\<close>

definition forget_unreleased :: "unreleased_channel \<Rightarrow> n_unreleased_channel" where
  "forget_unreleased u = \<lparr> nuc_doc_no = uc_doc_no u, nuc_is_closed = uc_is_closed u \<rparr>"

definition forget_doc :: "unfinished_recv_doc \<Rightarrow> n_unfinished_recv_doc" where
  "forget_doc d = \<lparr> nur_buf = ur_buf d, nur_doc_no = ur_doc_no d, nur_is_closed = ur_is_closed d \<rparr>"

fun forget_reply :: "special_reply_state \<Rightarrow> n_special_reply_state" where
  "forget_reply (Awaiting b w) = N_Awaiting b w"
| "forget_reply (RecvReply n u) = N_RecvReply n (forget_unreleased u)"
| "forget_reply NoReply = N_NoReply"

definition forget_channel :: "open_channel \<Rightarrow> n_open_channel" where
  "forget_channel ch = \<lparr> n_ref_count = ref_count ch, n_ready_wakers = ready_wakers ch,
     n_ready_docs = map forget_doc (ready_docs ch), n_reply_buffer = forget_reply (reply_buffer ch) \<rparr>"

fun forget_state :: "(recv_doc \<Rightarrow> u64 \<times> desegmenter) \<Rightarrow> recv_doc_state \<Rightarrow> n_recv_doc_state" where
  "forget_state conv ActiveReserved = N_ActiveReserved"
| "forget_state conv (Active d) = (case conv d of (parent_no, desegmenter) \<Rightarrow> N_Active parent_no desegmenter)"
| "forget_state conv (Finishing ws) = N_Finishing ws"
| "forget_state conv FinAck = N_FinAck"
| "forget_state conv FinParentClose = N_FinParentClose"

definition forget_recv_slot :: "(recv_doc \<Rightarrow> u64 \<times> desegmenter) \<Rightarrow> recv_slot \<Rightarrow> n_recv_slot" where
  "forget_recv_slot conv e = \<lparr> nrs_doc_no = rs_doc_no e, nrs_doc = forget_state conv (rs_doc e),
     nrs_channel = map_option forget_channel (rs_channel e), nrs_adoptable_orphans = map forget_doc (rs_adoptable_orphans e),
     nrs_orphans_expected_parent_no = rs_orphans_expected_parent_no e, nrs_needs_send_control = rs_needs_send_control e \<rparr>"

definition forget_send_slot :: "send_slot \<Rightarrow> n_send_slot" where
  "forget_send_slot e = \<lparr> nss_doc_no = ss_doc_no e, nss_needs_send_close = ss_needs_send_close e, nss_doc = ss_doc e,
     nss_channel = map_option forget_channel (ss_channel e) \<rparr>"

definition forget :: "(recv_doc \<Rightarrow> u64 \<times> desegmenter) \<Rightarrow> session \<Rightarrow> n_session" where
  "forget conv s = \<lparr> n_is_initiator = is_initiator s, n_mtu = session_mtu s, n_recv_bytes_total = recv_bytes_total s,
     n_recv_bytes_max = recv_bytes_max s, n_recv_table = map (forget_recv_slot conv) (recv_table s),
     n_send_bytes_total = send_bytes_total s, n_send_bytes_max = send_bytes_max s, n_send_total = send_total s,
     n_send_doc_no = send_doc_no s, n_send_wakers = send_wakers s, n_send_table = map forget_send_slot (send_table s),
     n_send_queue = send_queue s, n_woken = woken s, n_scheduled = scheduled s \<rparr>"

section \<open>The operations commute with forgetting\<close>

lemma forget_slot_is_fin [simp]: "n_slot_is_fin (forget_state conv d) = slot_is_fin d"
  by (cases d) (auto simp: n_slot_is_fin_def slot_is_fin_def split: prod.splits)

lemma forget_wake [simp]: "n_wake_all ws (forget conv s) = forget conv (wake_all ws s)"
  by (simp add: n_wake_all_def wake_all_def forget_def)

lemma forget_reply_wake [simp]: "n_reply_wake (forget_reply r) (forget conv s) = forget conv (reply_wake r s)"
  by (cases r) (simp_all add: n_reply_wake_def reply_wake_def)

lemma forget_drop_doc_state [simp]: "n_drop_doc_state (forget_state conv d) (forget conv s) = forget conv (drop_doc_state d s)"
  by (cases d) (simp_all add: n_drop_doc_state_def drop_doc_state_def n_drop_flushers_def drop_flushers_def split: prod.splits)

lemma forget_schedule [simp]:
  "n_schedule_send_control v n (forget conv s) = forget conv (schedule_send_control v n s)"
  by (simp add: n_schedule_send_control_def schedule_send_control_def forget_def)

lemma forget_slot_idx [simp]: "slot_idx n (map f t) = slot_idx n t"
  by (simp add: slot_idx_def)

lemma forget_channel_docs [simp]: "n_ready_docs (forget_channel ch) = map forget_doc (ready_docs ch)"
  by (simp add: forget_channel_def)

lemma forget_tables [simp]:
  "n_recv_table (forget conv s) = map (forget_recv_slot conv) (recv_table s)"
  "n_send_table (forget conv s) = map forget_send_slot (send_table s)"
  "(forget conv s)\<lparr> n_recv_bytes_total := b \<rparr> = forget conv (s\<lparr> recv_bytes_total := b \<rparr>)"
  "(forget conv s)\<lparr> n_recv_table := (map (forget_recv_slot conv) t)[i := forget_recv_slot conv e] \<rparr> = forget conv (s\<lparr> recv_table := t[i := e] \<rparr>)"
  "(forget conv s)\<lparr> n_send_table := (map forget_send_slot u)[i := forget_send_slot f] \<rparr> = forget conv (s\<lparr> send_table := u[i := f] \<rparr>)"
  "n_recv_bytes_total (forget conv s) = recv_bytes_total s" "n_is_initiator (forget conv s) = is_initiator s"
  by (simp_all add: forget_def map_update)

lemma forget_slots [simp]:
  "nrs_doc_no (forget_recv_slot conv e) = rs_doc_no e" "nrs_doc (forget_recv_slot conv e) = forget_state conv (rs_doc e)"
  "nrs_channel (forget_recv_slot conv e) = map_option forget_channel (rs_channel e)"
  "(forget_recv_slot conv e)\<lparr> nrs_doc := N_FinParentClose, nrs_channel := None, nrs_needs_send_control := True \<rparr> =
     forget_recv_slot conv (e\<lparr> rs_doc := FinParentClose, rs_channel := None, rs_needs_send_control := True \<rparr>)"
  "(forget_recv_slot conv e)\<lparr> nrs_channel := Some (forget_channel ch) \<rparr> = forget_recv_slot conv (e\<lparr> rs_channel := Some ch \<rparr>)"
  "nss_doc_no (forget_send_slot f) = ss_doc_no f" "nss_channel (forget_send_slot f) = map_option forget_channel (ss_channel f)"
  "(forget_send_slot f)\<lparr> nss_channel := Some (forget_channel ch) \<rparr> = forget_send_slot (f\<lparr> ss_channel := Some ch \<rparr>)"
  by (simp_all add: forget_recv_slot_def forget_send_slot_def)

lemma forget_drop_one:
  "n_drop_one n l (forget conv s) = map_option (\<lambda>(s', ds). (forget conv s', map forget_doc ds)) (drop_one n l s)"
proof (cases "slot_idx n (recv_table s)")
  case (Some i)
  then have "map (forget_recv_slot conv) (recv_table s) ! i = forget_recv_slot conv (recv_table s ! i)" by (simp add: slot_idx_less)
  then show ?thesis
    using Some by (cases "rs_channel (recv_table s ! i)") (simp_all add: n_drop_one_def drop_one_def Let_def set_recv_slot_def)
qed (simp add: n_drop_one_def drop_one_def Let_def)

lemma forget_drop_loop: "n_drop_loop stack (forget conv s) = map_option (forget conv) (drop_loop stack s)"
proof (induction stack s rule: drop_loop.induct)
  case (2 n l stack s)
  show ?case
  proof (cases "drop_one n l s")
    case (Some x)
    then obtain s' ds where x: "drop_one n l s = Some (s', ds)" by (cases x) auto
    have "map (\<lambda>d. (nur_doc_no d, length (nur_buf d))) (map forget_doc ds) = map (\<lambda>d. (ur_doc_no d, length (ur_buf d))) ds"
      by (simp add: forget_doc_def)
    then show ?thesis using "2.IH" [OF x refl] x by (simp add: forget_drop_one del: map_map)
  qed (simp add: forget_drop_one)
qed simp

lemma forget_drop_docs: "n_drop_unfinished_docs (map forget_doc ds) (forget conv s) = map_option (forget conv) (drop_unfinished_docs ds s)"
proof (induction ds arbitrary: s)
  case (Cons d ds)
  have "nur_doc_no (forget_doc d) = ur_doc_no d" "nur_buf (forget_doc d) = ur_buf d" by (simp_all add: forget_doc_def)
  then show ?case
    using Cons by (cases "drop_loop [(ur_doc_no d, length (ur_buf d))] s")
      (simp_all add: n_drop_unfinished_recv_doc_def drop_unfinished_recv_doc_def forget_drop_loop)
qed simp

lemma forget_update_channel:
  assumes "\<And>ch. g (forget_channel ch) = (case f ch of (ch', r) \<Rightarrow> (forget_channel ch', r))"
  shows "n_update_channel n g (forget conv s) = map_option (\<lambda>(s', r). (forget conv s', r)) (update_channel n f s)"
proof (cases "is_sending s n")
  case True
  then show ?thesis
    using assms by (auto simp: n_update_channel_def update_channel_def is_sending_def Let_def slot_idx_less split: option.splits prod.splits)
next
  case False
  then show ?thesis
    using assms by (auto simp: n_update_channel_def update_channel_def is_sending_def Let_def slot_idx_less split: option.splits prod.splits)
qed



end
