(* ===== verification/Session_Inv.thy ===== *)
theory Session_Inv
  imports Channel_Correct Transmit Recv_Tables
begin

text \<open>
  An invariant of whole sessions.  Whatever happens to a session, by packets that arrive, by the
  application's calls on its channels and by sending, the bookkeeping of every document that is being
  received stays right: the counter of the received bytes is the number of marked ones.  A document is
  handed over, and its memory declared initialised, on the strength of that counter.
\<close>

section \<open>Well-formed documents\<close>

definition doc_wf :: "recv_doc \<Rightarrow> bool" where
  "doc_wf d \<longleftrightarrow> (case rd_mem d of
     Simple b \<Rightarrow> length b < usize_bound \<and> length b \<le> 64 * length (rd_set_segs d) \<and>
       rmarks (rd_set_segs d) \<subseteq> {..<length b} \<and> rd_total_recv d = card (rmarks (rd_set_segs d))
   | ReplyBuf _ _ \<Rightarrow> True)"

definition slot_wf :: "recv_slot \<Rightarrow> bool" where
  "slot_wf e \<longleftrightarrow> (case rs_doc e of Active d \<Rightarrow> doc_wf d | _ \<Rightarrow> True)"

definition table_wf :: "session \<Rightarrow> bool" where
  "table_wf s \<longleftrightarrow> list_all slot_wf (recv_table s)"

lemma recv_doc_seg_wf:
  assumes "doc_wf d" and "recv_doc_seg d off seg h = Some (d', h', r)"
  shows "doc_wf d'" and "rd_mem d = Simple b \<Longrightarrow> r = Inr True \<Longrightarrow> rmarks (rd_set_segs d') = {..<length b}"
proof -
  have "doc_wf d' \<and> (\<forall>b. rd_mem d = Simple b \<longrightarrow> r = Inr True \<longrightarrow> rmarks (rd_set_segs d') = {..<length b})"
  proof (cases "rd_mem d")
    case (Simple b)
    consider (same) "d' = d" "r = Inl Invalid \<or> r = Inr (b = [])" | (stored) "seg \<noteq> []" "off + length seg \<le> length b"
      using assms(2) Simple
      by (auto simp: recv_doc_seg_def Let_def doc_mem_len_def checked_add_def split: if_split_asm bind_splits)
    then show ?thesis
    proof cases
      case same
      then show ?thesis using assms(1) Simple by (auto simp: doc_wf_def)
    next
      case stored
      note wf = assms(1) [unfolded doc_wf_def Simple, simplified]
      from recv_doc_seg_marks [OF Simple, of seg off h] stored wf assms(2) have
        d': "rd_mem d' = Simple (take off b @ seg @ drop (off + length seg) b)" "length (rd_set_segs d') = length (rd_set_segs d)"
        "rmarks (rd_set_segs d') = rmarks (rd_set_segs d) \<union> seg_marks off (length seg)"
        "rd_total_recv d' = card (rmarks (rd_set_segs d'))" "r = Inr (rd_total_recv d' = length b)" by auto
      have sub: "rmarks (rd_set_segs d') \<subseteq> {..<length b}" using wf d'(3) stored(2) by (auto simp: seg_marks_def)
      have "length (take off b @ seg @ drop (off + length seg) b) = length b" using stored(2) by simp
      then have "doc_wf d'" using wf d'(1,2,4) sub by (simp add: doc_wf_def)
      moreover have "rmarks (rd_set_segs d') = {..<length b}" if "card (rmarks (rd_set_segs d')) = length b"
        using card_subset_eq [OF _ sub] that by simp
      ultimately show ?thesis using d'(4,5) Simple by simp
    qed
  next
    case (ReplyBuf a e)
    then have "rd_mem d' = rd_mem d"
      using assms(2) by (auto simp: recv_doc_seg_def Let_def doc_mem_write_def split: if_split_asm bind_splits)
    then show ?thesis using ReplyBuf by (simp add: doc_wf_def)
  qed
  then show "doc_wf d'" "rd_mem d = Simple b \<Longrightarrow> r = Inr True \<Longrightarrow> rmarks (rd_set_segs d') = {..<length b}" by auto
qed

lemma new_doc_wf: "n < usize_bound \<Longrightarrow> (case m of None \<Rightarrow> True | Some (Simple _) \<Rightarrow> False | Some (ReplyBuf _ _) \<Rightarrow> True) \<Longrightarrow> doc_wf (new_doc p n m)"
  by (auto simp: doc_wf_def new_doc_def split: option.splits doc_mem.splits)

section \<open>The operations on the tables\<close>

lemma slot_wf_simps [simp]:
  "slot_wf (e\<lparr> rs_channel := c \<rparr>) = slot_wf e" "slot_wf (e\<lparr> rs_needs_send_control := b \<rparr>) = slot_wf e"
  "slot_wf (e\<lparr> rs_doc_no := n \<rparr>) = slot_wf e" "slot_wf (e\<lparr> rs_adoptable_orphans := os \<rparr>) = slot_wf e"
  "slot_wf (e\<lparr> rs_orphans_expected_parent_no := q \<rparr>) = slot_wf e"
  "slot_wf (e\<lparr> rs_doc := Active d \<rparr>) = doc_wf d" "slot_wf (e\<lparr> rs_doc := ActiveReserved \<rparr>)"
  "slot_wf (e\<lparr> rs_doc := Finishing ws \<rparr>)" "slot_wf (e\<lparr> rs_doc := FinParentClose \<rparr>)"
  by (simp_all add: slot_wf_def)

lemma table_wf_nth: "table_wf s \<Longrightarrow> i < length (recv_table s) \<Longrightarrow> slot_wf (recv_table s ! i)"
  by (simp add: table_wf_def list_all_length)

lemma table_wf_set [simp]: "table_wf s \<Longrightarrow> slot_wf e \<Longrightarrow> table_wf (set_recv_slot i e s)"
  using set_update_subset_insert [of "recv_table s" i e] by (auto simp: table_wf_def list_all_iff)

lemma table_wf_other [simp]:
  "table_wf (wake_all ws s) = table_wf s" "table_wf (drop_doc_state d s) = table_wf s"
  "table_wf (schedule_send_control v n s) = table_wf s" "table_wf (set_send_slot j f s) = table_wf s"
  "table_wf (wake_opt w s) = table_wf s" "table_wf (reply_wake r s) = table_wf s" "table_wf (drop_flushers ws s) = table_wf s"
  "table_wf (abandon s) = table_wf s" "table_wf (s\<lparr> heap := h \<rparr>) = table_wf s" "table_wf (s\<lparr> recv_bytes_total := b \<rparr>) = table_wf s"
  "table_wf (s\<lparr> send_table := t \<rparr>) = table_wf s" "table_wf (s\<lparr> send_total := k \<rparr>) = table_wf s"
  "table_wf (s\<lparr> send_bytes_total := x \<rparr>) = table_wf s" "table_wf (s\<lparr> send_doc_no := n \<rparr>) = table_wf s"
  "table_wf (s\<lparr> send_wakers := ws \<rparr>) = table_wf s" "table_wf (s\<lparr> send_queue := ns \<rparr>) = table_wf s"
  by (simp_all add: table_wf_def wake_opt_def reply_wake_def drop_flushers_def abandon_def
      split: option.splits special_reply_state.splits)

lemma drop_one_wf:
  assumes "drop_one n k s = Some (s', docs)" and "table_wf s"
  shows "table_wf s'"
  using assms table_wf_nth [OF assms(2)] slot_idx_less [of n "recv_table s"]
  by (auto simp: drop_one_def Let_def split: option.splits if_splits)

lemma drop_loop_wf: "drop_loop stack s = Some s' \<Longrightarrow> table_wf s \<Longrightarrow> table_wf s'"
  by (induction stack s rule: drop_loop.induct) (auto dest: drop_one_wf split: option.splits)

lemma drop_unfinished_wf: "drop_unfinished_recv_doc n k s = Some s' \<Longrightarrow> table_wf s \<Longrightarrow> table_wf s'"
  unfolding drop_unfinished_recv_doc_def by (rule drop_loop_wf)

lemma drop_docs_wf: "drop_unfinished_docs ds s = Some s' \<Longrightarrow> table_wf s \<Longrightarrow> table_wf s'"
  by (induction ds arbitrary: s) (auto dest: drop_unfinished_wf split: bind_splits)

lemma drop_closed_channel_wf: "drop_closed_channel ch s = Some s' \<Longrightarrow> table_wf s \<Longrightarrow> table_wf s'"
  by (auto simp: drop_closed_channel_def dest: drop_docs_wf split: option.splits bind_splits)

lemma update_channel_wf:
  assumes "update_channel n f s = Some (s', r)" and "table_wf s"
  shows "table_wf s'"
proof -
  have [simp]: "table_wf (s\<lparr> recv_table := (recv_table s)[i := e] \<rparr>)" if "slot_wf e" for i e
    using table_wf_set [OF assms(2) that, of i] by (simp add: set_recv_slot_def)
  show ?thesis
    using assms table_wf_nth [OF assms(2)] slot_idx_less [of n "recv_table s"]
    by (auto simp: update_channel_def Let_def split: option.splits if_splits prod.splits)
qed

lemma fin_to_parent_wf:
  assumes "fin_to_parent n d p c s = Some (s', r)" and "table_wf s"
  shows "table_wf s'"
  using assms table_wf_nth [OF assms(2)] slot_idx_less [of p "recv_table s"]
  by (auto simp: fin_to_parent_def Let_def dest: drop_unfinished_wf
      split: option.splits if_split_asm bind_splits doc_mem.splits)

lemma fin_doc_wf: "fin_doc n i s = Some (s', r) \<Longrightarrow> table_wf s \<Longrightarrow> table_wf s'"
  by (auto simp: fin_doc_def Let_def dest!: fin_to_parent_wf split: option.splits recv_doc_state.splits)

lemma update_doc_wf:
  assumes "update_doc p i s = Some (s', r)" and "i < length (recv_table s)" and "table_wf s"
  shows "table_wf s'"
proof -
  define e where "e = (if ps_is_closed p then (recv_table s ! i)\<lparr> rs_channel := None \<rparr> else recv_table s ! i)"
  have e: "slot_wf e" "rs_doc e = rs_doc (recv_table s ! i)" using table_wf_nth [OF assms(3,2)] by (simp_all add: e_def)
  then have set: "table_wf (set_recv_slot i e s)" using assms(3) by simp
  show ?thesis
  proof (cases "rs_doc e")
    case (Active d)
    then obtain d' h result s1 ch where seg: "recv_doc_seg d (ps_seg_off p) (ps_seg p) (heap (set_recv_slot i e s)) = Some (d', h, result)"
      and s1: "(case result of Inr False \<Rightarrow> Some (set_recv_slot i (e\<lparr> rs_doc := Active d' \<rparr>) ((set_recv_slot i e s)\<lparr> heap := h \<rparr>), Inr ())
         | Inr True \<Rightarrow> fin_doc (ps_doc_no p) i (set_recv_slot i (e\<lparr> rs_doc := Active d' \<rparr>) ((set_recv_slot i e s)\<lparr> heap := h \<rparr>))
         | Inl err \<Rightarrow> Some (set_recv_slot i (e\<lparr> rs_doc := Active d' \<rparr>) ((set_recv_slot i e s)\<lparr> heap := h \<rparr>), Inl err)) = Some (s1, r)"
      and s': "drop_closed_channel ch s1 = Some s'"
      using assms(1) unfolding update_doc_def Let_def e_def [symmetric] by (auto split: bind_splits)
    have "doc_wf d" using e(1) Active by (simp add: slot_wf_def)
    then have "doc_wf d'" using recv_doc_seg_wf(1) seg by blast
    then have "table_wf (set_recv_slot i (e\<lparr> rs_doc := Active d' \<rparr>) ((set_recv_slot i e s)\<lparr> heap := h \<rparr>))" using set by simp
    then have "table_wf s1" using s1 by (auto dest: fin_doc_wf split: sum.splits bool.splits)
    then show ?thesis using drop_closed_channel_wf [OF s'] by simp
  qed (use assms(1) set in \<open>auto simp: update_doc_def Let_def e_def [symmetric] dest!: drop_closed_channel_wf split: bind_splits\<close>)
qed

lemma reply_mem_wf:
  assumes "reply_mem p s = Some (s', m)" and "table_wf s"
  shows "table_wf s'" and "case m of None \<Rightarrow> True | Some (Simple _) \<Rightarrow> False | Some (ReplyBuf _ _) \<Rightarrow> True"
  using assms by (auto simp: reply_mem_def dest: update_channel_wf split: option.splits bind_splits doc_mem.splits)

lemma first_seg_wf:
  assumes "first_seg p i d s = Some (s', r)" and "table_wf s" and "doc_wf d" and "i < length (recv_table s)"
  shows "table_wf s'"
proof -
  have "table_wf (set_recv_slot i ((recv_table s ! i)\<lparr> rs_doc := Active d' \<rparr>) (s\<lparr> heap := h \<rparr>))"
    if "recv_doc_seg d (ps_seg_off p) (ps_seg p) (heap s) = Some (d', h, result)" for d' h result
    using recv_doc_seg_wf(1) [OF assms(3) that] assms(2) by simp
  then show ?thesis
    using assms(1,2)
    by (fastforce simp: first_seg_def Let_def dest: fin_doc_wf split: if_splits bind_splits sum.splits bool.splits)
qed

lemma create_doc_wf:
  assumes "create_doc p i s = Some (s', r)" and i: "i < length (recv_table s)" and "table_wf s"
  shows "table_wf s'"
proof (cases "s' = s")
  case False
  then obtain len total s1 m s2 fl orphans s3 ch where total: "checked_add (recv_bytes_total s) len = Some total"
    and 1: "reply_mem p (reserve_slot p i (s\<lparr> recv_bytes_total := total \<rparr>)) = Some (s1, m)"
    and 2: "first_seg p i (new_doc p len m) s1 = Some (s2, r)"
    and 3: "drop_unfinished_docs orphans (drop_flushers fl s2) = Some s3"
    and 4: "drop_closed_channel ch s3 = Some s'"
    using assms(1)
    by (auto simp: create_doc_def Let_def simp del: drop_unfinished_docs.simps split: option.splits if_split_asm bind_splits)
  have "len < usize_bound" using total by (auto simp: checked_add_def split: if_splits)
  have "table_wf (reserve_slot p i (s\<lparr> recv_bytes_total := total \<rparr>))"
    using assms(3) by (simp add: reserve_slot_def Let_def slot_wf_def)
  note m = reply_mem_wf [OF 1 this]
  have "slot_nos s1 = (slot_nos s)[i := ps_doc_no p]"
    using reply_mem_nos [OF 1] reserve_slot_nos [of i "s\<lparr> recv_bytes_total := total \<rparr>" p] i by simp
  then have "i < length (recv_table s1)" using i by (metis length_list_update length_map slot_nos_def)
  then have "table_wf s2" using first_seg_wf [OF 2 m(1) new_doc_wf [OF \<open>len < usize_bound\<close> m(2)]] by simp
  then show ?thesis using drop_docs_wf [OF 3] drop_closed_channel_wf [OF 4] by simp
qed (use assms(3) in simp)

lemma recv_seg_wf: "recv_seg v packet j s = Some (s', j', r) \<Longrightarrow> table_wf s \<Longrightarrow> table_wf s'"
  by (auto simp: recv_seg_def Let_def dest: update_doc_wf [OF _ slot_idx_less] create_doc_wf [OF _ slot_idx_less]
      split: option.splits sum.splits if_split_asm bind_splits)

lemma recv_packet_wf: "recv_packet packet j s = Some (s', j') \<Longrightarrow> table_wf s \<Longrightarrow> table_wf s'"
proof (induction packet j s rule: recv_packet.induct)
  case (1 packet j s)
  then show ?case
    by (subst (asm) (3) recv_packet.simps)
       (fastforce simp: Let_def dest: recv_seg_wf split: if_split_asm option.splits sum.splits)
qed

section \<open>The operations of the application and of sending\<close>

lemma send_control_session: "send_control mtu v n s t = Some (s', t', f) \<Longrightarrow> s' = s"
  by (auto simp: send_control_def)

subsection \<open>Steps that every invariant below survives\<close>

text \<open>What a channel holds for the application.\<close>

definition channel_holds :: "open_channel option \<Rightarrow> (unfinished_recv_doc list \<times> special_reply_state) option" where
  "channel_holds c = map_option (\<lambda>ch. (ready_docs ch, reply_buffer ch)) c"

text \<open>The slot keeps its document, except for the tasks that wait for it, and what its channel holds.\<close>

definition same_docs :: "recv_slot \<Rightarrow> recv_slot \<Rightarrow> bool" where
  "same_docs e e' \<longleftrightarrow> rs_doc_no e' = rs_doc_no e \<and> rs_adoptable_orphans e' = rs_adoptable_orphans e \<and>
     channel_holds (rs_channel e') = channel_holds (rs_channel e) \<and>
     (rs_doc e' = rs_doc e \<or> (\<exists>ws ws'. rs_doc e = Finishing ws \<and> rs_doc e' = Finishing ws'))"

text \<open>
  Transmitting, flushing and cloning a channel leave alone what the session has received.  An
  invariant on that only has to allow for the slots to be written back.
\<close>

locale received_invariant =
  fixes I :: "session \<Rightarrow> bool"
  assumes send_slot: "I s \<Longrightarrow> i < length (send_table s) \<Longrightarrow> channel_holds (ss_channel e) = channel_holds (ss_channel (send_table s ! i)) \<Longrightarrow>
      I (set_send_slot i e s)"
    and recv_slot: "I s \<Longrightarrow> i < length (recv_table s) \<Longrightarrow> same_docs (recv_table s ! i) e' \<Longrightarrow> I (set_recv_slot i e' s)"
    and queue: "I s \<Longrightarrow> I (s\<lparr> send_queue := q \<rparr>)"
begin

lemma flush_poll_keeps: "flush_poll c w b s = Some (s', r) \<Longrightarrow> I s \<Longrightarrow> I s'"
  by (auto simp: flush_poll_def Let_def same_docs_def dest!: slot_idx_less intro!: send_slot recv_slot
      split: option.splits if_split_asm bind_splits recv_doc_state.splits)

lemma clone_channel_keeps: "clone_channel c s = Some (s', r) \<Longrightarrow> I s \<Longrightarrow> I s'"
  using send_slot [of s] recv_slot [of s]
  by (auto simp: clone_channel_def update_channel_def Let_def same_docs_def channel_holds_def set_send_slot_def set_recv_slot_def
      dest!: slot_idx_less split: option.splits if_split_asm bind_splits)

lemma send_seg_keeps: "send_seg mtu i doc seg s t = Some (s', t', f) \<Longrightarrow> i < length (send_table s) \<Longrightarrow> I s \<Longrightarrow> I s'"
  by (auto simp: send_seg_def Let_def intro: send_slot)

lemma reset_send_close_keeps: "i < length (send_table s) \<Longrightarrow> I s \<Longrightarrow> I (reset_send_close i s)"
  by (simp add: reset_send_close_def send_slot)

lemma send_fin_close_keeps: "send_fin_close mtu n i s t = Some (s', t', f) \<Longrightarrow> i < length (send_table s) \<Longrightarrow> I s \<Longrightarrow> I s'"
  by (auto simp: send_fin_close_def dest!: send_control_session intro: reset_send_close_keeps split: if_splits)

lemma send_in_next_keeps: "send_in_next mtu n i s t = Some (s', t', f) \<Longrightarrow> i < length (send_table s) \<Longrightarrow> I s \<Longrightarrow> I s'"
  by (auto simp: send_in_next_def dest: send_seg_keeps send_fin_close_keeps
      split: bind_splits if_splits option.splits prod.splits sum.splits)

lemma send_doc_frames_keeps: "send_doc_frames mtu n s t = Some (s', t', f) \<Longrightarrow> I s \<Longrightarrow> I s'"
  by (auto simp: send_doc_frames_def Let_def dest: send_seg_keeps send_fin_close_keeps send_in_next_keeps dest!: send_control_session slot_idx_less
      intro: reset_send_close_keeps split: bind_splits if_splits option.splits prod.splits sum.splits bool.splits)

lemma recv_doc_frames_keeps: "recv_doc_frames mtu n s t = Some (s', t', f) \<Longrightarrow> I s \<Longrightarrow> I s'"
  by (auto simp: recv_doc_frames_def Let_def same_docs_def dest!: send_control_session slot_idx_less intro!: recv_slot
      split: bind_splits if_splits)

lemma send_loop_keeps: "send_loop mtu q s t = Some (s', t', r) \<Longrightarrow> I s \<Longrightarrow> I s'"
proof (induction mtu q s t rule: send_loop.induct)
  case (2 mtu n q s t)
  then obtain s1 t1 f where 1: "(if is_sending s n then send_doc_frames mtu n s t else recv_doc_frames mtu n s t) = Some (s1, t1, f)"
    and 3: "(case f of Next \<Rightarrow> send_loop mtu q s1 t1 | Return \<Rightarrow> Some (s1\<lparr> send_queue := q \<rparr>, t1, True)
      | Return_Front \<Rightarrow> Some (s1\<lparr> send_queue := n # q \<rparr>, t1, True)) = Some (s', t', r)"
    by (auto split: bind_splits)
  have "I s1" using 1 2(3) by (auto dest: send_doc_frames_keeps recv_doc_frames_keeps split: if_splits)
  then show ?case using 2(1) [OF 1 refl refl _] 3 queue by (cases f) auto
qed (auto intro: queue)

lemma transmit_keeps: "transmit b rto tr = Some (tr', ps) \<Longrightarrow> I (tr_session tr) \<Longrightarrow> I (tr_session tr')"
  by (auto simp: transmit_def Let_def split: bind_splits if_splits) (use send_loop_keeps in blast)+

end

text \<open>Whether slots are well-formed is such an invariant.\<close>

lemma same_docs_wf: "same_docs e e' \<Longrightarrow> slot_wf e' = slot_wf e"
  by (auto simp: same_docs_def slot_wf_def)

interpretation wf: received_invariant table_wf
  by unfold_locales (auto simp: same_docs_wf table_wf_nth)

subsection \<open>Taking, sending and closing\<close>

lemma release_doc_wf [simp]: "table_wf (fst (release_doc d s)) = table_wf s"
  by (simp add: release_doc_def)

lemma try_recv_wf: "try_recv c s = Some (s', r) \<Longrightarrow> table_wf s \<Longrightarrow> table_wf s'"
  by (auto simp: try_recv_def Let_def case_prod_beta dest: update_channel_wf split: sum.splits option.splits bind_splits)

lemma recv_poll_wf: "recv_poll c w s = Some (s', r) \<Longrightarrow> table_wf s \<Longrightarrow> table_wf s'"
  by (auto simp: recv_poll_def Let_def case_prod_beta dest: update_channel_wf split: sum.splits option.splits bind_splits)

lemma close_if_inner_wf:
  assumes "close_if_inner c f s = Some (s', r)" and "table_wf s"
  shows "table_wf s'"
  using assms table_wf_nth [OF assms(2)] slot_idx_less [of "channel_doc_no c" "recv_table s"]
  by (auto simp: close_if_inner_def Let_def dest!: drop_closed_channel_wf split: option.splits if_split_asm bind_splits)

lemma try_send_any_wf: "try_send_any c doc reply s = Some (s', r) \<Longrightarrow> table_wf s \<Longrightarrow> table_wf s'"
  by (auto simp: try_send_any_def Let_def fill_slot_def table_wf_def dest: find_slot_free split: if_split_asm bind_splits)

lemma wake_next_sender_wf [simp]: "table_wf (wake_next_sender b s) = table_wf s"
  by (simp add: wake_next_sender_def split: list.splits)

lemma send_poll_wf: "send_poll c w f s = Some (s', f', r) \<Longrightarrow> table_wf s \<Longrightarrow> table_wf s'"
  by (induction c w f s rule: send_poll.induct)
     (auto simp: try_send_def dest!: try_send_any_wf split: bind_splits sum.splits prod.splits try_send_error.splits)

lemma send_reply_poll_wf: "send_reply_poll c b w f s = Some (s', f', r) \<Longrightarrow> table_wf s \<Longrightarrow> table_wf s'"
  by (induction c b w f s rule: send_reply_poll.induct)
     (auto dest!: try_send_any_wf update_channel_wf split: bind_splits sum.splits prod.splits try_send_error.splits)

lemma drop_channel_wf: "drop_channel c s = Some s' \<Longrightarrow> table_wf s \<Longrightarrow> table_wf s'"
  by (auto simp: drop_channel_def dest: close_if_inner_wf)

lemma close_channel_wf: "close_channel c s = Some (s', r) \<Longrightarrow> table_wf s \<Longrightarrow> table_wf s'"
  by (auto simp: close_channel_def dest: close_if_inner_wf split: sum.splits)

lemma close_if_wf: "close_if c f s = Some (s', r) \<Longrightarrow> table_wf s \<Longrightarrow> table_wf s'"
  by (auto simp: close_if_def dest: close_if_inner_wf split: sum.splits)

section \<open>Reachable sessions\<close>

text \<open>
  One step of a session: a packet arrives, the application calls an operation of one of its channels
  or polls one of its futures, or it transmits.  Between two steps the application does what it likes
  with its own memory.
\<close>

inductive plain_move :: "session \<Rightarrow> session \<Rightarrow> bool" where
  packet: "recv_packet p j s = Some (s', j') \<Longrightarrow> plain_move s s'"
| take_doc: "try_recv c s = Some (s', d) \<Longrightarrow> plain_move s s'"
| await_doc: "recv_poll c w s = Some (s', po) \<Longrightarrow> plain_move s s'"
| send_doc: "try_send c doc s = Some (s', res) \<Longrightarrow> plain_move s s'"
| await_send: "send_poll c w fut s = Some (s', fut', ps) \<Longrightarrow> plain_move s s'"
| await_flush: "flush_poll c w has_waited s = Some (s', waited, pf) \<Longrightarrow> plain_move s s'"
| close: "close_channel c s = Some (s', e) \<Longrightarrow> plain_move s s'"
| close_when: "close_if c cond s = Some (s', e) \<Longrightarrow> plain_move s s'"
| clone: "clone_channel c s = Some (s', c') \<Longrightarrow> plain_move s s'"
| drop: "drop_channel c s = Some s' \<Longrightarrow> plain_move s s'"
| sent: "transmit budget rto tr = Some (tr', packets) \<Longrightarrow> plain_move (tr_session tr) (tr_session tr')"
| memory: "plain_move s (s\<lparr> heap := h \<rparr>)"

text \<open>Besides, the application may send a document with a buffer for the reply.\<close>

inductive session_move :: "session \<Rightarrow> session \<Rightarrow> bool" where
  plain: "plain_move s s' \<Longrightarrow> session_move s s'"
| await_reply: "send_reply_poll c b w st s = Some (s', st', pr) \<Longrightarrow> session_move s s'"

text \<open>A session starts without a document that is being received.\<close>

definition no_active :: "session \<Rightarrow> bool" where
  "no_active s \<longleftrightarrow> list_all (\<lambda>e. case rs_doc e of Active _ \<Rightarrow> False | _ \<Rightarrow> True) (recv_table s)"

inductive session_reach :: "session \<Rightarrow> bool" where
  start: "no_active s \<Longrightarrow> session_reach s"
| move: "session_reach s \<Longrightarrow> session_move s s' \<Longrightarrow> session_reach s'"

lemma plain_move_wf: "plain_move s s' \<Longrightarrow> table_wf s \<Longrightarrow> table_wf s'"
  by (induction rule: plain_move.induct)
     (auto simp: try_send_def dest: recv_packet_wf try_recv_wf recv_poll_wf try_send_any_wf send_poll_wf
       wf.flush_poll_keeps close_channel_wf close_if_wf wf.clone_channel_keeps drop_channel_wf wf.transmit_keeps)

lemma session_move_wf: "session_move s s' \<Longrightarrow> table_wf s \<Longrightarrow> table_wf s'"
  by (induction rule: session_move.induct) (auto dest: plain_move_wf send_reply_poll_wf)

lemma no_active_wf: "no_active s \<Longrightarrow> table_wf s"
  by (auto simp: no_active_def table_wf_def slot_wf_def list_all_iff split: recv_doc_state.splits)

lemma session_reach_wf: "session_reach s \<Longrightarrow> table_wf s"
  by (induction rule: session_reach.induct) (auto dest: session_move_wf no_active_wf)

lemma recv_doc_seg_returns:
  assumes "doc_wf d" and "rd_mem d = Simple b" and "off + length seg < usize_bound"
  shows "\<exists>d' h' r. recv_doc_seg d off seg h = Some (d', h', r)"
proof (cases "seg = [] \<or> off + length seg > length b")
  case True
  then show ?thesis using assms(2,3) by (auto simp: recv_doc_seg_def Let_def doc_mem_len_def checked_add_def)
next
  case False
  then show ?thesis using recv_doc_seg_marks [OF assms(2), of seg off h] assms(1,2) by (auto simp: doc_wf_def)
qed


text \<open>The first three bytes of document 8, which has five.\<close>

lemma sample_started_parse:
  "parse_seg 0x16 [0x16, 8, 5, 3, 10, 20, 30] (Suc 0) = Some (Inr ((sample_parsed [10, 20, 30])\<lparr> ps_doc_len := Some 5 \<rparr>), 7)"
  by (simp add: parse_seg_def sample_parsed_def has_flag_def VARIANT_SEG_FLAG_HAS_SPECIAL_PARENT_def
    VARIANT_SEG_FLAG_HAS_DOC_LEN_def VARIANT_SEG_FLAG_IS_SINGLE_SEG_def VARIANT_SEG_FLAG_IS_FIRST_def VARIANT_SEG_FLAG_IS_CLOSED_def
    varu64_try_read_def varusize_try_read_def impl_try_read_def checked_add_def usize_bound_def parse_data_def VARIANT_SEG_LEN_MASK_def
    VARIANT_SEG_IS_TERMINATOR_def)

lemma sample_started:
  obtains s' e d where "recv_packet [0x16, 8, 5, 3, 10, 20, 30] 0 sample_session = Some (s', 7)" and "recv_table s' = [e]"
    and "rs_doc e = Active d" and "rd_mem d = Simple [10, 20, 30, 0, 0]" and "send_bytes_max s' = 1000"
proof -
  define p where "p = (sample_parsed [10, 20, 30])\<lparr> ps_doc_len := Some 5 \<rparr>"
  have parse: "parse_seg 0x16 [0x16, 8, 5, 3, 10, 20, 30] (Suc 0) = Some (Inr p, 7)" using sample_started_parse by (simp add: p_def)
  obtain d where "recv_doc_seg (new_doc p 5 None) 0 [10, 20, 30] (heap sample_session) =
      Some (d, heap sample_session, Inr (card (seg_marks 0 (Suc (Suc (Suc 0)))) = 5))"
    and "rd_mem d = Simple ([10, 20, 30] @ drop 3 (replicate 5 0))"
    using recv_doc_seg_marks [of "new_doc p 5 None" "replicate 5 0" "[10, 20, 30]" 0 "heap sample_session"] rmarks_replicate_0 [of 1]
    by (auto simp: new_doc_def usize_bound_def)
  moreover have "card (seg_marks 0 (Suc (Suc (Suc 0)))) \<le> card {0::nat..<3}" by (rule card_mono) (auto simp: seg_marks_def)
  ultimately have d: "recv_doc_seg (new_doc p 5 None) 0 [10, 20, 30] (heap sample_session) = Some (d, heap sample_session, Inr False)"
    "rd_mem d = Simple [10, 20, 30, 0, 0]"
    by (simp_all add: numeral_2_eq_2)
  have "\<exists>s' e. create_doc p 0 sample_session = Some (s', Inr ()) \<and> recv_table s' = [e] \<and> rs_doc e = Active d \<and> send_bytes_max s' = 1000"
    using d(1) by (simp add: create_doc_def p_def sample_parsed_def sample_session_def slot_is_fin_def checked_add_def usize_bound_def
      reply_mem_def reserve_slot_def set_recv_slot_def first_seg_def drop_flushers_def drop_closed_channel_def wake_all_def)
  moreover have "\<not> is_sending sample_session 8" "slot_idx 8 (recv_table sample_session) = Some 0"
    "rs_doc_no (recv_table sample_session ! 0) = 0" "ps_doc_no p = 8"
    by (simp_all add: sample_session_def p_def sample_parsed_def is_sending_def slot_idx_def)
  ultimately obtain s' e where r: "recv_seg 0x16 [0x16, 8, 5, 3, 10, 20, 30] (Suc 0) sample_session = Some (s', 7, Inr ())"
    and e: "recv_table s' = [e]" "rs_doc e = Active d" "send_bytes_max s' = 1000"
    using parse by (auto simp: recv_seg_def)
  have "recv_packet [0x16, 8, 5, 3, 10, 20, 30] 7 s' = Some (s', 7)" by (subst recv_packet.simps) simp
  then have "recv_packet [0x16, 8, 5, 3, 10, 20, 30] 0 sample_session = Some (s', 7)"
    by (subst recv_packet.simps) (simp add: VARIANT_SEG_MIN_def VARIANT_SEG_MAX_def VARIANT_NULL_TERMINATOR_def r)
  then show thesis using that e d(2) by blast
qed


end
