(* ===== verification/Recv_Bytes.thy ===== *)
theory Recv_Bytes
  imports Session_Inv
begin

text \<open>
  The memory of a session.  \<open>recv_bytes_total\<close> is to bound the bytes of all documents that the session
  holds for its application: those being received, those that wait in a channel and the orphans.  It is
  raised when a document is announced, never above \<open>recv_bytes_max\<close>, and lowered by an atomic operation
  that would wrap around.  The lemmas follow the bytes from one place to the next; what an operation has
  taken from one place and not yet put down anywhere is in hand.
\<close>

section \<open>The bytes a session holds\<close>

definition docs_bytes :: "unfinished_recv_doc list \<Rightarrow> nat" where
  "docs_bytes ds = (\<Sum>d\<leftarrow>ds. length (ur_buf d))"

definition chan_bytes :: "open_channel option \<Rightarrow> nat" where
  "chan_bytes c = (case c of None \<Rightarrow> 0 | Some ch \<Rightarrow> docs_bytes (ready_docs ch))"

definition state_bytes :: "recv_doc_state \<Rightarrow> nat" where
  "state_bytes st = (case st of Active d \<Rightarrow> (case rd_mem d of Simple b \<Rightarrow> length b | ReplyBuf _ _ \<Rightarrow> 0) | _ \<Rightarrow> 0)"

definition slot_bytes :: "recv_slot \<Rightarrow> nat" where
  "slot_bytes e = state_bytes (rs_doc e) + chan_bytes (rs_channel e) + docs_bytes (rs_adoptable_orphans e)"

definition held_bytes :: "session \<Rightarrow> nat" where
  "held_bytes s = (\<Sum>e\<leftarrow>recv_table s. slot_bytes e) + (\<Sum>e\<leftarrow>send_table s. chan_bytes (ss_channel e))"

text \<open>No channel has a reply buffer, and no document is received into one.\<close>

definition chan_plain :: "open_channel option \<Rightarrow> bool" where
  "chan_plain c = (case c of None \<Rightarrow> True | Some ch \<Rightarrow> reply_buffer ch = NoReply)"

definition slot_plain :: "recv_slot \<Rightarrow> bool" where
  "slot_plain e \<longleftrightarrow> chan_plain (rs_channel e) \<and>
     (case rs_doc e of Active d \<Rightarrow> (case rd_mem d of Simple _ \<Rightarrow> True | ReplyBuf _ _ \<Rightarrow> False) | _ \<Rightarrow> True)"

definition no_reply_buffers :: "session \<Rightarrow> bool" where
  "no_reply_buffers s \<longleftrightarrow> list_all slot_plain (recv_table s) \<and> list_all (\<lambda>e. chan_plain (ss_channel e)) (send_table s)"

text \<open>The invariant for the limit \<open>mx\<close>, with \<open>x\<close> bytes in hand.\<close>

definition bytes_ok :: "nat \<Rightarrow> nat \<Rightarrow> session \<Rightarrow> bool" where
  "bytes_ok mx x s \<longleftrightarrow> held_bytes s + x \<le> recv_bytes_total s \<and> recv_bytes_total s \<le> mx \<and> recv_bytes_max s = mx \<and>
     mx < usize_bound \<and> no_reply_buffers s"

lemma docs_bytes_simps [simp]:
  "docs_bytes [] = 0" "docs_bytes (d # ds) = length (ur_buf d) + docs_bytes ds"
  "docs_bytes (ds @ es) = docs_bytes ds + docs_bytes es" "docs_bytes (rev ds) = docs_bytes ds"
  by (simp_all add: docs_bytes_def rev_map [symmetric])

lemma docs_bytes_last: "ds \<noteq> [] \<Longrightarrow> docs_bytes ds = docs_bytes (butlast ds) + length (ur_buf (last ds))"
  using docs_bytes_simps(3) [of "butlast ds" "[last ds]"] by simp

lemma chan_bytes_simps [simp]: "chan_bytes None = 0" "chan_bytes (Some ch) = docs_bytes (ready_docs ch)"
  by (simp_all add: chan_bytes_def)

lemma chan_plain_simps [simp]: "chan_plain None" "chan_plain (Some ch) \<longleftrightarrow> reply_buffer ch = NoReply"
  by (simp_all add: chan_plain_def)

lemma slot_bytes_simps [simp]:
  "slot_bytes (e\<lparr> rs_needs_send_control := b \<rparr>) = slot_bytes e" "slot_bytes (e\<lparr> rs_doc_no := n \<rparr>) = slot_bytes e"
  "slot_bytes (e\<lparr> rs_orphans_expected_parent_no := q \<rparr>) = slot_bytes e"
  "slot_plain (e\<lparr> rs_needs_send_control := b \<rparr>) = slot_plain e" "slot_plain (e\<lparr> rs_doc_no := n \<rparr>) = slot_plain e"
  "slot_plain (e\<lparr> rs_orphans_expected_parent_no := q \<rparr>) = slot_plain e"
  "slot_plain (e\<lparr> rs_adoptable_orphans := os \<rparr>) = slot_plain e"
  by (simp_all add: slot_bytes_def slot_plain_def)

lemma fin_state_bytes: "slot_is_fin d \<Longrightarrow> state_bytes d = 0"
  by (auto simp: slot_is_fin_def state_bytes_def split: recv_doc_state.splits)

lemma state_bytes_simps [simp]:
  "state_bytes (Active d) = (case rd_mem d of Simple b \<Rightarrow> length b | ReplyBuf _ _ \<Rightarrow> 0)" "state_bytes ActiveReserved = 0"
  "state_bytes (Finishing ws) = 0" "state_bytes FinParentClose = 0" "state_bytes FinAck = 0"
  by (simp_all add: state_bytes_def)

section \<open>Steps that move bytes\<close>

lemma bytes_ok_mono: "bytes_ok mx x s \<Longrightarrow> y \<le> x \<Longrightarrow> bytes_ok mx y s"
  by (auto simp: bytes_ok_def)

lemma bytes_ok_plain:
  assumes "bytes_ok mx x s"
  shows "i < length (recv_table s) \<Longrightarrow> slot_plain (recv_table s ! i)"
    and "i < length (send_table s) \<Longrightarrow> chan_plain (ss_channel (send_table s ! i))"
  using assms by (simp_all add: bytes_ok_def no_reply_buffers_def list_all_length)

lemma list_all_update: "list_all P xs \<Longrightarrow> P y \<Longrightarrow> list_all P (xs[i := y])"
  using set_update_subset_insert [of xs i y] by (auto simp: list_all_iff)

lemma bytes_ok_recv_slot:
  assumes "bytes_ok mx x s" and "i < length (recv_table s)" and "slot_plain e" and "slot_bytes e + y \<le> slot_bytes (recv_table s ! i) + x"
  shows "bytes_ok mx y (set_recv_slot i e s)"
  using assms sum_list_update_nat [OF assms(2), of slot_bytes e]
  by (auto simp: bytes_ok_def held_bytes_def no_reply_buffers_def set_recv_slot_def intro: list_all_update)

lemma bytes_ok_send_slot:
  assumes "bytes_ok mx x s" and "i < length (send_table s)" and "chan_plain (ss_channel e)"
    and "chan_bytes (ss_channel e) + y \<le> chan_bytes (ss_channel (send_table s ! i)) + x"
  shows "bytes_ok mx y (set_send_slot i e s)"
  using assms sum_list_update_nat [OF assms(2), of "\<lambda>e. chan_bytes (ss_channel e)" e]
  by (auto simp: bytes_ok_def held_bytes_def no_reply_buffers_def set_send_slot_def intro: list_all_update)

lemma bytes_ok_sub:
  assumes "bytes_ok mx (l + x) s"
  shows "bytes_ok mx x (s\<lparr> recv_bytes_total := fetch_sub (recv_bytes_total s) l \<rparr>)"
proof -
  have "l \<le> recv_bytes_total s" "recv_bytes_total s < usize_bound" using assms by (auto simp: bytes_ok_def)
  then have "fetch_sub (recv_bytes_total s) l = recv_bytes_total s - l"
    by (simp add: fetch_sub_def) (metis Nat.add_diff_assoc2 less_imp_diff_less mod_add_self2 mod_less)
  then show ?thesis using assms by (auto simp: bytes_ok_def held_bytes_def no_reply_buffers_def)
qed

lemma bytes_ok_add:
  "bytes_ok mx x s \<Longrightarrow> checked_add (recv_bytes_total s) l = Some t \<Longrightarrow> t \<le> recv_bytes_max s \<Longrightarrow> bytes_ok mx (l + x) (s\<lparr> recv_bytes_total := t \<rparr>)"
  by (auto simp: bytes_ok_def held_bytes_def no_reply_buffers_def checked_add_def split: if_splits)

lemma bytes_ok_other [simp]:
  "bytes_ok mx x (wake_all ws s) = bytes_ok mx x s" "bytes_ok mx x (drop_doc_state d s) = bytes_ok mx x s"
  "bytes_ok mx x (schedule_send_control v n s) = bytes_ok mx x s" "bytes_ok mx x (wake_opt w s) = bytes_ok mx x s"
  "bytes_ok mx x (reply_wake r s) = bytes_ok mx x s" "bytes_ok mx x (drop_flushers ws s) = bytes_ok mx x s" "bytes_ok mx x (abandon s) = bytes_ok mx x s"
  "bytes_ok mx x (s\<lparr> heap := h \<rparr>) = bytes_ok mx x s" "bytes_ok mx x (s\<lparr> send_total := k \<rparr>) = bytes_ok mx x s"
  "bytes_ok mx x (s\<lparr> send_bytes_total := b \<rparr>) = bytes_ok mx x s" "bytes_ok mx x (s\<lparr> send_doc_no := n \<rparr>) = bytes_ok mx x s"
  "bytes_ok mx x (s\<lparr> send_wakers := ws \<rparr>) = bytes_ok mx x s" "bytes_ok mx x (s\<lparr> send_queue := ns \<rparr>) = bytes_ok mx x s"
  by (simp_all add: bytes_ok_def held_bytes_def no_reply_buffers_def wake_opt_def reply_wake_def drop_flushers_def abandon_def wake_all_def
      drop_doc_state_def schedule_send_control_def split: option.splits special_reply_state.splits recv_doc_state.splits)

lemma bytes_ok_update_channel:
  assumes "update_channel n f s = Some (s', r)" and ok: "bytes_ok mx x s"
    and f: "\<And>ch. reply_buffer ch = NoReply \<Longrightarrow> reply_buffer (fst (f ch)) = NoReply \<and>
      docs_bytes (ready_docs (fst (f ch))) + w (snd (f ch)) \<le> docs_bytes (ready_docs ch)"
  shows "bytes_ok mx (x + (case r of None \<Rightarrow> 0 | Some q \<Rightarrow> w q)) s'"
proof -
  have "bytes_ok mx (x + w (snd (f ch))) (set_send_slot i ((send_table s ! i)\<lparr> ss_channel := Some (fst (f ch)) \<rparr>) s)"
    if "i < length (send_table s)" "ss_channel (send_table s ! i) = Some ch" for i ch
    using bytes_ok_send_slot [OF ok that(1)] bytes_ok_plain(2) [OF ok that(1)] that(2) f [of ch] by simp
  moreover have "bytes_ok mx (x + w (snd (f ch))) (set_recv_slot i ((recv_table s ! i)\<lparr> rs_channel := Some (fst (f ch)) \<rparr>) s)"
    if "i < length (recv_table s)" "rs_channel (recv_table s ! i) = Some ch" for i ch
    using bytes_ok_recv_slot [OF ok that(1)] bytes_ok_plain(1) [OF ok that(1)] that(2) f [of ch] by (simp add: slot_plain_def slot_bytes_def)
  ultimately show ?thesis
    using assms(1) ok
    by (auto simp: update_channel_def Let_def set_send_slot_def set_recv_slot_def case_prod_beta dest: slot_idx_less split: option.splits if_splits)
qed

section \<open>Dropping documents\<close>

lemma drop_one_bytes:
  assumes "drop_one n l s = Some (s', docs)" and "bytes_ok mx (l + x) s"
  shows "bytes_ok mx (docs_bytes docs + x) s'"
proof -
  define s1 where "s1 = schedule_send_control VARIANT_CONTROL_FIN_PARENT_CLOSED n (s\<lparr> recv_bytes_total := fetch_sub (recv_bytes_total s) l \<rparr>)"
  have s1: "bytes_ok mx x s1" using bytes_ok_sub [OF assms(2)] by (simp add: s1_def)
  obtain i where i: "slot_idx n (recv_table s1) = Some i" "i < length (recv_table s1)"
    using assms(1) by (auto simp: drop_one_def Let_def s1_def [symmetric] dest: slot_idx_less split: option.splits)
  let ?e = "recv_table s1 ! i"
  have "bytes_ok mx (chan_bytes (rs_channel ?e) + x)
      (set_recv_slot i (?e\<lparr> rs_doc := FinParentClose, rs_channel := None, rs_needs_send_control := True \<rparr>) (drop_doc_state (rs_doc ?e) s1))"
    if "slot_is_fin (rs_doc ?e)"
    using s1 i(2) that by (intro bytes_ok_recv_slot [where x = x]) (simp_all add: slot_plain_def slot_bytes_def)
  then show ?thesis
    using assms(1) i(1) s1
    by (auto simp: drop_one_def Let_def s1_def [symmetric] split: option.splits if_splits)
qed

lemma drop_loop_bytes: "drop_loop stack s = Some s' \<Longrightarrow> bytes_ok mx ((\<Sum>(n, l)\<leftarrow>stack. l) + x) s \<Longrightarrow> bytes_ok mx x s'"
proof (induction stack s rule: drop_loop.induct)
  case (2 n l stack s)
  obtain s1 docs where 1: "drop_one n l s = Some (s1, docs)" using 2(2) by (auto split: option.splits)
  have "bytes_ok mx (docs_bytes docs + ((\<Sum>(n, l)\<leftarrow>stack. l) + x)) s1" using drop_one_bytes [OF 1] 2(3) by (simp add: add.assoc)
  then show ?case using 2(1) [OF 1 refl] 2(2) 1 by (simp add: docs_bytes_def add.assoc o_def)
qed simp

lemma drop_unfinished_bytes: "drop_unfinished_recv_doc n l s = Some s' \<Longrightarrow> bytes_ok mx (l + x) s \<Longrightarrow> bytes_ok mx x s'"
  using drop_loop_bytes [of "[(n, l)]" s s' mx x] by (simp add: drop_unfinished_recv_doc_def del: drop_loop.simps)

lemma drop_docs_bytes: "drop_unfinished_docs ds s = Some s' \<Longrightarrow> bytes_ok mx (docs_bytes ds + x) s \<Longrightarrow> bytes_ok mx x s'"
proof (induction ds arbitrary: s)
  case (Cons d ds)
  then obtain s1 where 1: "drop_unfinished_recv_doc (ur_doc_no d) (length (ur_buf d)) s = Some s1" "drop_unfinished_docs ds s1 = Some s'"
    by (auto split: bind_splits)
  then show ?case using Cons.IH [OF 1(2)] drop_unfinished_bytes [OF 1(1)] Cons.prems(2) by (simp add: add.assoc)
qed simp

lemma drop_closed_channel_bytes: "drop_closed_channel ch s = Some s' \<Longrightarrow> bytes_ok mx (chan_bytes ch + x) s \<Longrightarrow> bytes_ok mx x s'"
  by (auto simp: drop_closed_channel_def dest!: drop_docs_bytes [where x = x] split: option.splits bind_splits)

section \<open>Receiving\<close>

lemma post_to_channel_bytes:
  "post_to_channel d n c ch = Some (ch', w) \<Longrightarrow> rd_mem d = Simple b \<Longrightarrow>
     docs_bytes (ready_docs ch') = docs_bytes (ready_docs ch) + length b \<and> reply_buffer ch' = reply_buffer ch"
  by (auto simp: post_to_channel_def Let_def split: if_splits)

lemma fin_to_parent_bytes:
  assumes "fin_to_parent n d p c s = Some (s', r)" and d: "rd_mem d = Simple b" "rd_total_recv d = length b" and ok: "bytes_ok mx (length b + x) s"
  shows "bytes_ok mx x s'"
proof -
  have le: "bytes_ok mx x s" using bytes_ok_mono [OF ok] by simp
  show ?thesis
  proof (cases "is_sending s p")
    case True
    then obtain i where i: "slot_idx p (send_table s) = Some i" "i < length (send_table s)"
      using assms(1) by (auto simp: fin_to_parent_def dest: slot_idx_less split: bind_splits)
    have "bytes_ok mx x (set_send_slot i ((send_table s ! i)\<lparr> ss_channel := Some ch' \<rparr>) s)"
      if "ss_channel (send_table s ! i) = Some ch" "post_to_channel d n c ch = Some (ch', w)" for ch ch' w
      using bytes_ok_send_slot [OF ok i(2)] bytes_ok_plain(2) [OF ok i(2)] post_to_channel_bytes [OF that(2) d(1)] that(1) by simp
    then show ?thesis
      using assms(1) True i(1) d le drop_unfinished_bytes [OF _ ok]
      by (auto simp: fin_to_parent_def Let_def split: option.splits if_split_asm bind_splits)
  next
    case False
    then obtain i where i: "slot_idx p (recv_table s) = Some i" "i < length (recv_table s)"
      using assms(1) by (auto simp: fin_to_parent_def dest: slot_idx_less split: bind_splits)
    have "bytes_ok mx x (set_recv_slot i ((recv_table s ! i)\<lparr> rs_channel := Some ch' \<rparr>) s)"
      if "rs_channel (recv_table s ! i) = Some ch" "post_to_channel d n c ch = Some (ch', w)" for ch ch' w
      using bytes_ok_recv_slot [OF ok i(2)] bytes_ok_plain(1) [OF ok i(2)] post_to_channel_bytes [OF that(2) d(1)] that(1)
      by (simp add: slot_plain_def slot_bytes_def)
    moreover have "bytes_ok mx x (set_recv_slot i ((recv_table s ! i)\<lparr> rs_orphans_expected_parent_no := q,
        rs_adoptable_orphans := rs_adoptable_orphans (recv_table s ! i) @ [u] \<rparr>) s)" if "ur_buf u = b" for q u
      using bytes_ok_recv_slot [OF ok i(2)] bytes_ok_plain(1) [OF ok i(2)] that by (simp add: slot_bytes_def slot_plain_def)
    ultimately show ?thesis
      using assms(1) False i(1) d le drop_unfinished_bytes [OF _ ok]
      by (auto simp: fin_to_parent_def Let_def split: option.splits if_split_asm bind_splits)
  qed
qed

lemma fin_doc_bytes:
  assumes "fin_doc n i s = Some (s', r)" and i: "i < length (recv_table s)" and d: "rs_doc (recv_table s ! i) = Active d" "rd_mem d = Simple b"
    and "rd_total_recv d = length b" and ok: "bytes_ok mx x s"
  shows "bytes_ok mx x s'"
proof -
  have "bytes_ok mx (length b + x) (set_recv_slot i ((recv_table s ! i)\<lparr> rs_doc := Finishing [], rs_channel := c \<rparr>) s)"
    if "chan_bytes c = chan_bytes (rs_channel (recv_table s ! i))" "chan_plain c" for c
    using bytes_ok_recv_slot [OF ok i] that d by (simp add: slot_bytes_def slot_plain_def)
  note set = this [of "rs_channel (recv_table s ! i)"]
    this [of "map_option (\<lambda>ch. ch\<lparr> ref_count := ref_count ch + 1 \<rparr>) (rs_channel (recv_table s ! i))"]
  have p: "chan_plain (rs_channel (recv_table s ! i))" using bytes_ok_plain(1) [OF ok i] by (simp add: slot_plain_def)
  show ?thesis
  proof (cases "rd_parent_no d")
    case None
    then show ?thesis using assms(1) d(1) set(1) p bytes_ok_mono [of mx "length b + x" _ x] by (auto simp: fin_doc_def Let_def)
  next
    case (Some q)
    have "bytes_ok mx (length b + x) (set_recv_slot i ((recv_table s ! i)\<lparr> rs_doc := Finishing [],
        rs_channel := map_option (\<lambda>ch. ch\<lparr> ref_count := ref_count ch + 1 \<rparr>) (rs_channel (recv_table s ! i)) \<rparr>) s)"
      using set(2) p by (cases "rs_channel (recv_table s ! i)") auto
    then show ?thesis using assms(1,5) d Some fin_to_parent_bytes [OF _ d(2) assms(5)] by (auto simp: fin_doc_def Let_def)
  qed
qed

text \<open>A segment leaves the size of the memory of a document alone, and a complete document has counted all of it.\<close>

lemma recv_doc_seg_bytes:
  assumes "doc_wf d" and "rd_mem d = Simple b" and "recv_doc_seg d off seg h = Some (d', h', r)"
  obtains b' where "rd_mem d' = Simple b'" and "length b' = length b" and "r = Inr True \<Longrightarrow> rd_total_recv d' = length b'"
proof -
  obtain b' where b': "rd_mem d' = Simple b'" "length b' = length b"
    using assms(2,3)
    by (auto simp: recv_doc_seg_def Let_def doc_mem_write_def copy_range_def split: if_split_asm bind_splits)
  have "rd_total_recv d' = length b'" if "r = Inr True"
    using recv_doc_seg_wf [OF assms(1,3)] assms(2) b' that by (simp add: doc_wf_def)
  then show thesis using that b' by blast
qed

lemma slot_plain_active: "slot_plain e \<Longrightarrow> rs_doc e = Active d \<Longrightarrow> \<exists>b. rd_mem d = Simple b"
  by (auto simp: slot_plain_def split: doc_mem.splits)

text \<open>What the two kinds of segments have in common: the segment is stored, and a complete document is finished.\<close>

lemma stored_seg_bytes:
  assumes seg: "recv_doc_seg d off seg h = Some (d', h', r)" and d: "doc_wf d" "rd_mem d = Simple b"
    and i: "i < length (recv_table s)" and e: "slot_plain e" "slot_bytes (e\<lparr> rs_doc := Active d \<rparr>) + y \<le> slot_bytes (recv_table s ! i) + x"
    and ok: "bytes_ok mx x s" and r: "r = Inr b'"
    and s': "(if b' then fin_doc n i (set_recv_slot i (e\<lparr> rs_doc := Active d' \<rparr>) s)
      else Some (set_recv_slot i (e\<lparr> rs_doc := Active d' \<rparr>) s, Inr ())) = Some (s', ret)"
  shows "bytes_ok mx y s'"
proof -
  obtain m where m: "rd_mem d' = Simple m" "length m = length b" "r = Inr True \<Longrightarrow> rd_total_recv d' = length m"
    using recv_doc_seg_bytes [OF d seg] by blast
  have set: "bytes_ok mx y (set_recv_slot i (e\<lparr> rs_doc := Active d' \<rparr>) s)"
    using bytes_ok_recv_slot [OF ok i] e m(1,2) d(2) by (simp add: slot_plain_def slot_bytes_def)
  show ?thesis
  proof (cases b')
    case True
    then show ?thesis using s' r m i fin_doc_bytes [OF _ _ _ m(1) m(3) set] by simp
  qed (use s' set in simp)
qed

lemma update_doc_bytes:
  assumes s': "update_doc p i s = Some (s', r)" and i: "i < length (recv_table s)" and wf: "table_wf s" and ok: "bytes_ok mx x s"
  shows "bytes_ok mx x s'"
proof -
  define e where "e = (if ps_is_closed p then (recv_table s ! i)\<lparr> rs_channel := None \<rparr> else recv_table s ! i)"
  define ch where "ch = (if ps_is_closed p then rs_channel (recv_table s ! i) else None)"
  have e: "slot_plain e" "slot_bytes e + (chan_bytes ch + x) \<le> slot_bytes (recv_table s ! i) + x" "slot_wf e"
    using bytes_ok_plain(1) [OF ok i] table_wf_nth [OF wf i] by (simp_all add: e_def ch_def slot_plain_def slot_bytes_def)
  have set: "bytes_ok mx (chan_bytes ch + x) (set_recv_slot i e s)" by (rule bytes_ok_recv_slot [OF ok i e(1,2)])
  show ?thesis
  proof (cases "rs_doc e")
    case (Active d)
    obtain b where b: "rd_mem d = Simple b" using slot_plain_active [OF e(1) Active] by blast
    have d: "doc_wf d" using e(3) Active by (simp add: slot_wf_def)
    have same: "slot_bytes (e\<lparr> rs_doc := Active d \<rparr>) = slot_bytes e" using Active by (simp add: slot_bytes_def)
    obtain d' h result s1 where seg: "recv_doc_seg d (ps_seg_off p) (ps_seg p) (heap s) = Some (d', h, result)"
      and s1: "(case result of Inr False \<Rightarrow> Some (set_recv_slot i (e\<lparr> rs_doc := Active d' \<rparr>) ((set_recv_slot i e s)\<lparr> heap := h \<rparr>), Inr ())
         | Inr True \<Rightarrow> fin_doc (ps_doc_no p) i (set_recv_slot i (e\<lparr> rs_doc := Active d' \<rparr>) ((set_recv_slot i e s)\<lparr> heap := h \<rparr>))
         | Inl err \<Rightarrow> Some (set_recv_slot i (e\<lparr> rs_doc := Active d' \<rparr>) ((set_recv_slot i e s)\<lparr> heap := h \<rparr>), Inl err)) = Some (s1, r)"
      and fin: "drop_closed_channel ch s1 = Some s'"
      using s' Active unfolding update_doc_def Let_def e_def [symmetric] ch_def [symmetric]
      by (auto simp: set_recv_slot_def split: bind_splits)
    let ?s = "(set_recv_slot i e s)\<lparr> heap := h \<rparr>"
    have ok': "bytes_ok mx (chan_bytes ch + x) ?s" using set by simp
    have "bytes_ok mx (chan_bytes ch + x) s1"
    proof (cases result)
      case (Inl err)
      obtain m where m: "rd_mem d' = Simple m" "length m = length b" using recv_doc_seg_bytes [OF d b seg] by blast
      have "bytes_ok mx (chan_bytes ch + x) (set_recv_slot i (e\<lparr> rs_doc := Active d' \<rparr>) ?s)"
        using bytes_ok_recv_slot [OF ok', of i "e\<lparr> rs_doc := Active d' \<rparr>"] i e(1) m same b Active by (simp add: slot_plain_def slot_bytes_def)
      then show ?thesis using s1 Inl by simp
    next
      case (Inr done')
      have "(if done' then fin_doc (ps_doc_no p) i (set_recv_slot i (e\<lparr> rs_doc := Active d' \<rparr>) ?s)
        else Some (set_recv_slot i (e\<lparr> rs_doc := Active d' \<rparr>) ?s, Inr ())) = Some (s1, r)" using s1 Inr by (cases done') auto
      from stored_seg_bytes [OF seg d b _ e(1) _ ok' Inr this] show ?thesis using i same by simp
    qed
    then show ?thesis by (rule drop_closed_channel_bytes [OF fin])
  qed (use s' set in \<open>auto simp: update_doc_def Let_def e_def [symmetric] ch_def [symmetric] dest!: drop_closed_channel_bytes [where x = x] split: bind_splits\<close>)
qed

text \<open>Nobody lends a buffer: the bytes of an address range that \<open>try_incoming\<close> returned would not fit.\<close>

lemma reply_mem_bytes:
  assumes "reply_mem p s = Some (s', m)" and ok: "bytes_ok mx x s"
  shows "bytes_ok mx x s'" and "m = None"
proof -
  let ?f = "\<lambda>ch. let (reply, range) = try_incoming (reply_buffer ch) in (ch\<lparr> reply_buffer := reply \<rparr>, range)"
  let ?w = "\<lambda>range :: (address \<times> address) option. case range of None \<Rightarrow> 0 | Some _ \<Rightarrow> usize_bound"
  have *: "bytes_ok mx x s2 \<and> Option.bind r (map_option g) = None" if "update_channel n ?f s = Some (s2, r)" for n s2 r g
  proof -
    have "bytes_ok mx (x + (case r of None \<Rightarrow> 0 | Some q \<Rightarrow> ?w q)) s2"
      by (rule bytes_ok_update_channel [OF that ok]) (simp add: try_incoming_def)
    then show ?thesis by (auto simp: bytes_ok_def split: option.splits)
  qed
  show "bytes_ok mx x s'" "m = None"
    using assms(1) ok * [of _ _ _ "\<lambda>(a, e). ReplyBuf a e"] by (auto simp: reply_mem_def split: option.splits bind_splits)
qed

lemma first_seg_bytes:
  assumes s': "first_seg p i d s = Some (s', r)" and d: "doc_wf d" "rd_mem d = Simple b" and i: "i < length (recv_table s)"
    and ok: "bytes_ok mx (length b + x) s"
  shows "bytes_ok mx x s'"
proof -
  define e where "e = recv_table s ! i"
  have e: "slot_plain e" "rs_doc e = ActiveReserved" using bytes_ok_plain(1) [OF ok i] s' by (auto simp: e_def first_seg_def Let_def split: if_splits)
  obtain d' h result where seg: "recv_doc_seg d (ps_seg_off p) (ps_seg p) (heap s) = Some (d', h, result)"
    and fin: "(case result of Inr False \<Rightarrow> Some (set_recv_slot i (e\<lparr> rs_doc := Active d' \<rparr>) (s\<lparr> heap := h \<rparr>), Inr ())
      | Inr True \<Rightarrow> fin_doc (ps_doc_no p) i (set_recv_slot i (e\<lparr> rs_doc := Active d' \<rparr>) (s\<lparr> heap := h \<rparr>))
      | Inl err \<Rightarrow> Some (s\<lparr> heap := h \<rparr>, Inl err)) = Some (s', r)"
    using s' unfolding first_seg_def Let_def e_def [symmetric] by (auto split: if_splits bind_splits)
  have ok': "bytes_ok mx (length b + x) (s\<lparr> heap := h \<rparr>)" using ok by simp
  show ?thesis
  proof (cases result)
    case (Inl err)
    then show ?thesis using fin bytes_ok_mono [OF ok', of x] by simp
  next
    case (Inr c)
    have "(if c then fin_doc (ps_doc_no p) i (set_recv_slot i (e\<lparr> rs_doc := Active d' \<rparr>) (s\<lparr> heap := h \<rparr>))
      else Some (set_recv_slot i (e\<lparr> rs_doc := Active d' \<rparr>) (s\<lparr> heap := h \<rparr>), Inr ())) = Some (s', r)"
      using fin Inr by (cases c) auto
    from stored_seg_bytes [OF seg d _ e(1) _ ok' Inr this, of x] show ?thesis
      using i e(2) d(2) by (simp add: slot_bytes_def flip: e_def)
  qed
qed

lemma reserve_slot_bytes:
  assumes ok: "bytes_ok mx x s" and i: "i < length (recv_table s)" and fin: "slot_is_fin (rs_doc (recv_table s ! i))"
  shows "bytes_ok mx (docs_bytes (if ps_is_closed p then rs_adoptable_orphans (recv_table s ! i) else []) +
    (chan_bytes (rs_channel (recv_table s ! i)) + x)) (reserve_slot p i s)"
  unfolding reserve_slot_def Let_def
  by (rule bytes_ok_recv_slot [OF ok i]) (use fin_state_bytes [OF fin] in \<open>simp_all add: slot_plain_def slot_bytes_def\<close>)

lemma create_doc_bytes:
  assumes s': "create_doc p i s = Some (s', r)" and i: "i < length (recv_table s)" and ok: "bytes_ok mx x s"
  shows "bytes_ok mx x s'"
proof (cases "s' = s")
  case False
  define e where "e = recv_table s ! i"
  define fl where "fl = (case rs_doc e of Finishing f \<Rightarrow> f | _ \<Rightarrow> [])"
  define os where "os = (if ps_is_closed p then rs_adoptable_orphans e else [])"
  obtain len total s1 m s2 s3 where fin: "slot_is_fin (rs_doc e)"
    and total: "checked_add (recv_bytes_total s) len = Some total" "total \<le> recv_bytes_max s"
    and 1: "reply_mem p (reserve_slot p i (s\<lparr> recv_bytes_total := total \<rparr>)) = Some (s1, m)"
    and 2: "first_seg p i (new_doc p len m) s1 = Some (s2, r)"
    and 3: "drop_unfinished_docs os (drop_flushers fl s2) = Some s3"
    and 4: "drop_closed_channel (rs_channel e) s3 = Some s'"
    using s' False unfolding create_doc_def Let_def e_def [symmetric] fl_def [symmetric] os_def [symmetric]
    by (auto simp del: drop_unfinished_docs.simps split: option.splits if_split_asm bind_splits)
  let ?s = "s\<lparr> recv_bytes_total := total \<rparr>"
  have "bytes_ok mx (docs_bytes os + (chan_bytes (rs_channel e) + (len + x))) (reserve_slot p i ?s)"
    using reserve_slot_bytes [OF bytes_ok_add [OF ok total], of i p] i fin by (auto simp: e_def os_def split: if_splits)
  then have r: "bytes_ok mx (len + (docs_bytes os + (chan_bytes (rs_channel e) + x))) (reserve_slot p i ?s)" by (simp add: ac_simps)
  note m = reply_mem_bytes [OF 1 r]
  have "length (recv_table s1) = length (recv_table s)"
    using length_recv_table [OF reply_mem_nos [OF 1]] by (simp add: reserve_slot_def Let_def)
  moreover have "doc_wf (new_doc p len m)"
    using new_doc_wf [of len None p] total(1) m(2) by (auto simp: checked_add_def split: if_splits)
  moreover have "rd_mem (new_doc p len m) = Simple (replicate len 0)" using m(2) by (simp add: new_doc_def)
  ultimately have "bytes_ok mx (docs_bytes os + (chan_bytes (rs_channel e) + x)) (drop_flushers fl s2)"
    using first_seg_bytes [OF 2, of "replicate len 0"] i m(1) by simp
  then show ?thesis using drop_docs_bytes [OF 3] drop_closed_channel_bytes [OF 4] by blast
qed (use ok in simp)

lemma recv_seg_bytes: "recv_seg v packet j s = Some (s', j', r) \<Longrightarrow> table_wf s \<Longrightarrow> bytes_ok mx x s \<Longrightarrow> bytes_ok mx x s'"
  by (auto simp: recv_seg_def Let_def dest: update_doc_bytes [OF _ slot_idx_less] create_doc_bytes [OF _ slot_idx_less]
      split: option.splits sum.splits if_split_asm bind_splits)

lemma recv_packet_bytes: "recv_packet packet j s = Some (s', j') \<Longrightarrow> table_wf s \<Longrightarrow> bytes_ok mx x s \<Longrightarrow> bytes_ok mx x s'"
proof (induction packet j s rule: recv_packet.induct)
  case (1 packet j s)
  then show ?case
    by (subst (asm) (3) recv_packet.simps)
       (fastforce simp: Let_def dest: recv_seg_wf recv_seg_bytes split: if_split_asm option.splits sum.splits)
qed

section \<open>The operations of the application and of sending\<close>

lemma release_doc_bytes: "bytes_ok mx (length (ur_buf d) + x) s \<Longrightarrow> bytes_ok mx x (fst (release_doc d s))"
  by (simp add: release_doc_def bytes_ok_sub)

text \<open>The weight of what \<open>pop_ready\<close> returns.\<close>

definition popped_bytes :: "unfinished_recv_doc option \<Rightarrow> nat" where
  "popped_bytes r = (case r of None \<Rightarrow> 0 | Some d \<Rightarrow> length (ur_buf d))"

lemma pop_ready_bytes:
  "docs_bytes (ready_docs (fst (pop_ready ch))) + popped_bytes (snd (pop_ready ch)) = docs_bytes (ready_docs ch)"
  "reply_buffer (fst (pop_ready ch)) = reply_buffer ch"
  using docs_bytes_last [of "ready_docs ch"] by (auto simp: pop_ready_def popped_bytes_def)

text \<open>\<open>try_recv\<close> and \<open>RecvFuture\<close>: the document taken from a channel is counted off when it is handed over.\<close>

definition takes :: "(open_channel \<Rightarrow> open_channel \<times> unfinished_recv_doc option) \<Rightarrow> bool" where
  "takes f \<longleftrightarrow> (\<forall>ch. reply_buffer (fst (f ch)) = reply_buffer ch \<and>
     docs_bytes (ready_docs (fst (f ch))) + popped_bytes (snd (f ch)) \<le> docs_bytes (ready_docs ch))"

lemma taken_bytes:
  assumes "update_channel n f s = Some (s', r)" and "bytes_ok mx x s" and "takes f"
  shows "bytes_ok mx x (case r of Some (Some d) \<Rightarrow> fst (release_doc d s') | _ \<Rightarrow> s')"
proof -
  have "bytes_ok mx (x + (case r of None \<Rightarrow> 0 | Some q \<Rightarrow> popped_bytes q)) s'"
    by (rule bytes_ok_update_channel [OF assms(1,2)]) (use assms(3) in \<open>simp add: takes_def\<close>)
  then show ?thesis by (auto simp: popped_bytes_def add.commute intro: release_doc_bytes split: option.splits)
qed

lemma takes_pop_ready: "takes pop_ready"
  using pop_ready_bytes by (simp add: takes_def)

lemma takes_recv_poll:
  "takes (\<lambda>ch. case pop_ready ch of (ch, Some d) \<Rightarrow> (ch, Some d) | (ch, None) \<Rightarrow> (ch\<lparr> ready_wakers := ready_wakers ch @ [w] \<rparr>, None))"
  unfolding takes_def
proof
  fix ch
  show "reply_buffer (fst (case pop_ready ch of (ch, Some d) \<Rightarrow> (ch, Some d) | (ch, None) \<Rightarrow> (ch\<lparr> ready_wakers := ready_wakers ch @ [w] \<rparr>, None))) =
      reply_buffer ch \<and> docs_bytes (ready_docs (fst (case pop_ready ch of (ch, Some d) \<Rightarrow> (ch, Some d)
        | (ch, None) \<Rightarrow> (ch\<lparr> ready_wakers := ready_wakers ch @ [w] \<rparr>, None)))) +
      popped_bytes (snd (case pop_ready ch of (ch, Some d) \<Rightarrow> (ch, Some d) | (ch, None) \<Rightarrow> (ch\<lparr> ready_wakers := ready_wakers ch @ [w] \<rparr>, None)))
      \<le> docs_bytes (ready_docs ch)"
    using pop_ready_bytes [of ch] by (cases "pop_ready ch"; cases "snd (pop_ready ch)") (auto simp: popped_bytes_def)
qed

lemma try_recv_bytes:
  assumes "try_recv c s = Some (s', r)" and "bytes_ok mx x s"
  shows "bytes_ok mx x s'"
proof (cases "check_basic c s")
  case (Inr u)
  then obtain s1 q where 1: "update_channel (channel_doc_no c) pop_ready s = Some (s1, q)"
    and "s' = (case q of Some (Some d) \<Rightarrow> fst (release_doc d s1) | _ \<Rightarrow> s1)"
    using assms(1) by (auto simp: try_recv_def case_prod_beta split: bind_splits option.splits)
  then show ?thesis using taken_bytes [OF 1 assms(2) takes_pop_ready] by simp
qed (use assms in \<open>simp add: try_recv_def\<close>)

lemma recv_poll_bytes:
  assumes "recv_poll c w s = Some (s', r)" and "bytes_ok mx x s"
  shows "bytes_ok mx x s'"
proof (cases "check_basic c s")
  case (Inr u)
  then obtain s1 q where 1: "update_channel (channel_doc_no c) (\<lambda>ch. case pop_ready ch of (ch, Some d) \<Rightarrow> (ch, Some d)
      | (ch, None) \<Rightarrow> (ch\<lparr> ready_wakers := ready_wakers ch @ [w] \<rparr>, None)) s = Some (s1, q)"
    and 2: "(case q of None \<Rightarrow> Some (s1, Ready (Inl Closed)) | Some None \<Rightarrow> Some (s1, Pending)
      | Some (Some d) \<Rightarrow> (case release_doc d s1 of (s, doc) \<Rightarrow> Some (s, Ready (Inr doc)))) = Some (s', r)"
    using assms(1) unfolding recv_poll_def by (auto split: bind_splits)
  have "s' = (case q of Some (Some d) \<Rightarrow> fst (release_doc d s1) | _ \<Rightarrow> s1)"
    using 2 by (auto simp: case_prod_beta split: option.splits)
  then show ?thesis using taken_bytes [OF 1 assms(2) takes_recv_poll] by simp
qed (use assms in \<open>simp add: recv_poll_def\<close>)

lemma close_if_inner_bytes:
  assumes s': "close_if_inner c f s = Some (s', r)" and ok: "bytes_ok mx x s"
    and f: "\<And>ch ch' b. f ch = Some (ch', b) \<Longrightarrow> ready_docs ch' = ready_docs ch \<and> reply_buffer ch' = reply_buffer ch"
  shows "bytes_ok mx x s'"
proof -
  have send: "bytes_ok mx (chan_bytes (Some ch') + x) (set_send_slot i ((send_table s ! i)\<lparr> ss_channel := None, ss_needs_send_close := True \<rparr>) s)"
    "bytes_ok mx x (set_send_slot i ((send_table s ! i)\<lparr> ss_channel := Some ch' \<rparr>) s)"
    if "slot_idx n (send_table s) = Some i" "ss_channel (send_table s ! i) = Some ch" "f ch = Some (ch', b)" for i n ch ch' b
    using bytes_ok_send_slot [OF ok slot_idx_less [OF that(1)]] bytes_ok_plain(2) [OF ok slot_idx_less [OF that(1)]] that(2) f [OF that(3)] by simp_all
  have recv: "bytes_ok mx (chan_bytes (Some ch') + x) (set_recv_slot i ((recv_table s ! i)\<lparr> rs_channel := None, rs_needs_send_control := True \<rparr>) s)"
    "bytes_ok mx x (set_recv_slot i ((recv_table s ! i)\<lparr> rs_channel := Some ch' \<rparr>) s)"
    if "slot_idx n (recv_table s) = Some i" "rs_channel (recv_table s ! i) = Some ch" "f ch = Some (ch', b)" for i n ch ch' b
    using bytes_ok_recv_slot [OF ok slot_idx_less [OF that(1)]] bytes_ok_plain(1) [OF ok slot_idx_less [OF that(1)]] that(2) f [OF that(3)]
    by (simp_all add: slot_plain_def slot_bytes_def)
  have fin: "bytes_ok mx x s'" if "drop_closed_channel cl (schedule_send_control v n s1) = Some s'" "bytes_ok mx (chan_bytes cl + x) s1" for cl v n s1
    using drop_closed_channel_bytes [OF that(1)] that(2) by simp
  show ?thesis
    using s' ok send(2) recv(2) fin [OF _ send(1)] fin [OF _ recv(1)]
    by (auto simp: close_if_inner_def drop_closed_channel_def [of None] Let_def split: option.splits if_split_asm bind_splits)
qed

lemma close_bytes:
  "close_channel c s = Some (s', r) \<Longrightarrow> bytes_ok mx x s \<Longrightarrow> bytes_ok mx x s'"
  "close_if c b s = Some (s', r) \<Longrightarrow> bytes_ok mx x s \<Longrightarrow> bytes_ok mx x s'"
  "drop_channel c s = Some s' \<Longrightarrow> bytes_ok mx x s \<Longrightarrow> bytes_ok mx x s'"
  by (auto simp: close_channel_def close_if_def drop_channel_def elim!: close_if_inner_bytes split: sum.splits bind_splits)

lemma find_slot_bytes:
  assumes "find_slot s = Some (s', n, i)" and "bytes_ok mx x s"
  shows "bytes_ok mx x (fill_slot c doc NoReply n i s')"
proof -
  note free = find_slot_free [OF assms(1)]
  have "bytes_ok mx x s'" using assms(2) free by (simp add: bytes_ok_def held_bytes_def no_reply_buffers_def)
  then show ?thesis unfolding fill_slot_def by (rule bytes_ok_send_slot) (use free in auto)
qed

lemma try_send_bytes: "try_send c doc s = Some (s', r) \<Longrightarrow> bytes_ok mx x s \<Longrightarrow> bytes_ok mx x s'"
  by (auto simp: try_send_def try_send_any_def Let_def intro: find_slot_bytes split: if_split_asm bind_splits)

lemma send_poll_bytes: "send_poll c w f s = Some (s', f', r) \<Longrightarrow> bytes_ok mx x s \<Longrightarrow> bytes_ok mx x s'"
  by (induction c w f s rule: send_poll.induct)
     (auto simp: wake_next_sender_def dest!: try_send_bytes split: bind_splits sum.splits prod.splits try_send_error.splits list.splits)

text \<open>What a channel or a slot holds determines its bytes.\<close>

lemma channel_holds_bytes: "channel_holds c = channel_holds c' \<Longrightarrow> chan_bytes c = chan_bytes c' \<and> chan_plain c = chan_plain c'"
  by (cases c; cases c') (auto simp: channel_holds_def)

lemma same_docs_bytes: "same_docs e e' \<Longrightarrow> slot_bytes e' = slot_bytes e \<and> slot_plain e' = slot_plain e"
  using channel_holds_bytes [of "rs_channel e'" "rs_channel e"] by (auto simp: same_docs_def slot_bytes_def slot_plain_def)

interpretation bytes: received_invariant "bytes_ok mx x" for mx x
proof
  fix s :: session and i and e :: send_slot
  assume ok: "bytes_ok mx x s" and i: "i < length (send_table s)" "channel_holds (ss_channel e) = channel_holds (ss_channel (send_table s ! i))"
  show "bytes_ok mx x (set_send_slot i e s)"
    using bytes_ok_send_slot [OF ok i(1), of e x] bytes_ok_plain(2) [OF ok i(1)] channel_holds_bytes [OF i(2)] by simp
next
  fix s :: session and i and e :: recv_slot
  assume ok: "bytes_ok mx x s" and i: "i < length (recv_table s)" "same_docs (recv_table s ! i) e"
  show "bytes_ok mx x (set_recv_slot i e s)"
    using bytes_ok_recv_slot [OF ok i(1), of e x] bytes_ok_plain(1) [OF ok i(1)] same_docs_bytes [OF i(2)] by simp
qed simp

section \<open>The bound\<close>

lemma plain_move_bytes: "plain_move s s' \<Longrightarrow> table_wf s \<Longrightarrow> bytes_ok mx x s \<Longrightarrow> bytes_ok mx x s'"
  by (induction rule: plain_move.induct)
     (auto dest: recv_packet_bytes try_recv_bytes recv_poll_bytes try_send_bytes send_poll_bytes
       bytes.flush_poll_keeps close_bytes bytes.clone_channel_keeps bytes.transmit_keeps)

lemma plain_moves_bytes:
  "plain_move\<^sup>*\<^sup>* s s' \<Longrightarrow> table_wf s \<Longrightarrow> bytes_ok mx x s \<Longrightarrow> bytes_ok mx x s' \<and> table_wf s'"
  by (induction rule: rtranclp_induct) (auto dest: plain_move_bytes plain_move_wf)

text \<open>
  C9. The memory of a session is bounded.  As long as the application lends no buffers for replies, and
  whatever the peer sends, the documents that a session holds, those it receives, those that wait in
  channels and the orphans, never have more than \<open>recv_bytes_max\<close> bytes together: \<open>recv_bytes_total\<close>
  covers them and stays below that limit, so the subtractions from it never wrap around.
\<close>

theorem received_bytes_bounded:
  assumes "no_active s" and "no_reply_buffers s" and "held_bytes s \<le> recv_bytes_total s" and "recv_bytes_total s \<le> recv_bytes_max s"
    and "recv_bytes_max s < usize_bound" and "plain_move\<^sup>*\<^sup>* s s'"
  shows "held_bytes s' \<le> recv_bytes_total s' \<and> recv_bytes_total s' \<le> recv_bytes_max s"
  using plain_moves_bytes [OF assms(6) no_active_wf [OF assms(1)], of "recv_bytes_max s" 0] assms(2-5) by (simp add: bytes_ok_def)

theorem received_bytes_bounded_witness:
  "\<exists>s'. plain_move\<^sup>*\<^sup>* sample_session s' \<and> 5 \<le> held_bytes s' \<and> held_bytes s' \<le> recv_bytes_total s' \<and> recv_bytes_total s' \<le> 1000"
proof (rule sample_started)
  fix s e d assume s: "recv_packet [0x16, 8, 5, 3, 10, 20, 30] 0 sample_session = Some (s, 7)" "recv_table s = [e]"
    "rs_doc e = Active d" "rd_mem d = Simple [10, 20, 30, 0, 0]"
  have m: "plain_move\<^sup>*\<^sup>* sample_session s" using packet [OF s(1)] by blast
  have "no_active sample_session" "no_reply_buffers sample_session" "held_bytes sample_session \<le> recv_bytes_total sample_session"
    "recv_bytes_total sample_session \<le> recv_bytes_max sample_session" "recv_bytes_max sample_session < usize_bound"
    by (simp_all add: sample_session_def sample_channel_def no_active_def no_reply_buffers_def slot_plain_def held_bytes_def slot_bytes_def usize_bound_def)
  note b = received_bytes_bounded [OF this m]
  have "5 \<le> held_bytes s" using s(2-4) by (simp add: held_bytes_def slot_bytes_def)
  moreover have "recv_bytes_max sample_session = 1000" by (simp add: sample_session_def)
  ultimately show ?thesis using m b by auto
qed

end
