(* ===== verification/Held_Docs.thy ===== *)
theory Held_Docs
  imports Recv_Bytes "HOL-Library.Multiset"
begin

text \<open>
  The documents a session holds.  A document that is finished but not yet handed to the application is in
  exactly one place, in a channel or among the orphans of a slot, and its own slot is finished or was
  taken over by a later document.  The code relies on this where it drops documents: \<open>drop_unfinished_recv_doc\<close>
  asserts that the slot of what it drops is finished.  As in \<open>Recv_Bytes\<close>, documents that an operation has
  taken from one place and not yet put down are in hand.
\<close>

section \<open>Where documents are held\<close>

definition docs_nos :: "unfinished_recv_doc list \<Rightarrow> u64 multiset" where
  "docs_nos ds = mset (map ur_doc_no ds)"

definition chan_nos :: "open_channel option \<Rightarrow> u64 multiset" where
  "chan_nos c = (case c of None \<Rightarrow> {#} | Some ch \<Rightarrow> docs_nos (ready_docs ch))"

definition slot_held :: "recv_slot \<Rightarrow> u64 multiset" where
  "slot_held e = chan_nos (rs_channel e) + docs_nos (rs_adoptable_orphans e)"

definition held_nos :: "session \<Rightarrow> u64 multiset" where
  "held_nos s = (\<Sum>e\<leftarrow>recv_table s. slot_held e) + (\<Sum>e\<leftarrow>send_table s. chan_nos (ss_channel e))"

text \<open>The slot of document \<open>n\<close> was taken over, or \<open>n\<close> is finished.\<close>

definition doc_done :: "session \<Rightarrow> u64 \<Rightarrow> bool" where
  "doc_done s n \<longleftrightarrow> \<not> is_sending s n \<and>
     (\<forall>i. slot_idx n (recv_table s) = Some i \<longrightarrow>
        n \<le> rs_doc_no (recv_table s ! i) \<and> (rs_doc_no (recv_table s ! i) = n \<longrightarrow> slot_is_fin (rs_doc (recv_table s ! i))))"

text \<open>Only slots of \<open>R\<close> are reserved, unless the session has been abandoned.\<close>

definition reserved_only :: "nat set \<Rightarrow> session \<Rightarrow> bool" where
  "reserved_only R s \<longleftrightarrow> send_bytes_max s = 0 \<or> (\<forall>i < length (recv_table s). rs_doc (recv_table s ! i) = ActiveReserved \<longrightarrow> i \<in> R)"

definition links_ok :: "nat set \<Rightarrow> u64 multiset \<Rightarrow> session \<Rightarrow> bool" where
  "links_ok R X s \<longleftrightarrow> (\<forall>n. count (held_nos s + X) n \<le> 1) \<and> (\<forall>n \<in># held_nos s + X. doc_done s n) \<and> reserved_only R s"

lemma docs_nos_simps [simp]:
  "docs_nos [] = {#}" "docs_nos (d # ds) = add_mset (ur_doc_no d) (docs_nos ds)" "docs_nos (ds @ es) = docs_nos ds + docs_nos es"
  "docs_nos (rev ds) = docs_nos ds"
  by (simp_all add: docs_nos_def)

lemma chan_nos_simps [simp]: "chan_nos None = {#}" "chan_nos (Some ch) = docs_nos (ready_docs ch)"
  by (simp_all add: chan_nos_def)

lemma slot_held_simps [simp]:
  "slot_held (e\<lparr> rs_needs_send_control := b \<rparr>) = slot_held e" "slot_held (e\<lparr> rs_doc_no := n \<rparr>) = slot_held e"
  "slot_held (e\<lparr> rs_doc := d \<rparr>) = slot_held e" "slot_held (e\<lparr> rs_orphans_expected_parent_no := q \<rparr>) = slot_held e"
  by (simp_all add: slot_held_def)

section \<open>Steps that move documents\<close>

lemma sum_list_update_add:
  fixes f :: "'a \<Rightarrow> 'b :: comm_monoid_add"
  assumes "i < length xs"
  shows "(\<Sum>x\<leftarrow>xs[i := y]. f x) + f (xs ! i) = (\<Sum>x\<leftarrow>xs. f x) + f y"
  using assms
proof (induction xs arbitrary: i)
  case (Cons x xs)
  then show ?case by (cases i) (simp_all add: ac_simps)
qed simp

lemma subset_mset_cancel:
  assumes "A' + b = A + b'" and "b' + Y \<subseteq># b + X"
  shows "A' + Y \<subseteq># A + X"
proof (rule mset_subset_eqI)
  fix a
  have "count A' a + count b a = count A a + count b' a" using assms(1) by (metis count_union)
  moreover have "count b' a + count Y a \<le> count b a + count X a" using mset_subset_eq_count [OF assms(2), of a] by simp
  ultimately show "count (A' + Y) a \<le> count (A + X) a" by simp
qed

lemma slot_of_set [simp]:
  "slot_idx n (xs[i := e]) = slot_idx n xs" "is_sending (set_recv_slot i e' s) n = is_sending s n"
  by (simp_all add: slot_idx_def is_sending_def set_recv_slot_def)

lemma held_nos_recv_slot:
  assumes "i < length (recv_table s)" and "slot_held e + Y \<subseteq># slot_held (recv_table s ! i) + X"
  shows "held_nos (set_recv_slot i e s) + Y \<subseteq># held_nos s + X"
proof -
  have "held_nos (set_recv_slot i e s) + slot_held (recv_table s ! i) = held_nos s + slot_held e"
    using sum_list_update_add [OF assms(1), of slot_held e] by (simp add: held_nos_def set_recv_slot_def ac_simps)
  then show ?thesis by (rule subset_mset_cancel [OF _ assms(2)])
qed

lemma held_nos_send_slot:
  assumes "i < length (send_table s)" and "chan_nos (ss_channel e) + Y \<subseteq># chan_nos (ss_channel (send_table s ! i)) + X"
  shows "held_nos (set_send_slot i e s) + Y \<subseteq># held_nos s + X"
proof -
  have "held_nos (set_send_slot i e s) + chan_nos (ss_channel (send_table s ! i)) = held_nos s + chan_nos (ss_channel e)"
    using sum_list_update_add [OF assms(1), of "\<lambda>e. chan_nos (ss_channel e)" e] by (simp add: held_nos_def set_send_slot_def ac_simps)
  then show ?thesis by (rule subset_mset_cancel [OF _ assms(2)])
qed

text \<open>Nothing is held that was not held before, so only the conditions on the slots have to be looked at.\<close>

lemma links_ok_fewer:
  assumes "links_ok R X s" and "held_nos s' + Y \<subseteq># held_nos s + X" and "reserved_only R' s'"
    and "\<And>n. n \<in># held_nos s' + Y \<Longrightarrow> doc_done s n \<Longrightarrow> doc_done s' n"
  shows "links_ok R' Y s'"
proof -
  have "count (held_nos s' + Y) n \<le> 1" for n
    using mset_subset_eq_count [OF assms(2), of n] assms(1) by (meson le_trans links_ok_def)
  then show ?thesis using assms mset_subset_eqD [OF assms(2)] by (simp add: links_ok_def)
qed

lemma links_ok_recv_slot:
  assumes ok: "links_ok R X s" and i: "i < length (recv_table s)"
    and held: "slot_held e + Y \<subseteq># slot_held (recv_table s ! i) + X" and no: "rs_doc_no (recv_table s ! i) \<le> rs_doc_no e"
    and fin: "slot_is_fin (rs_doc e) \<or> slot_idx (rs_doc_no e) (recv_table s) \<noteq> Some i \<or> rs_doc_no e \<notin># held_nos (set_recv_slot i e s) + Y"
    and R: "reserved_only R' (set_recv_slot i e s)"
  shows "links_ok R' Y (set_recv_slot i e s)"
proof (rule links_ok_fewer [OF ok held_nos_recv_slot [OF i held] R])
  let ?s = "set_recv_slot i e s"
  fix n assume n: "n \<in># held_nos ?s + Y" "doc_done s n"
  show "doc_done ?s n" using no fin n i by (auto simp: doc_done_def nth_list_update)
qed

lemma reserved_only_set:
  assumes "reserved_only R s" and "rs_doc e = ActiveReserved \<Longrightarrow> i \<in> R'" and "R \<subseteq> insert i R'"
  shows "reserved_only R' (set_recv_slot i e s)"
proof (cases "send_bytes_max s = 0")
  case False
  have "j \<in> R'" if j: "j < length (recv_table s)" "rs_doc ((recv_table s)[i := e] ! j) = ActiveReserved" for j
    using assms j False by (cases "j = i") (auto simp: reserved_only_def)
  then show ?thesis by (simp add: reserved_only_def set_recv_slot_def)
qed (simp add: reserved_only_def set_recv_slot_def)

text \<open>The number of a slot whose document is not finished is not held, nor is a number the slot has not come to.\<close>

lemma links_ok_not_held:
  assumes "links_ok R X s" and "slot_idx n (recv_table s) = Some i"
    and "rs_doc_no (recv_table s ! i) < n \<or> rs_doc_no (recv_table s ! i) = n \<and> \<not> slot_is_fin (rs_doc (recv_table s ! i))"
  shows "n \<notin># held_nos s + X"
  using assms unfolding links_ok_def doc_done_def by (metis leD)

lemma links_ok_same_slot:
  assumes ok: "links_ok R X s" and i: "i < length (recv_table s)"
    and held: "slot_held e + Y \<subseteq># slot_held (recv_table s ! i) + X" and no: "rs_doc_no e = rs_doc_no (recv_table s ! i)"
    and fin: "slot_is_fin (rs_doc (recv_table s ! i)) \<Longrightarrow> slot_is_fin (rs_doc e)"
    and res: "rs_doc e = ActiveReserved \<Longrightarrow> rs_doc (recv_table s ! i) = ActiveReserved"
  shows "links_ok R Y (set_recv_slot i e s)"
proof (rule links_ok_recv_slot [OF ok i held])
  show "slot_is_fin (rs_doc e) \<or> slot_idx (rs_doc_no e) (recv_table s) \<noteq> Some i \<or> rs_doc_no e \<notin># held_nos (set_recv_slot i e s) + Y"
    using links_ok_not_held [OF ok, of "rs_doc_no e" i] fin no mset_subset_eqD [OF held_nos_recv_slot [OF i held]] by auto
  show "reserved_only R (set_recv_slot i e s)"
    using ok res i by (auto simp: links_ok_def reserved_only_def nth_list_update set_recv_slot_def)
qed (simp add: no)

lemma links_ok_send_slot:
  assumes ok: "links_ok R X s" and i: "i < length (send_table s)"
    and held: "chan_nos (ss_channel e) + Y \<subseteq># chan_nos (ss_channel (send_table s ! i)) + X"
  shows "links_ok R Y (set_send_slot i e s)"
  by (rule links_ok_fewer [OF ok held_nos_send_slot [OF i held]])
     (use ok in \<open>auto simp: links_ok_def reserved_only_def doc_done_def is_sending_def set_send_slot_def\<close>)

lemma links_ok_mono: "links_ok R X s \<Longrightarrow> Y \<subseteq># X \<Longrightarrow> R \<subseteq> R' \<Longrightarrow> links_ok R' Y s"
  by (rule links_ok_fewer) (auto simp: links_ok_def reserved_only_def)

lemma links_ok_add:
  "links_ok R X s \<Longrightarrow> n \<notin># held_nos s + X \<Longrightarrow> doc_done s n \<Longrightarrow> links_ok R (add_mset n X) s"
  by (auto simp: links_ok_def not_in_iff)

lemma links_ok_other [simp]:
  "links_ok R X (wake_all ws s) = links_ok R X s" "links_ok R X (drop_doc_state d s) = links_ok R X s"
  "links_ok R X (schedule_send_control v n s) = links_ok R X s" "links_ok R X (wake_opt w s) = links_ok R X s"
  "links_ok R X (reply_wake r s) = links_ok R X s" "links_ok R X (drop_flushers ws s) = links_ok R X s"
  "links_ok R X (s\<lparr> heap := h \<rparr>) = links_ok R X s" "links_ok R X (s\<lparr> send_total := k \<rparr>) = links_ok R X s"
  "links_ok R X (s\<lparr> send_bytes_total := b \<rparr>) = links_ok R X s" "links_ok R X (s\<lparr> send_doc_no := m \<rparr>) = links_ok R X s"
  "links_ok R X (s\<lparr> send_wakers := ws \<rparr>) = links_ok R X s" "links_ok R X (s\<lparr> send_queue := ns \<rparr>) = links_ok R X s"
  "links_ok R X (s\<lparr> recv_bytes_total := t \<rparr>) = links_ok R X s"
  by (simp_all add: links_ok_def held_nos_def doc_done_def reserved_only_def is_sending_def wake_opt_def reply_wake_def drop_flushers_def
      wake_all_def drop_doc_state_def schedule_send_control_def split: option.splits special_reply_state.splits recv_doc_state.splits)

lemma links_ok_abandon: "links_ok R X s \<Longrightarrow> links_ok R' X (abandon s)"
  by (simp add: links_ok_def held_nos_def doc_done_def reserved_only_def is_sending_def abandon_def)

lemma links_ok_update_channel:
  assumes "update_channel n f s = Some (s', r)" and ok: "links_ok R X s"
    and f: "\<And>ch. docs_nos (ready_docs (fst (f ch))) \<subseteq># docs_nos (ready_docs ch)"
  shows "links_ok R X s'"
proof -
  have "links_ok R X (set_send_slot i ((send_table s ! i)\<lparr> ss_channel := Some (fst (f ch)) \<rparr>) s)"
    if "i < length (send_table s)" "ss_channel (send_table s ! i) = Some ch" for i ch
    using links_ok_send_slot [OF ok that(1)] that(2) f [of ch] by simp
  moreover have "links_ok R X (set_recv_slot i ((recv_table s ! i)\<lparr> rs_channel := Some (fst (f ch)) \<rparr>) s)"
    if "i < length (recv_table s)" "rs_channel (recv_table s ! i) = Some ch" for i ch
    by (rule links_ok_same_slot [OF ok that(1)]) (use that(2) f [of ch] in \<open>auto simp: slot_held_def\<close>)
  ultimately show ?thesis
    using assms(1) ok
    by (auto simp: update_channel_def Let_def set_send_slot_def set_recv_slot_def case_prod_beta dest: slot_idx_less split: option.splits if_splits)
qed

section \<open>Dropping documents\<close>

lemma add_mset_not_in: "add_mset n M \<subseteq># N \<Longrightarrow> count N n \<le> 1 \<Longrightarrow> n \<notin># M"
  using mset_subset_eq_count [of "add_mset n M" N n] by (simp add: not_in_iff)

lemma drop_one_links:
  assumes s': "drop_one n l s = Some (s', docs)" and ok: "links_ok R (add_mset n X) s"
  shows "links_ok R (docs_nos docs + X) s'"
proof -
  define s1 where "s1 = schedule_send_control VARIANT_CONTROL_FIN_PARENT_CLOSED n (s\<lparr> recv_bytes_total := fetch_sub (recv_bytes_total s) l \<rparr>)"
  have s1: "links_ok R (add_mset n X) s1" using ok by (simp add: s1_def)
  obtain i where i: "slot_idx n (recv_table s1) = Some i" "i < length (recv_table s1)"
    using s' by (auto simp: drop_one_def Let_def s1_def [symmetric] dest: slot_idx_less split: option.splits)
  define e where "e = recv_table s1 ! i"
  define e' where "e' = e\<lparr> rs_doc := FinParentClose, rs_channel := None, rs_needs_send_control := True \<rparr>"
  let ?s = "drop_doc_state (rs_doc e) s1"
  have ok': "links_ok R (add_mset n X) ?s" using s1 by simp
  have "links_ok R (chan_nos (rs_channel e) + X) (set_recv_slot i e' ?s)" if "rs_doc_no e = n"
  proof (rule links_ok_recv_slot [OF ok'])
    have held: "slot_held e' + add_mset n (chan_nos (rs_channel e) + X) \<subseteq># slot_held (recv_table ?s ! i) + add_mset n X"
      by (simp add: slot_held_def e'_def flip: e_def)
    then show "slot_held e' + (chan_nos (rs_channel e) + X) \<subseteq># slot_held (recv_table ?s ! i) + add_mset n X"
      by (rule subset_mset.order_trans [rotated]) simp
    have "add_mset n (held_nos (set_recv_slot i e' ?s) + (chan_nos (rs_channel e) + X)) \<subseteq># held_nos ?s + add_mset n X"
      using held_nos_recv_slot [OF _ held] i(2) by simp
    then have "n \<notin># held_nos (set_recv_slot i e' ?s) + (chan_nos (rs_channel e) + X)"
      by (rule add_mset_not_in) (use ok' in \<open>unfold links_ok_def, blast\<close>)
    then show "slot_is_fin (rs_doc e') \<or> slot_idx (rs_doc_no e') (recv_table ?s) \<noteq> Some i \<or>
        rs_doc_no e' \<notin># held_nos (set_recv_slot i e' ?s) + (chan_nos (rs_channel e) + X)" using that by (simp add: e'_def)
    show "reserved_only R (set_recv_slot i e' ?s)"
      by (rule reserved_only_set [where R = R]) (use ok' in \<open>auto simp: links_ok_def e'_def\<close>)
  qed (use i(2) in \<open>simp_all add: e'_def flip: e_def\<close>)
  moreover have "links_ok R X s1" by (rule links_ok_mono [OF s1]) simp_all
  ultimately show ?thesis
    using s' i(1) by (auto simp: drop_one_def Let_def e'_def s1_def [symmetric] e_def [symmetric] split: option.splits if_splits)
qed

lemma drop_one_returns:
  assumes "links_ok R (add_mset n X) s" and "recv_table s \<noteq> []"
  shows "\<exists>s' docs. drop_one n l s = Some (s', docs)"
proof -
  obtain i where i: "slot_idx n (recv_table s) = Some i" using assms(2) by (simp add: slot_idx_def)
  have "doc_done s n" using assms(1) by (simp add: links_ok_def)
  then have "rs_doc_no (recv_table s ! i) = n \<Longrightarrow> slot_is_fin (rs_doc (recv_table s ! i))" using i by (simp add: doc_done_def)
  then show ?thesis using i by (auto simp: drop_one_def Let_def schedule_send_control_def split: option.splits)
qed

lemma drop_loop_links: "drop_loop stack s = Some s' \<Longrightarrow> links_ok R (mset (map fst stack) + X) s \<Longrightarrow> links_ok R X s'"
proof (induction stack s rule: drop_loop.induct)
  case (2 n l stack s)
  obtain s1 docs where 1: "drop_one n l s = Some (s1, docs)" using 2(2) by (auto split: option.splits)
  have "links_ok R (docs_nos docs + (mset (map fst stack) + X)) s1" using drop_one_links [OF 1] 2(3) by simp
  then show ?case using 2(1) [OF 1 refl] 2(2) 1 by (simp add: docs_nos_def add.assoc o_def)
qed simp

lemma drop_loop_returns: "links_ok R (mset (map fst stack) + X) s \<Longrightarrow> recv_table s \<noteq> [] \<Longrightarrow> \<exists>s'. drop_loop stack s = Some s'"
proof (induction stack s rule: drop_loop.induct)
  case (2 n l stack s)
  obtain s1 docs where 1: "drop_one n l s = Some (s1, docs)" using drop_one_returns [of R n "mset (map fst stack) + X" s l] 2(2,3) by auto
  have "links_ok R (docs_nos docs + (mset (map fst stack) + X)) s1" using drop_one_links [OF 1] 2(2) by simp
  moreover have "recv_table s1 \<noteq> []" using length_recv_table [OF drop_one_nos [OF 1]] 2(3) by (metis length_0_conv)
  ultimately show ?case using 2(1) [OF 1 refl] 1 by (simp add: docs_nos_def add.assoc o_def)
qed simp

lemma drop_unfinished_links:
  "drop_unfinished_recv_doc n l s = Some s' \<Longrightarrow> links_ok R (add_mset n X) s \<Longrightarrow> links_ok R X s'"
  "links_ok R (add_mset n X) s \<Longrightarrow> recv_table s \<noteq> [] \<Longrightarrow> \<exists>s'. drop_unfinished_recv_doc n l s = Some s'"
  using drop_loop_links [of "[(n, l)]" s s' R X] drop_loop_returns [of R "[(n, l)]" X s]
  by (simp_all add: drop_unfinished_recv_doc_def del: drop_loop.simps)

lemma drop_docs_links: "drop_unfinished_docs ds s = Some s' \<Longrightarrow> links_ok R (docs_nos ds + X) s \<Longrightarrow> links_ok R X s'"
proof (induction ds arbitrary: s)
  case (Cons d ds)
  then obtain s1 where 1: "drop_unfinished_recv_doc (ur_doc_no d) (length (ur_buf d)) s = Some s1" "drop_unfinished_docs ds s1 = Some s'"
    by (auto split: bind_splits)
  then show ?case using Cons.IH [OF 1(2)] drop_unfinished_links(1) [OF 1(1)] Cons.prems(2) by simp
qed simp

lemma drop_docs_returns: "links_ok R (docs_nos ds + X) s \<Longrightarrow> recv_table s \<noteq> [] \<Longrightarrow> \<exists>s'. drop_unfinished_docs ds s = Some s'"
proof (induction ds arbitrary: s)
  case (Cons d ds)
  then obtain s1 where 1: "drop_unfinished_recv_doc (ur_doc_no d) (length (ur_buf d)) s = Some s1"
    using drop_unfinished_links(2) [of R "ur_doc_no d" "docs_nos ds + X" s] by auto
  moreover have "links_ok R (docs_nos ds + X) s1" using drop_unfinished_links(1) [OF 1] Cons.prems(1) by simp
  moreover have "recv_table s1 \<noteq> []" using length_recv_table [OF drop_unfinished_nos [OF 1]] Cons.prems(2) by (metis length_0_conv)
  ultimately show ?case using Cons.IH by simp
qed simp

lemma drop_closed_channel_links:
  "drop_closed_channel ch s = Some s' \<Longrightarrow> links_ok R (chan_nos ch + X) s \<Longrightarrow> links_ok R X s'"
  "links_ok R (chan_nos ch + X) s \<Longrightarrow> recv_table s \<noteq> [] \<Longrightarrow> \<exists>s'. drop_closed_channel ch s = Some s'"
  using drop_docs_returns [of R "rev (ready_docs (the ch))" X s]
  by (auto simp: drop_closed_channel_def dest!: drop_docs_links [where X = X] split: option.splits bind_splits)

section \<open>Receiving\<close>

lemma post_to_channel_nos:
  "post_to_channel d n c ch = Some (ch', w) \<Longrightarrow> rd_mem d = Simple b \<Longrightarrow> docs_nos (ready_docs ch') = add_mset n (docs_nos (ready_docs ch))"
  by (auto simp: post_to_channel_def Let_def split: if_splits)

lemma fin_to_parent_links:
  assumes "fin_to_parent n d p c s = Some (s', r)" and d: "rd_mem d = Simple b" and ok: "links_ok R (add_mset n X) s"
  shows "links_ok R X s'"
proof -
  have le: "links_ok R X s" by (rule links_ok_mono [OF ok]) simp_all
  show ?thesis
  proof (cases "is_sending s p")
    case True
    then obtain i where i: "slot_idx p (send_table s) = Some i" "i < length (send_table s)"
      using assms(1) by (auto simp: fin_to_parent_def dest: slot_idx_less split: bind_splits)
    have "links_ok R X (set_send_slot i ((send_table s ! i)\<lparr> ss_channel := Some ch' \<rparr>) s)"
      if "ss_channel (send_table s ! i) = Some ch" "post_to_channel d n c ch = Some (ch', w)" for ch ch' w
      using links_ok_send_slot [OF ok i(2)] post_to_channel_nos [OF that(2) d] that(1) by simp
    then show ?thesis
      using assms(1) True i(1) d le drop_unfinished_links(1) [OF _ ok]
      by (auto simp: fin_to_parent_def Let_def split: option.splits if_split_asm bind_splits)
  next
    case False
    then obtain i where i: "slot_idx p (recv_table s) = Some i" "i < length (recv_table s)"
      using assms(1) by (auto simp: fin_to_parent_def dest: slot_idx_less split: bind_splits)
    have "links_ok R X (set_recv_slot i ((recv_table s ! i)\<lparr> rs_channel := Some ch' \<rparr>) s)"
      if "rs_channel (recv_table s ! i) = Some ch" "post_to_channel d n c ch = Some (ch', w)" for ch ch' w
      by (rule links_ok_same_slot [OF ok i(2)]) (use post_to_channel_nos [OF that(2) d] that(1) in \<open>simp_all add: slot_held_def\<close>)
    moreover have "links_ok R X (set_recv_slot i ((recv_table s ! i)\<lparr> rs_orphans_expected_parent_no := q,
        rs_adoptable_orphans := rs_adoptable_orphans (recv_table s ! i) @ [u] \<rparr>) s)" if "ur_doc_no u = n" for q u
      by (rule links_ok_same_slot [OF ok i(2)]) (use that in \<open>simp_all add: slot_held_def\<close>)
    ultimately show ?thesis
      using assms(1) False i(1) d le drop_unfinished_links(1) [OF _ ok]
      by (auto simp: fin_to_parent_def Let_def split: option.splits if_split_asm bind_splits)
  qed
qed

lemma fin_to_parent_returns:
  assumes d: "rd_mem d = Simple b" and ok: "links_ok R (add_mset n X) s" and "recv_table s \<noteq> []" "send_table s \<noteq> []"
  shows "\<exists>s' r. fin_to_parent n d p c s = Some (s', r)"
proof -
  obtain i j where i: "slot_idx p (recv_table s) = Some i" "slot_idx p (send_table s) = Some j" using assms(3,4) by (simp add: slot_idx_def)
  obtain s1 where s1: "drop_unfinished_recv_doc n (rd_total_recv d) s = Some s1" using drop_unfinished_links(2) [OF ok assms(3)] by blast
  have post: "\<exists>ch' w. post_to_channel d n c ch = Some (ch', w)" for ch using d by (simp add: post_to_channel_def Let_def)
  show ?thesis
  proof (cases "is_sending s p")
    case True
    let ?c = "if ss_doc_no (send_table s ! j) = p then ss_channel (send_table s ! j) else None"
    show ?thesis
    proof (cases ?c)
      case (Some ch)
      with post [of ch] True i(2) show ?thesis by (auto simp: fin_to_parent_def)
    qed (use True i(2) s1 in \<open>simp add: fin_to_parent_def\<close>)
  next
    case False
    let ?c = "if rs_doc_no (recv_table s ! i) = p then rs_channel (recv_table s ! i) else None"
    show ?thesis
    proof (cases ?c)
      case (Some ch)
      with post [of ch] False i(1) show ?thesis by (auto simp: fin_to_parent_def)
    qed (use False i(1) s1 d in \<open>simp add: fin_to_parent_def Let_def\<close>)
  qed
qed

text \<open>Document \<open>n\<close> is in slot \<open>i\<close>, and its memory is the session's own.\<close>

definition in_slot :: "u64 \<Rightarrow> nat \<Rightarrow> recv_doc \<Rightarrow> session \<Rightarrow> bool" where
  "in_slot n i d s \<longleftrightarrow> \<not> is_sending s n \<and> slot_idx n (recv_table s) = Some i \<and> rs_doc_no (recv_table s ! i) = n \<and>
     rs_doc (recv_table s ! i) = Active d \<and> (\<exists>b. rd_mem d = Simple b)"

lemma in_slot_less: "in_slot n i d s \<Longrightarrow> i < length (recv_table s)"
  by (auto simp: in_slot_def dest: slot_idx_less)

text \<open>The slot is released before the document looks for its parent.\<close>

lemma released_links:
  assumes s: "in_slot n i d s" and ok: "links_ok R X s"
    and e: "rs_doc e = Finishing ws" "rs_doc_no e = n" "slot_held e = slot_held (recv_table s ! i)"
  shows "links_ok R (add_mset n X) (set_recv_slot i e s)"
proof (rule links_ok_add)
  note i = in_slot_less [OF s]
  have held: "slot_held e + X \<subseteq># slot_held (recv_table s ! i) + X" by (simp add: e)
  show "links_ok R X (set_recv_slot i e s)"
    by (rule links_ok_same_slot [OF ok i held]) (use s e in \<open>simp_all add: in_slot_def slot_is_fin_def\<close>)
  have "n \<notin># held_nos s + X" by (rule links_ok_not_held [OF ok]) (use s in \<open>auto simp: in_slot_def slot_is_fin_def\<close>)
  then show "n \<notin># held_nos (set_recv_slot i e s) + X" using mset_subset_eqD [OF held_nos_recv_slot [OF i held]] by blast
  show "doc_done (set_recv_slot i e s) n"
    using s i e by (simp add: doc_done_def in_slot_def slot_is_fin_def)
qed

lemma fin_doc_links:
  assumes s: "in_slot n i d s" and ok: "links_ok R X s"
  shows "fin_doc n i s = Some (s', r) \<Longrightarrow> links_ok R X s'"
    and "recv_table s \<noteq> [] \<Longrightarrow> send_table s \<noteq> [] \<Longrightarrow> \<exists>s' r. fin_doc n i s = Some (s', r)"
proof -
  define e where "e = (recv_table s ! i)\<lparr> rs_doc := Finishing [] \<rparr>"
  define e' where "e' = e\<lparr> rs_channel := map_option (\<lambda>ch. ch\<lparr> ref_count := ref_count ch + 1 \<rparr>) (rs_channel e) \<rparr>"
  obtain b where d: "rs_doc (recv_table s ! i) = Active d" "rd_mem d = Simple b" using s by (auto simp: in_slot_def)
  have fin: "fin_doc n i s = (case rd_parent_no d of None \<Rightarrow> Some (set_recv_slot i e s, Inl Invalid)
      | Some q \<Rightarrow> fin_to_parent n d q (rs_channel e' = None) (set_recv_slot i e' s))"
    by (simp add: fin_doc_def Let_def d(1) e_def e'_def split: option.splits)
  have "slot_held e' = slot_held (recv_table s ! i)"
    by (cases "rs_channel (recv_table s ! i)") (simp_all add: e'_def e_def slot_held_def)
  then have set: "links_ok R (add_mset n X) (set_recv_slot i e' s)"
    by (intro released_links [OF s ok]) (use s in \<open>simp_all add: e'_def e_def in_slot_def\<close>)
  have "links_ok R (add_mset n X) (set_recv_slot i e s)"
    by (rule released_links [OF s ok]) (use s in \<open>simp_all add: e_def in_slot_def\<close>)
  then have "links_ok R X (set_recv_slot i e s)" by (rule links_ok_mono) simp_all
  then show "fin_doc n i s = Some (s', r) \<Longrightarrow> links_ok R X s'"
    using fin_to_parent_links [OF _ d(2) set] by (auto simp: fin split: option.splits)
  show "\<exists>s' r. fin_doc n i s = Some (s', r)" if "recv_table s \<noteq> []" "send_table s \<noteq> []"
    using fin_to_parent_returns [OF d(2) set] that by (auto simp: fin set_recv_slot_def split: option.splits)
qed

text \<open>Storing a segment of a document in slot \<open>i\<close>, and finishing the document when it was the last one.\<close>

definition store_seg :: "u64 \<Rightarrow> nat \<Rightarrow> recv_doc \<Rightarrow> recv_error + bool \<Rightarrow> recv_slot \<Rightarrow> session \<Rightarrow> (session \<times> (recv_error + unit)) option" where
  "store_seg n i d r e s =
     (case r of
        Inr False \<Rightarrow> Some (set_recv_slot i (e\<lparr> rs_doc := Active d \<rparr>) s, Inr ())
      | Inr True \<Rightarrow> fin_doc n i (set_recv_slot i (e\<lparr> rs_doc := Active d \<rparr>) s)
      | Inl err \<Rightarrow> Some (set_recv_slot i (e\<lparr> rs_doc := Active d \<rparr>) s, Inl err))"

lemma store_seg_links:
  assumes ok: "links_ok R X s" and n: "\<not> is_sending s n" "slot_idx n (recv_table s) = Some i" "rs_doc_no (recv_table s ! i) = n"
      "\<not> slot_is_fin (rs_doc (recv_table s ! i))" "rs_doc_no e = n"
    and held: "slot_held e + Y \<subseteq># slot_held (recv_table s ! i) + X" and d: "rd_mem d = Simple b" and R: "R \<subseteq> insert i R'"
  shows "store_seg n i d r e s = Some (s', ret) \<Longrightarrow> links_ok R' Y s'"
    and "recv_table s \<noteq> [] \<Longrightarrow> send_table s \<noteq> [] \<Longrightarrow> \<exists>s' ret. store_seg n i d r e s = Some (s', ret)"
proof -
  let ?s = "set_recv_slot i (e\<lparr> rs_doc := Active d \<rparr>) s"
  have i: "i < length (recv_table s)" using n(2) by (rule slot_idx_less)
  have held': "slot_held (e\<lparr> rs_doc := Active d \<rparr>) + Y \<subseteq># slot_held (recv_table s ! i) + X" using held by simp
  have ok': "links_ok R' Y ?s"
  proof (rule links_ok_recv_slot [OF ok i held'])
    have "n \<notin># held_nos s + X" by (rule links_ok_not_held [OF ok n(2)]) (use n in simp)
    then show "slot_is_fin (rs_doc (e\<lparr> rs_doc := Active d \<rparr>)) \<or> slot_idx (rs_doc_no (e\<lparr> rs_doc := Active d \<rparr>)) (recv_table s) \<noteq> Some i \<or>
        rs_doc_no (e\<lparr> rs_doc := Active d \<rparr>) \<notin># held_nos ?s + Y"
      using mset_subset_eqD [OF held_nos_recv_slot [OF i held']] n(5) by auto
    show "reserved_only R' ?s" by (rule reserved_only_set [where R = R]) (use ok R in \<open>simp_all add: links_ok_def\<close>)
  qed (use n in simp)
  have "in_slot n i d ?s" using n i d by (simp add: in_slot_def)
  note fin = fin_doc_links [OF this ok']
  show "store_seg n i d r e s = Some (s', ret) \<Longrightarrow> links_ok R' Y s'"
    using ok' fin(1) by (auto simp: store_seg_def split: sum.splits bool.splits)
  show "\<exists>s' ret. store_seg n i d r e s = Some (s', ret)" if "recv_table s \<noteq> []" "send_table s \<noteq> []"
    using fin(2) that by (auto simp: store_seg_def set_recv_slot_def split: sum.splits bool.splits)
qed

text \<open>What is known of a session between two operations.\<close>

definition session_ok :: "nat set \<Rightarrow> u64 multiset \<Rightarrow> session \<Rightarrow> bool" where
  "session_ok R X s \<longleftrightarrow> table_wf s \<and> no_reply_buffers s \<and> links_ok R X s"

definition has_tables :: "session \<Rightarrow> bool" where
  "has_tables s \<longleftrightarrow> recv_table s \<noteq> [] \<and> send_table s \<noteq> []"

lemma has_tables_length:
  "length (recv_table s') = length (recv_table s) \<Longrightarrow> length (send_table s') = length (send_table s) \<Longrightarrow> has_tables s' = has_tables s"
  unfolding has_tables_def by (metis length_0_conv)

lemma store_seg_update:
  assumes "rs_doc e = Active d" and "e = (if ps_is_closed p then (recv_table s ! i)\<lparr> rs_channel := None \<rparr> else recv_table s ! i)"
    and "ch = (if ps_is_closed p then rs_channel (recv_table s ! i) else None)"
  shows "update_doc p i s = do {
    (d', h, result) \<leftarrow> recv_doc_seg d (ps_seg_off p) (ps_seg p) (heap s);
    (s, ret) \<leftarrow> store_seg (ps_doc_no p) i d' result e ((set_recv_slot i e s)\<lparr> heap := h \<rparr>);
    s \<leftarrow> drop_closed_channel ch s;
    Some (s, ret) }"
proof -
  have "heap (set_recv_slot i e s) = heap s" by (simp add: set_recv_slot_def)
  then show ?thesis
    unfolding update_doc_def Let_def assms(2) [symmetric] assms(3) [symmetric] using assms(1) by (simp add: store_seg_def)
qed

lemma store_seg_length:
  "store_seg n i d r e s = Some (s', ret) \<Longrightarrow> i < length (recv_table s) \<Longrightarrow> length (recv_table s') = length (recv_table s)"
  by (auto simp: store_seg_def dest!: fin_doc_nos length_recv_table split: sum.splits bool.splits)

text \<open>The slot and the channel that a segment of a document in its slot leaves, the channel if the segment closes it.\<close>

lemma closed_slot_links:
  assumes ok: "links_ok R X s" and i: "i < length (recv_table s)"
    and e: "e = (if b then (recv_table s ! i)\<lparr> rs_channel := None \<rparr> else recv_table s ! i)" "ch = (if b then rs_channel (recv_table s ! i) else None)"
  shows "links_ok R (chan_nos ch + X) (set_recv_slot i e s)"
  by (rule links_ok_same_slot [OF ok i]) (auto simp: e slot_held_def split: if_splits)

lemma update_active_links:
  assumes ok: "session_ok R X s" and n: "\<not> is_sending s (ps_doc_no p)" "slot_idx (ps_doc_no p) (recv_table s) = Some i"
      "rs_doc_no (recv_table s ! i) = ps_doc_no p" and d: "rs_doc (recv_table s ! i) = Active d"
  shows "update_doc p i s = Some (s', r) \<Longrightarrow> links_ok R X s'"
    and "has_tables s \<Longrightarrow> ps_seg_off p + length (ps_seg p) < usize_bound \<Longrightarrow> \<exists>s' r. update_doc p i s = Some (s', r)"
proof -
  have i: "i < length (recv_table s)" using n(2) by (rule slot_idx_less)
  define e where "e = (if ps_is_closed p then (recv_table s ! i)\<lparr> rs_channel := None \<rparr> else recv_table s ! i)"
  define ch where "ch = (if ps_is_closed p then rs_channel (recv_table s ! i) else None)"
  have e: "rs_doc e = Active d" "rs_doc_no e = ps_doc_no p" using d n(3) by (simp_all add: e_def)
  obtain b where b: "rd_mem d = Simple b" "doc_wf d"
    using ok i d slot_plain_active [of "recv_table s ! i" d]
    by (auto simp: session_ok_def no_reply_buffers_def list_all_length table_wf_def slot_wf_def split: recv_doc_state.splits)
  have set: "links_ok R (chan_nos ch + X) ((set_recv_slot i e s)\<lparr> heap := h \<rparr>)" for h
    using closed_slot_links [OF _ i e_def ch_def] ok by (simp add: session_ok_def)
  have store: "store_seg (ps_doc_no p) i d' result e ((set_recv_slot i e s)\<lparr> heap := h \<rparr>) = Some (s1, ret) \<Longrightarrow> links_ok R (chan_nos ch + X) s1"
    "has_tables s \<Longrightarrow> \<exists>s1 ret. store_seg (ps_doc_no p) i d' result e ((set_recv_slot i e s)\<lparr> heap := h \<rparr>) = Some (s1, ret)"
    if seg: "recv_doc_seg d (ps_seg_off p) (ps_seg p) (heap s) = Some (d', h, result)" for d' h result s1 ret
  proof -
    obtain m where m: "rd_mem d' = Simple m" using recv_doc_seg_bytes [OF b(2,1) seg] by blast
    note st = store_seg_links [OF set [of h] _ _ _ _ e(2) _ m, where i = i and Y = "chan_nos ch + X" and R' = R and r = result]
    show "store_seg (ps_doc_no p) i d' result e ((set_recv_slot i e s)\<lparr> heap := h \<rparr>) = Some (s1, ret) \<Longrightarrow> links_ok R (chan_nos ch + X) s1"
      by (rule st(1)) (use n i e in \<open>auto simp: is_sending_def set_recv_slot_def slot_is_fin_def\<close>)
    show "\<exists>s1 ret. store_seg (ps_doc_no p) i d' result e ((set_recv_slot i e s)\<lparr> heap := h \<rparr>) = Some (s1, ret)" if "has_tables s"
      by (rule st(2)) (use n i e that in \<open>auto simp: is_sending_def set_recv_slot_def slot_is_fin_def has_tables_def\<close>)
  qed
  note alt = store_seg_update [OF e(1) e_def ch_def]
  show "update_doc p i s = Some (s', r) \<Longrightarrow> links_ok R X s'"
    unfolding alt using store(1) drop_closed_channel_links(1) by (auto split: bind_splits)
  show "\<exists>s' r. update_doc p i s = Some (s', r)" if t: "has_tables s" and off: "ps_seg_off p + length (ps_seg p) < usize_bound"
  proof -
    obtain d' h result where 1: "recv_doc_seg d (ps_seg_off p) (ps_seg p) (heap s) = Some (d', h, result)"
      using recv_doc_seg_returns [OF b(2,1) off] by blast
    obtain s1 ret where 2: "store_seg (ps_doc_no p) i d' result e ((set_recv_slot i e s)\<lparr> heap := h \<rparr>) = Some (s1, ret)"
      using store(2) [OF 1 t] by blast
    have "recv_table s1 \<noteq> []" using store_seg_length [OF 2] i by auto
    then obtain s2 where "drop_closed_channel ch s1 = Some s2" using drop_closed_channel_links(2) store(1) [OF 1 2] by blast
    then show ?thesis unfolding alt using 1 2 by simp
  qed
qed

lemma update_doc_links:
  assumes ok: "session_ok R X s" and n: "\<not> is_sending s (ps_doc_no p)" "slot_idx (ps_doc_no p) (recv_table s) = Some i"
      "rs_doc_no (recv_table s ! i) = ps_doc_no p"
  shows "update_doc p i s = Some (s', r) \<Longrightarrow> links_ok R X s'"
    and "has_tables s \<Longrightarrow> rs_doc (recv_table s ! i) \<noteq> ActiveReserved \<Longrightarrow> ps_seg_off p + length (ps_seg p) < usize_bound \<Longrightarrow>
      \<exists>s' r. update_doc p i s = Some (s', r)"
proof -
  have i: "i < length (recv_table s)" using n(2) by (rule slot_idx_less)
  define e where "e = (if ps_is_closed p then (recv_table s ! i)\<lparr> rs_channel := None \<rparr> else recv_table s ! i)"
  define ch where "ch = (if ps_is_closed p then rs_channel (recv_table s ! i) else None)"
  have e: "rs_doc e = rs_doc (recv_table s ! i)" by (simp add: e_def)
  have set: "links_ok R (chan_nos ch + X) (set_recv_slot i e s)" using closed_slot_links [OF _ i e_def ch_def] ok by (simp add: session_ok_def)
  have alt: "update_doc p i s = (if rs_doc e = ActiveReserved then None else do { s \<leftarrow> drop_closed_channel ch (set_recv_slot i e s); Some (s, Inr ()) })"
    if "\<nexists>d. rs_doc e = Active d"
    using that unfolding update_doc_def Let_def e_def [symmetric] ch_def [symmetric] by (cases "rs_doc e") auto
  show "update_doc p i s = Some (s', r) \<Longrightarrow> links_ok R X s'"
    using update_active_links(1) [OF assms] alt e drop_closed_channel_links(1) [OF _ set]
    by (cases "\<exists>d. rs_doc e = Active d") (auto split: bind_splits if_splits)
  show "\<exists>s' r. update_doc p i s = Some (s', r)"
    if t: "has_tables s" "rs_doc (recv_table s ! i) \<noteq> ActiveReserved" "ps_seg_off p + length (ps_seg p) < usize_bound"
  proof (cases "\<exists>d. rs_doc (recv_table s ! i) = Active d")
    case False
    obtain s2 where "drop_closed_channel ch (set_recv_slot i e s) = Some s2"
      using drop_closed_channel_links(2) [OF set] t(1) by (auto simp: has_tables_def)
    then show ?thesis using alt False e t(2) by simp
  qed (use update_active_links(2) [OF assms _ t(1,3)] in blast)
qed

text \<open>A new document: the slot is reserved, then the first segment fills it.\<close>

lemma reserve_slot_links:
  assumes ok: "links_ok R X s" and n: "slot_idx (ps_doc_no p) (recv_table s) = Some i" "rs_doc_no (recv_table s ! i) < ps_doc_no p"
  shows "links_ok (insert i R) (docs_nos (if ps_is_closed p then rs_adoptable_orphans (recv_table s ! i) else []) +
    (chan_nos (rs_channel (recv_table s ! i)) + X)) (reserve_slot p i s)"
proof -
  define e where "e = (recv_table s ! i)\<lparr> rs_doc_no := ps_doc_no p, rs_needs_send_control := False, rs_doc := ActiveReserved,
     rs_adoptable_orphans := [], rs_channel := (if ps_is_closed p then None
       else Some \<lparr> ref_count = 0, ready_wakers = [], ready_docs = rs_adoptable_orphans (recv_table s ! i), reply_buffer = NoReply \<rparr>) \<rparr>"
  let ?Y = "docs_nos (if ps_is_closed p then rs_adoptable_orphans (recv_table s ! i) else []) + (chan_nos (rs_channel (recv_table s ! i)) + X)"
  have i: "i < length (recv_table s)" using n(1) by (rule slot_idx_less)
  have held: "slot_held e + ?Y \<subseteq># slot_held (recv_table s ! i) + X" by (simp add: e_def slot_held_def)
  have "ps_doc_no p \<notin># held_nos s + X" by (rule links_ok_not_held [OF ok n(1)]) (use n(2) in simp)
  then have new: "ps_doc_no p \<notin># held_nos (set_recv_slot i e s) + ?Y" using mset_subset_eqD [OF held_nos_recv_slot [OF i held]] by blast
  have "reserved_only (insert i R) (set_recv_slot i e s)"
    by (rule reserved_only_set [where R = R]) (use ok in \<open>auto simp: links_ok_def\<close>)
  then have "links_ok (insert i R) ?Y (set_recv_slot i e s)"
    by (rule links_ok_recv_slot [OF ok i held, rotated 2]) (use n(2) new in \<open>auto simp: e_def\<close>)
  then show ?thesis by (simp add: reserve_slot_def Let_def e_def)
qed

lemma first_seg_links:
  assumes ok: "links_ok (insert i R) X s" and n: "\<not> is_sending s (ps_doc_no p)" "slot_idx (ps_doc_no p) (recv_table s) = Some i"
      "rs_doc_no (recv_table s ! i) = ps_doc_no p" "rs_doc (recv_table s ! i) = ActiveReserved" and d: "rd_mem d = Simple b" "doc_wf d"
  shows "first_seg p i d s = Some (s', r) \<Longrightarrow> links_ok (if r = Inr () then R else insert i R) X s'"
    and "has_tables s \<Longrightarrow> ps_seg_off p + length (ps_seg p) < usize_bound \<Longrightarrow> \<exists>s' r. first_seg p i d s = Some (s', r)"
proof -
  let ?e = "recv_table s ! i"
  have alt: "first_seg p i d s = do {
      (d', h, result) \<leftarrow> recv_doc_seg d (ps_seg_off p) (ps_seg p) (heap s);
      case result of Inl err \<Rightarrow> Some (s\<lparr> heap := h \<rparr>, Inl err)
      | Inr c \<Rightarrow> store_seg (ps_doc_no p) i d' (Inr c) ?e (s\<lparr> heap := h \<rparr>) }"
    using n(4) by (cases "recv_doc_seg d (ps_seg_off p) (ps_seg p) (heap s)")
      (auto simp: first_seg_def Let_def store_seg_def split: sum.splits bool.splits)
  have store: "store_seg (ps_doc_no p) i d' (Inr c) ?e (s\<lparr> heap := h \<rparr>) = Some (s1, ret) \<Longrightarrow> links_ok R X s1"
    "has_tables s \<Longrightarrow> \<exists>s1 ret. store_seg (ps_doc_no p) i d' (Inr c) ?e (s\<lparr> heap := h \<rparr>) = Some (s1, ret)"
    if seg: "recv_doc_seg d (ps_seg_off p) (ps_seg p) (heap s) = Some (d', h, Inr c)" for d' h c s1 ret
  proof -
    obtain m where m: "rd_mem d' = Simple m" using recv_doc_seg_bytes [OF d(2,1) seg] by blast
    have "links_ok (insert i R) X (s\<lparr> heap := h \<rparr>)" using ok by simp
    note st = store_seg_links [OF this _ _ _ _ n(3) _ m, where i = i and Y = X and R' = R and r = "Inr c"]
    show "store_seg (ps_doc_no p) i d' (Inr c) ?e (s\<lparr> heap := h \<rparr>) = Some (s1, ret) \<Longrightarrow> links_ok R X s1"
      by (rule st(1)) (use n in \<open>auto simp: is_sending_def slot_is_fin_def\<close>)
    show "\<exists>s1 ret. store_seg (ps_doc_no p) i d' (Inr c) ?e (s\<lparr> heap := h \<rparr>) = Some (s1, ret)" if "has_tables s"
      by (rule st(2)) (use n that in \<open>auto simp: is_sending_def slot_is_fin_def has_tables_def\<close>)
  qed
  have mono: "links_ok R X s1 \<Longrightarrow> links_ok (insert i R) X s1" for s1 by (rule links_ok_mono) auto
  show "first_seg p i d s = Some (s', r) \<Longrightarrow> links_ok (if r = Inr () then R else insert i R) X s'"
    unfolding alt using store(1) mono ok by (auto split: bind_splits sum.splits)
  show "\<exists>s' r. first_seg p i d s = Some (s', r)" if "has_tables s" "ps_seg_off p + length (ps_seg p) < usize_bound"
    unfolding alt using recv_doc_seg_returns [OF d(2,1) that(2), of "heap s"] store(2) [OF _ that(1)] by (auto split: sum.splits)
qed

text \<open>Either the segment is refused and nothing happens, or the document is created.\<close>

lemma create_doc_cases:
  obtains (refused) ret where "create_doc p i s = Some (s, ret)"
  | (created) len total fl where "slot_is_fin (rs_doc (recv_table s ! i))" and "checked_add (recv_bytes_total s) len = Some total"
      and "total \<le> recv_bytes_max s" and "create_doc p i s = do {
        (s1, m) \<leftarrow> reply_mem p (reserve_slot p i (s\<lparr> recv_bytes_total := total \<rparr>));
        (s2, ret) \<leftarrow> first_seg p i (new_doc p len m) s1;
        s3 \<leftarrow> drop_unfinished_docs (if ps_is_closed p then rs_adoptable_orphans (recv_table s ! i) else []) (drop_flushers fl s2);
        s4 \<leftarrow> drop_closed_channel (rs_channel (recv_table s ! i)) s3;
        Some (s4, ret) }"
proof (cases "\<exists>ret. create_doc p i s = Some (s, ret)")
  case False
  then obtain len total where "ps_doc_len p = Some len" "slot_is_fin (rs_doc (recv_table s ! i))" "checked_add (recv_bytes_total s) len = Some total"
      "total \<le> recv_bytes_max s" "\<not> (case rs_orphans_expected_parent_no (recv_table s ! i) of None \<Rightarrow> False | Some q \<Rightarrow> q \<noteq> ps_doc_no p)"
    by (auto simp: create_doc_def Let_def split: option.splits if_split_asm)
  then show thesis
    by (intro created [where len = len and total = total and fl = "case rs_doc (recv_table s ! i) of Finishing f \<Rightarrow> f | _ \<Rightarrow> []"])
       (simp_all add: create_doc_def Let_def del: drop_unfinished_docs.simps)
qed (use refused in blast)

lemma reply_mem_links:
  assumes ok: "links_ok R X s" and plain: "no_reply_buffers s"
  shows "reply_mem p s = Some (s', m) \<Longrightarrow> links_ok R X s' \<and> m = None \<and> is_initiator s' = is_initiator s \<and>
      map rs_doc (recv_table s') = map rs_doc (recv_table s) \<and> length (send_table s') = length (send_table s)"
    and "has_tables s \<Longrightarrow> \<exists>s' m. reply_mem p s = Some (s', m)"
proof -
  define f where "f = (\<lambda>ch :: open_channel. let (reply, range) = try_incoming (reply_buffer ch) in (ch\<lparr> reply_buffer := reply \<rparr>, range))"
  have f: "snd (f ch) = None" if "reply_buffer ch = NoReply" for ch using that by (simp add: f_def try_incoming_def)
  have upd: "links_ok R X s' \<and> Option.bind r (map_option (\<lambda>(a, e). ReplyBuf a e)) = None \<and> is_initiator s' = is_initiator s \<and>
      map rs_doc (recv_table s') = map rs_doc (recv_table s) \<and> length (send_table s') = length (send_table s)"
    if u: "update_channel n f s = Some (s', r)" for n s' r
  proof -
    have "links_ok R X s'" by (rule links_ok_update_channel [OF u ok]) (simp add: f_def case_prod_beta)
    moreover have "r = None \<or> r = Some None"
      using u f plain
      by (auto simp: update_channel_def Let_def case_prod_beta no_reply_buffers_def list_all_length slot_plain_def chan_plain_def
          dest!: slot_idx_less split: option.splits if_splits)
    moreover have "is_initiator s' = is_initiator s \<and> map rs_doc (recv_table s') = map rs_doc (recv_table s) \<and>
        length (send_table s') = length (send_table s)"
      using u by (auto simp: update_channel_def Let_def case_prod_beta map_update list_update_same_conv dest!: slot_idx_less split: option.splits if_splits)
    ultimately show ?thesis by auto
  qed
  show "reply_mem p s = Some (s', m) \<Longrightarrow> links_ok R X s' \<and> m = None \<and> is_initiator s' = is_initiator s \<and>
      map rs_doc (recv_table s') = map rs_doc (recv_table s) \<and> length (send_table s') = length (send_table s)"
    using ok unfolding reply_mem_def f_def [symmetric] by (auto dest!: upd split: option.splits bind_splits)
  show "\<exists>s' m. reply_mem p s = Some (s', m)" if "has_tables s"
    using that by (auto simp: reply_mem_def update_channel_def has_tables_def slot_idx_def Let_def case_prod_beta split: option.splits)
qed

lemma no_reply_reserved: "no_reply_buffers s \<Longrightarrow> no_reply_buffers (reserve_slot p i (s\<lparr> recv_bytes_total := t \<rparr>))"
  unfolding reserve_slot_def Let_def no_reply_buffers_def set_recv_slot_def by (auto simp: slot_plain_def intro!: list_all_update)

lemma slot_idx_length: "length xs = length ys \<Longrightarrow> slot_idx n xs = slot_idx n ys"
  by (simp only: slot_idx_def)

lemma nth_slot_nos: "slot_nos s' = slot_nos s \<Longrightarrow> i < length (recv_table s) \<Longrightarrow> rs_doc_no (recv_table s' ! i) = rs_doc_no (recv_table s ! i)"
  by (metis length_map nth_map slot_nos_def)

lemma nth_rs_doc: "map rs_doc xs = map rs_doc ys \<Longrightarrow> i < length xs \<Longrightarrow> rs_doc (xs ! i) = rs_doc (ys ! i)"
  by (metis length_map nth_map)

text \<open>From the reserved slot to the first segment.\<close>

lemma begin_doc_links:
  assumes ok: "links_ok (insert i R) Y s" "no_reply_buffers s" and n: "\<not> is_sending s (ps_doc_no p)"
      "slot_idx (ps_doc_no p) (recv_table s) = Some i" "rs_doc_no (recv_table s ! i) = ps_doc_no p" "rs_doc (recv_table s ! i) = ActiveReserved"
    and len: "len < usize_bound" and m: "reply_mem p s = Some (s1, m)"
  shows "first_seg p i (new_doc p len m) s1 = Some (s2, r) \<Longrightarrow>
      links_ok (if r = Inr () then R else insert i R) Y s2 \<and> length (recv_table s2) = length (recv_table s)"
    and "has_tables s \<Longrightarrow> ps_seg_off p + length (ps_seg p) < usize_bound \<Longrightarrow> \<exists>s2 r. first_seg p i (new_doc p len m) s1 = Some (s2, r)"
proof -
  have i: "i < length (recv_table s)" using n(2) by (rule slot_idx_less)
  note rm = reply_mem_links(1) [OF ok m] reply_mem_nos [OF m]
  have s1: "links_ok (insert i R) Y s1" "\<not> is_sending s1 (ps_doc_no p)" "length (recv_table s1) = length (recv_table s)"
    using rm n(1) length_recv_table [OF rm(2)] by (auto simp: is_sending_def)
  have slot: "slot_idx (ps_doc_no p) (recv_table s1) = Some i" "rs_doc (recv_table s1 ! i) = ActiveReserved" "rs_doc_no (recv_table s1 ! i) = ps_doc_no p"
    using n(2-4) slot_idx_length [OF s1(3)] nth_rs_doc [of "recv_table s1" "recv_table s" i] nth_slot_nos [OF rm(2) i] rm(1) s1(3) i by simp_all
  have d: "rd_mem (new_doc p len m) = Simple (replicate len 0)" "doc_wf (new_doc p len m)"
    using rm(1) new_doc_wf [OF len, of None p] by (simp_all add: new_doc_def)
  note fs = first_seg_links [OF s1(1,2) slot(1,3,2) d]
  show "links_ok (if r = Inr () then R else insert i R) Y s2 \<and> length (recv_table s2) = length (recv_table s)"
    if "first_seg p i (new_doc p len m) s1 = Some (s2, r)"
    using fs(1) [OF that] length_recv_table [OF first_seg_nos [OF that]] i s1(3) by simp
  show "\<exists>s2 r. first_seg p i (new_doc p len m) s1 = Some (s2, r)" if "has_tables s" "ps_seg_off p + length (ps_seg p) < usize_bound"
  proof (rule fs(2) [OF _ that(2)])
    show "has_tables s1" using that(1) has_tables_length [OF s1(3)] rm(1) by simp
  qed
qed

lemma reserved_doc_links:
  fixes p :: parsed_seg and i total :: nat and s :: session
  defines "Y X \<equiv> docs_nos (if ps_is_closed p then rs_adoptable_orphans (recv_table s ! i) else []) + (chan_nos (rs_channel (recv_table s ! i)) + X)"
    and "s0 \<equiv> reserve_slot p i (s\<lparr> recv_bytes_total := total \<rparr>)"
  assumes ok: "session_ok R X s" and n: "\<not> is_sending s (ps_doc_no p)" "slot_idx (ps_doc_no p) (recv_table s) = Some i"
      "rs_doc_no (recv_table s ! i) < ps_doc_no p" and len: "len < usize_bound"
    and m: "reply_mem p s0 = Some (s1, m)"
  shows "first_seg p i (new_doc p len m) s1 = Some (s2, r) \<Longrightarrow>
      links_ok (if r = Inr () then R else insert i R) (Y X) s2 \<and> length (recv_table s2) = length (recv_table s)"
    and "has_tables s \<Longrightarrow> ps_seg_off p + length (ps_seg p) < usize_bound \<Longrightarrow> \<exists>s2 r. first_seg p i (new_doc p len m) s1 = Some (s2, r)"
proof -
  have i: "i < length (recv_table s)" using n(2) by (rule slot_idx_less)
  have r: "links_ok (insert i R) (Y X) s0"
    using reserve_slot_links [of R X "s\<lparr> recv_bytes_total := total \<rparr>" p i] ok n(2,3) by (auto simp: Y_def s0_def session_ok_def split: if_splits)
  have plain: "no_reply_buffers s0" using ok no_reply_reserved by (simp add: session_ok_def s0_def)
  have t: "length (recv_table s0) = length (recv_table s)" "\<not> is_sending s0 (ps_doc_no p)" "send_table s0 = send_table s"
    "slot_idx (ps_doc_no p) (recv_table s0) = Some i" "rs_doc_no (recv_table s0 ! i) = ps_doc_no p" "rs_doc (recv_table s0 ! i) = ActiveReserved"
    using i n(1,2) by (simp_all add: s0_def reserve_slot_def Let_def is_sending_def set_recv_slot_def)
  note begin' = begin_doc_links [OF r plain t(2,4,5,6) len m]
  show "first_seg p i (new_doc p len m) s1 = Some (s2, r) \<Longrightarrow>
      links_ok (if r = Inr () then R else insert i R) (Y X) s2 \<and> length (recv_table s2) = length (recv_table s)" using begin'(1) t(1) by simp
  show "has_tables s \<Longrightarrow> ps_seg_off p + length (ps_seg p) < usize_bound \<Longrightarrow> \<exists>s2 r. first_seg p i (new_doc p len m) s1 = Some (s2, r)"
    using begin'(2) has_tables_length [OF t(1)] t(3) by simp
qed

lemma reserved_mem_returns:
  "no_reply_buffers s \<Longrightarrow> has_tables s \<Longrightarrow> \<exists>s' m. reply_mem p (reserve_slot p i (s\<lparr> recv_bytes_total := t \<rparr>)) = Some (s', m)"
  by (auto simp: reply_mem_def update_channel_def has_tables_def slot_idx_def reserve_slot_def Let_def case_prod_beta set_recv_slot_def split: option.splits)

lemma create_doc_links:
  assumes ok: "session_ok R X s" and n: "\<not> is_sending s (ps_doc_no p)" "slot_idx (ps_doc_no p) (recv_table s) = Some i"
      "rs_doc_no (recv_table s ! i) < ps_doc_no p"
  shows "create_doc p i s = Some (s', r) \<Longrightarrow> links_ok (if r = Inr () then R else insert i R) X s'"
proof (cases rule: create_doc_cases [of p i s])
  case (created len total fl)
  have len: "len < usize_bound" using created(2) by (auto simp: checked_add_def split: if_splits)
  define os where "os = (if ps_is_closed p then rs_adoptable_orphans (recv_table s ! i) else [])"
  assume "create_doc p i s = Some (s', r)"
  then obtain s1 m s2 s3 where 1: "reply_mem p (reserve_slot p i (s\<lparr> recv_bytes_total := total \<rparr>)) = Some (s1, m)"
    and 2: "first_seg p i (new_doc p len m) s1 = Some (s2, r)"
    and 3: "drop_unfinished_docs os (drop_flushers fl s2) = Some s3" and 4: "drop_closed_channel (rs_channel (recv_table s ! i)) s3 = Some s'"
    using created(4) unfolding os_def [symmetric] by (auto simp del: drop_unfinished_docs.simps split: bind_splits)
  show ?thesis
    using reserved_doc_links(1) [OF ok n len 1 2] drop_docs_links [OF 3] drop_closed_channel_links(1) [OF 4] by (simp add: os_def)
qed (use ok links_ok_mono [of R X s X "insert i R"] in \<open>auto simp: session_ok_def\<close>)

lemma create_doc_returns:
  assumes ok: "session_ok R X s" and n: "\<not> is_sending s (ps_doc_no p)" "slot_idx (ps_doc_no p) (recv_table s) = Some i"
      "rs_doc_no (recv_table s ! i) < ps_doc_no p" and tab: "has_tables s" and off: "ps_seg_off p + length (ps_seg p) < usize_bound"
  shows "\<exists>s' r. create_doc p i s = Some (s', r)"
proof (cases rule: create_doc_cases [of p i s])
  case (created len total fl)
  have len: "len < usize_bound" using created(2) by (auto simp: checked_add_def split: if_splits)
  define os where "os = (if ps_is_closed p then rs_adoptable_orphans (recv_table s ! i) else [])"
  let ?ch = "rs_channel (recv_table s ! i)"
  obtain s1 m where 1: "reply_mem p (reserve_slot p i (s\<lparr> recv_bytes_total := total \<rparr>)) = Some (s1, m)"
    using reserved_mem_returns [OF _ tab] ok unfolding session_ok_def by blast
  obtain s2 r2 where 2: "first_seg p i (new_doc p len m) s1 = Some (s2, r2)" using reserved_doc_links(2) [OF ok n len 1 tab off] by blast
  let ?R = "if r2 = Inr () then R else insert i R"
  have l2: "links_ok ?R (docs_nos os + (chan_nos ?ch + X)) (drop_flushers fl s2)" "recv_table (drop_flushers fl s2) \<noteq> []"
    using reserved_doc_links(1) [OF ok n len 1 2] tab by (auto simp: has_tables_def drop_flushers_def os_def)
  obtain s3 where 3: "drop_unfinished_docs os (drop_flushers fl s2) = Some s3" using drop_docs_returns [OF l2] by blast
  have "recv_table s3 \<noteq> []" using length_recv_table [OF drop_docs_nos [OF 3]] l2(2) by (metis length_0_conv)
  then obtain s4 where "drop_closed_channel ?ch s3 = Some s4"
    using drop_closed_channel_links(2) [of ?R ?ch X s3] drop_docs_links [OF 3 l2(1)] by blast
  then show ?thesis using 1 2 3 created(4) by (simp add: os_def del: drop_unfinished_docs.simps)
qed simp

text \<open>Only a segment that is refused leaves a slot reserved.\<close>

lemma recv_seg_links:
  assumes s': "recv_seg v packet j s = Some (s', j', r)" and ok: "session_ok R X s"
  shows "\<exists>R'. links_ok R' X s' \<and> (r = Inr () \<longrightarrow> R' = R)"
proof (cases "s' = s")
  case False
  then obtain p i where n: "\<not> is_sending s (ps_doc_no p)" "slot_idx (ps_doc_no p) (recv_table s) = Some i"
    and c: "rs_doc_no (recv_table s ! i) = ps_doc_no p \<and> update_doc p i s = Some (s', r) \<or>
      rs_doc_no (recv_table s ! i) < ps_doc_no p \<and> create_doc p i s = Some (s', r)"
    using s' by (auto simp: recv_seg_def Let_def split: option.splits sum.splits if_split_asm bind_splits)
  from c show ?thesis
  proof
    assume "rs_doc_no (recv_table s ! i) = ps_doc_no p \<and> update_doc p i s = Some (s', r)"
    then show ?thesis using update_doc_links(1) [OF ok n] by blast
  next
    assume "rs_doc_no (recv_table s ! i) < ps_doc_no p \<and> create_doc p i s = Some (s', r)"
    then show ?thesis using create_doc_links [OF ok n] by (metis (full_types))
  qed
qed (use ok in \<open>auto simp: session_ok_def\<close>)

lemma recv_seg_returns:
  assumes ok: "session_ok {} X s" and tab: "has_tables s" and alive: "send_bytes_max s > 0"
    and p: "parse_seg v packet j = Some (q, j')" "\<And>p. q = Inr p \<Longrightarrow> ps_seg_off p + length (ps_seg p) < usize_bound"
  shows "\<exists>s' j' r. recv_seg v packet j s = Some (s', j', r)"
proof (cases q)
  case (Inr p)
  obtain i where i: "slot_idx (ps_doc_no p) (recv_table s) = Some i" using tab by (auto simp: has_tables_def slot_idx_def)
  have "rs_doc (recv_table s ! i) \<noteq> ActiveReserved"
    using ok alive slot_idx_less [OF i] by (auto simp: session_ok_def links_ok_def reserved_only_def)
  then have "\<exists>s' r. update_doc p i s = Some (s', r)" if "\<not> is_sending s (ps_doc_no p)" "rs_doc_no (recv_table s ! i) = ps_doc_no p"
    using update_doc_links(2) [OF ok that(1) i that(2) tab] p(2) [OF Inr] by blast
  moreover have "\<exists>s' r. create_doc p i s = Some (s', r)" if "\<not> is_sending s (ps_doc_no p)" "rs_doc_no (recv_table s ! i) < ps_doc_no p"
    using create_doc_returns [OF ok that(1) i that(2) tab] p(2) [OF Inr] by blast
  ultimately show ?thesis using p(1) Inr i by (auto simp: recv_seg_def Let_def)
qed (use p(1) in \<open>simp add: recv_seg_def\<close>)

lemma session_okI: "table_wf s \<Longrightarrow> bytes_ok mx x s \<Longrightarrow> links_ok R X s \<Longrightarrow> session_ok R X s"
  by (simp add: session_ok_def bytes_ok_def)

lemma recv_packet_links:
  "recv_packet packet j s = Some (s', j') \<Longrightarrow> table_wf s \<Longrightarrow> bytes_ok mx x s \<Longrightarrow> links_ok {} X s \<Longrightarrow> links_ok {} X s'"
proof (induction packet j s rule: recv_packet.induct)
  case (1 packet j s)
  have seg: "\<exists>R'. links_ok R' X s1 \<and> (r = Inr () \<longrightarrow> R' = {})" if "recv_seg v packet k s = Some (s1, k', r)" for v k s1 k' r
    using recv_seg_links [OF that session_okI] 1(4-6) by blast
  from 1 show ?case
    by (subst (asm) (3) recv_packet.simps)
       (fastforce simp: Let_def dest: recv_seg_wf recv_seg_bytes seg intro: links_ok_abandon split: if_split_asm option.splits sum.splits)
qed

section \<open>The operations of the application and of sending\<close>

lemma pop_ready_nos: "docs_nos (ready_docs (fst (pop_ready ch))) \<subseteq># docs_nos (ready_docs ch)"
  by (cases "ready_docs ch" rule: rev_cases) (simp_all add: pop_ready_def)

lemma release_doc_links [simp]: "links_ok R X (fst (release_doc d s)) = links_ok R X s"
  by (simp add: release_doc_def)

lemma try_recv_links: "try_recv c s = Some (s', r) \<Longrightarrow> links_ok R X s \<Longrightarrow> links_ok R X s'"
  using links_ok_update_channel [where f = pop_ready and s = s and n = "channel_doc_no c"] pop_ready_nos
  by (auto simp: try_recv_def Let_def case_prod_beta split: sum.splits option.splits bind_splits)

lemma recv_poll_links:
  assumes "recv_poll c w s = Some (s', r)" and ok: "links_ok R X s"
  shows "links_ok R X s'"
proof -
  let ?f = "\<lambda>ch. case pop_ready ch of (ch, Some d) \<Rightarrow> (ch, Some d) | (ch, None) \<Rightarrow> (ch\<lparr> ready_wakers := ready_wakers ch @ [w] \<rparr>, None)"
  have "docs_nos (ready_docs (fst (?f ch))) \<subseteq># docs_nos (ready_docs ch)" for ch
    using pop_ready_nos [of ch] by (cases "pop_ready ch"; cases "snd (pop_ready ch)") auto
  note u = links_ok_update_channel [OF _ ok this]
  show ?thesis using assms(1) ok u
    by (auto simp: recv_poll_def Let_def case_prod_beta split: sum.splits option.splits bind_splits)
qed

lemma close_if_inner_links:
  assumes s': "close_if_inner c f s = Some (s', r)" and ok: "links_ok R X s"
    and f: "\<And>ch ch' b. f ch = Some (ch', b) \<Longrightarrow> ready_docs ch' = ready_docs ch"
  shows "links_ok R X s'"
proof -
  have send: "links_ok R (chan_nos (Some ch') + X) (set_send_slot i ((send_table s ! i)\<lparr> ss_channel := None, ss_needs_send_close := True \<rparr>) s)"
    "links_ok R X (set_send_slot i ((send_table s ! i)\<lparr> ss_channel := Some ch' \<rparr>) s)"
    if "slot_idx n (send_table s) = Some i" "ss_channel (send_table s ! i) = Some ch" "f ch = Some (ch', b)" for i n ch ch' b
    by (rule links_ok_send_slot [OF ok slot_idx_less [OF that(1)]], use that(2) f [OF that(3)] in simp)+
  have recv: "links_ok R (chan_nos (Some ch') + X) (set_recv_slot i ((recv_table s ! i)\<lparr> rs_channel := None, rs_needs_send_control := True \<rparr>) s)"
    "links_ok R X (set_recv_slot i ((recv_table s ! i)\<lparr> rs_channel := Some ch' \<rparr>) s)"
    if "slot_idx n (recv_table s) = Some i" "rs_channel (recv_table s ! i) = Some ch" "f ch = Some (ch', b)" for i n ch ch' b
    by (rule links_ok_same_slot [OF ok slot_idx_less [OF that(1)]], use that(2) f [OF that(3)] in \<open>simp_all add: slot_held_def\<close>)+
  have fin: "links_ok R X s'" if "drop_closed_channel cl (schedule_send_control v n s1) = Some s'" "links_ok R (chan_nos cl + X) s1" for cl v n s1
    using drop_closed_channel_links(1) [OF that(1)] that(2) by simp
  show ?thesis
    using s' ok send(2) recv(2) fin [OF _ send(1)] fin [OF _ recv(1)]
    by (auto simp: close_if_inner_def drop_closed_channel_def [of None] Let_def split: option.splits if_split_asm bind_splits)
qed

lemma close_links:
  "close_channel c s = Some (s', r) \<Longrightarrow> links_ok R X s \<Longrightarrow> links_ok R X s'"
  "close_if c b s = Some (s', r) \<Longrightarrow> links_ok R X s \<Longrightarrow> links_ok R X s'"
  "drop_channel c s = Some s' \<Longrightarrow> links_ok R X s \<Longrightarrow> links_ok R X s'"
  by (auto simp: close_channel_def close_if_def drop_channel_def elim!: close_if_inner_links split: sum.splits bind_splits)

lemma find_slot_links:
  assumes "find_slot s = Some (s', n, i)" and "links_ok R X s"
  shows "links_ok R X (fill_slot c doc NoReply n i s')"
proof -
  note free = find_slot_free [OF assms(1)]
  have "links_ok R X s'" using assms(2) free by (simp add: links_ok_def held_nos_def doc_done_def reserved_only_def is_sending_def)
  then show ?thesis unfolding fill_slot_def by (rule links_ok_send_slot) (use free in auto)
qed

lemma try_send_links: "try_send c doc s = Some (s', r) \<Longrightarrow> links_ok R X s \<Longrightarrow> links_ok R X s'"
  by (auto simp: try_send_def try_send_any_def Let_def intro: find_slot_links split: if_split_asm bind_splits)

lemma send_poll_links: "send_poll c w f s = Some (s', f', r) \<Longrightarrow> links_ok R X s \<Longrightarrow> links_ok R X s'"
  by (induction c w f s rule: send_poll.induct)
     (auto simp: wake_next_sender_def dest!: try_send_links split: bind_splits sum.splits prod.splits try_send_error.splits list.splits)

lemma channel_holds_nos: "channel_holds c = channel_holds c' \<Longrightarrow> chan_nos c = chan_nos c'"
  by (cases c; cases c') (auto simp: channel_holds_def)

lemma same_docs_held: "same_docs e e' \<Longrightarrow> slot_held e' = slot_held e"
  using channel_holds_nos [of "rs_channel e'" "rs_channel e"] by (auto simp: same_docs_def slot_held_def)

interpretation links: received_invariant "links_ok R X" for R X
proof
  fix s :: session and i and e :: send_slot
  assume i: "links_ok R X s" "i < length (send_table s)" "channel_holds (ss_channel e) = channel_holds (ss_channel (send_table s ! i))"
  show "links_ok R X (set_send_slot i e s)" using links_ok_send_slot [OF i(1,2), of e X] channel_holds_nos [OF i(3)] by simp
next
  fix s :: session and i and e :: recv_slot
  assume i: "links_ok R X s" "i < length (recv_table s)" "same_docs (recv_table s ! i) e"
  show "links_ok R X (set_recv_slot i e s)"
    by (rule links_ok_same_slot [OF i(1,2)]) (use i(3) same_docs_held [OF i(3)] in \<open>auto simp: same_docs_def slot_is_fin_def\<close>)
qed simp

lemma plain_move_links: "plain_move s s' \<Longrightarrow> table_wf s \<Longrightarrow> bytes_ok mx x s \<Longrightarrow> links_ok {} X s \<Longrightarrow> links_ok {} X s'"
  by (induction rule: plain_move.induct)
     (auto dest: recv_packet_links try_recv_links recv_poll_links try_send_links send_poll_links
       links.flush_poll_keeps close_links links.clone_channel_keeps links.transmit_keeps)

lemma plain_moves_links:
  "plain_move\<^sup>*\<^sup>* s s' \<Longrightarrow> table_wf s \<Longrightarrow> bytes_ok mx x s \<Longrightarrow> links_ok {} X s \<Longrightarrow> links_ok {} X s' \<and> bytes_ok mx x s' \<and> table_wf s'"
  by (induction rule: rtranclp_induct) (auto dest: plain_move_bytes plain_move_wf plain_move_links)

end
