(* ===== verification/No_Panic.thy ===== *)
theory No_Panic
  imports Held_Docs
begin

text \<open>
  Packets do not make a session panic.  The partial definitions of receiving have no result where the
  code would panic or wait for a slot.  With the invariants of \<open>Session_Inv\<close>, \<open>Recv_Bytes\<close> and
  \<open>Held_Docs\<close> they all have one, for every packet without two kinds of frames: \<open>frames_ok\<close> says
  which.
\<close>

section \<open>What the operations leave alone\<close>

definition frame :: "session \<Rightarrow> u64 \<times> nat \<times> nat" where
  "frame s = (send_bytes_max s, length (send_table s), length (recv_table s))"

lemma frame_steps [simp]:
  "frame (wake_all ws s) = frame s" "frame (drop_doc_state d s) = frame s"
  "frame (schedule_send_control v n s) = frame s" "frame (wake_opt w s) = frame s"
  "frame (reply_wake r s) = frame s" "frame (drop_flushers ws s) = frame s"
  "frame (s\<lparr> heap := h \<rparr>) = frame s" "frame (s\<lparr> recv_bytes_total := t \<rparr>) = frame s"
  "frame (set_recv_slot i e s) = frame s" "frame (set_send_slot i f s) = frame s"
  by (simp_all add: frame_def wake_opt_def reply_wake_def drop_flushers_def wake_all_def drop_doc_state_def schedule_send_control_def
      set_recv_slot_def set_send_slot_def split: option.splits special_reply_state.splits recv_doc_state.splits)

lemma drop_one_frame: "drop_one n l s = Some (s', docs) \<Longrightarrow> frame s' = frame s"
  by (auto simp: drop_one_def Let_def split: option.splits if_splits)

lemma drop_loop_frame: "drop_loop stack s = Some s' \<Longrightarrow> frame s' = frame s"
  by (induction stack s rule: drop_loop.induct) (auto dest!: drop_one_frame split: option.splits)

lemma drop_unfinished_frame: "drop_unfinished_recv_doc n l s = Some s' \<Longrightarrow> frame s' = frame s"
  unfolding drop_unfinished_recv_doc_def by (rule drop_loop_frame)

lemma drop_docs_frame: "drop_unfinished_docs ds s = Some s' \<Longrightarrow> frame s' = frame s"
  by (induction ds arbitrary: s) (auto dest!: drop_unfinished_frame split: bind_splits)

lemma drop_closed_channel_frame: "drop_closed_channel ch s = Some s' \<Longrightarrow> frame s' = frame s"
  by (auto simp: drop_closed_channel_def dest: drop_docs_frame split: option.splits bind_splits)

lemma update_channel_frame: "update_channel n f s = Some (s', r) \<Longrightarrow> frame s' = frame s"
  by (auto simp: update_channel_def Let_def frame_def split: option.splits if_splits prod.splits)

lemma fin_to_parent_frame: "fin_to_parent n d p c s = Some (s', r) \<Longrightarrow> frame s' = frame s"
  by (auto simp: fin_to_parent_def Let_def dest: drop_unfinished_frame split: option.splits if_split_asm bind_splits doc_mem.splits)

lemma fin_doc_frame: "fin_doc n i s = Some (s', r) \<Longrightarrow> frame s' = frame s"
  by (auto simp: fin_doc_def Let_def dest!: fin_to_parent_frame split: option.splits recv_doc_state.splits)

lemma update_doc_frame: "update_doc p i s = Some (s', r) \<Longrightarrow> frame s' = frame s"
  by (auto simp: update_doc_def Let_def dest!: fin_doc_frame drop_closed_channel_frame
      split: recv_doc_state.splits bind_splits sum.splits bool.splits)

lemma first_seg_frame: "first_seg p i d s = Some (s', r) \<Longrightarrow> frame s' = frame s"
  by (auto simp: first_seg_def Let_def dest!: fin_doc_frame split: if_splits bind_splits sum.splits bool.splits)

lemma create_doc_frame:
  assumes "create_doc p i s = Some (s', r)"
  shows "frame s' = frame s"
proof (cases rule: create_doc_cases [of p i s])
  case (created len total fl)
  have "frame s2 = frame s1" if "reply_mem p s1 = Some (s2, m)" for s1 s2 m
    using that by (auto simp: reply_mem_def dest: update_channel_frame split: option.splits bind_splits)
  moreover have "frame (reserve_slot p i (s\<lparr> recv_bytes_total := total \<rparr>)) = frame s" by (simp add: reserve_slot_def Let_def)
  ultimately show ?thesis
    using assms created(4)
    by (auto simp del: drop_unfinished_docs.simps dest!: first_seg_frame drop_docs_frame drop_closed_channel_frame split: bind_splits)
qed (use assms in simp)

lemma recv_seg_frame: "recv_seg v packet j s = Some (s', j', r) \<Longrightarrow> frame s' = frame s"
  by (auto simp: recv_seg_def Let_def dest: update_doc_frame create_doc_frame split: option.splits sum.splits if_split_asm bind_splits)

lemma recv_packet_tables: "recv_packet packet j s = Some (s', j') \<Longrightarrow> snd (frame s') = snd (frame s)"
proof (induction packet j s rule: recv_packet.induct)
  case (1 packet j s)
  have "snd (frame (abandon s)) = snd (frame s)" for s by (simp add: frame_def abandon_def)
  with 1 show ?case
    by (subst (asm) (3) recv_packet.simps)
       (fastforce simp: Let_def dest: recv_seg_frame split: if_split_asm option.splits sum.splits)
qed

lemma release_doc_frame [simp]: "frame (fst (release_doc d s)) = frame s"
  by (simp add: release_doc_def)

lemma recv_frame:
  "try_recv c s = Some (s', r) \<Longrightarrow> frame s' = frame s" "recv_poll c w s = Some (s', r') \<Longrightarrow> frame s' = frame s"
  by (auto simp: try_recv_def recv_poll_def Let_def case_prod_beta dest: update_channel_frame
      split: sum.splits option.splits bind_splits if_splits)

lemma close_if_inner_frame: "close_if_inner c f s = Some (s', r) \<Longrightarrow> frame s' = frame s"
  by (auto simp: close_if_inner_def Let_def dest!: drop_closed_channel_frame split: option.splits if_split_asm bind_splits)

lemma try_send_frame: "try_send c doc s = Some (s', r) \<Longrightarrow> frame s' = frame s"
  by (auto simp: try_send_def try_send_any_def Let_def fill_slot_def frame_def set_send_slot_def dest: find_slot_free
      split: if_split_asm bind_splits)

lemma wakers_frame [simp]: "frame (s\<lparr> send_wakers := ws \<rparr>) = frame s" "frame (wake_next_sender b s) = frame s"
  by (simp_all add: frame_def wake_next_sender_def wake_all_def split: list.splits)

lemma send_poll_frame: "send_poll c w f s = Some (s', f', r) \<Longrightarrow> frame s' = frame s"
  by (induction c w f s rule: send_poll.induct)
     (auto dest!: try_send_frame split: bind_splits sum.splits prod.splits try_send_error.splits)

lemma close_frame:
  "close_channel c s = Some (s', r) \<Longrightarrow> frame s' = frame s" "close_if c b s = Some (s', r) \<Longrightarrow> frame s' = frame s"
  "drop_channel c s = Some s' \<Longrightarrow> frame s' = frame s"
  by (auto simp: close_channel_def close_if_def drop_channel_def dest: close_if_inner_frame split: sum.splits bind_splits)

interpretation framed: received_invariant "\<lambda>s. frame s = f" for f
  by unfold_locales (simp_all add: frame_def set_send_slot_def set_recv_slot_def)

lemma plain_move_tables: "plain_move s s' \<Longrightarrow> snd (frame s') = snd (frame s)"
  by (induction rule: plain_move.induct)
     (auto dest: recv_packet_tables recv_frame try_send_frame send_poll_frame close_frame
       framed.flush_poll_keeps framed.clone_channel_keeps framed.transmit_keeps)

lemma plain_moves_tables: "plain_move\<^sup>*\<^sup>* s s' \<Longrightarrow> has_tables s' = has_tables s"
proof -
  have "snd (frame s') = snd (frame s)" if "plain_move\<^sup>*\<^sup>* s s'"
    using that by (induction rule: rtranclp_induct) (auto dest: plain_move_tables)
  then show "plain_move\<^sup>*\<^sup>* s s' \<Longrightarrow> has_tables s' = has_tables s" by (auto simp: frame_def has_tables_def)
qed

section \<open>Packets do not panic\<close>

text \<open>
  The frames of a packet as the receiver reads them.  Two kinds of segment frames are excluded: one
  with the length type 0, and one whose data would end behind the last address.
\<close>

function frames_ok :: "bytes \<Rightarrow> nat \<Rightarrow> bool" where
  "frames_ok packet idx =
     (if idx \<ge> length packet then True
      else
        let variant = packet ! idx in
        if variant = VARIANT_NULL_TERMINATOR then True
        else if VARIANT_SEG_MIN \<le> variant \<and> variant \<le> VARIANT_SEG_MAX then
          variant AND VARIANT_SEG_LEN_MASK \<noteq> 0 \<and>
          (case parse_seg variant packet (idx + 1) of
             Some (Inr p, idx') \<Rightarrow> ps_seg_off p + length (ps_seg p) < usize_bound \<and> frames_ok packet idx'
           | _ \<Rightarrow> True)
        else frames_ok packet (idx + 1))"
  by pat_completeness auto

termination
  by (relation "measure (\<lambda>(packet, idx). length packet - idx)") (auto dest!: parse_seg_forward)

declare frames_ok.simps [simp del]

lemma find_null_returns: "0 < i \<Longrightarrow> find_null packet i k \<noteq> None"
  by (induction packet i k rule: find_null.induct) (subst find_null.simps, auto split: nat.splits)

lemma len_type_cases:
  assumes "v AND VARIANT_SEG_LEN_MASK \<noteq> 0"
  shows "v AND VARIANT_SEG_LEN_MASK \<in> {VARIANT_SEG_HAS_LEN, VARIANT_SEG_IS_TERMINATOR, VARIANT_SEG_HAS_TERMINATOR}"
proof -
  have "unat (v AND mask 2) = unat v mod 4" by (simp only: unat_and_mask) simp
  then have "unat (v AND VARIANT_SEG_LEN_MASK) < 4" by (simp add: VARIANT_SEG_LEN_MASK_def mask_eq_exp_minus_1)
  then have "unat (v AND VARIANT_SEG_LEN_MASK) \<in> {0, 1, 2, 3}" by auto
  then show ?thesis using assms
    by (auto simp: VARIANT_SEG_HAS_LEN_def VARIANT_SEG_IS_TERMINATOR_def VARIANT_SEG_HAS_TERMINATOR_def word_unat_eq_iff)
qed

lemma parse_data_returns:
  assumes "l \<in> {VARIANT_SEG_HAS_LEN, VARIANT_SEG_IS_TERMINATOR, VARIANT_SEG_HAS_TERMINATOR}" and "0 < i" and "i \<le> length packet"
  shows "parse_data l packet i \<noteq> None"
  using assms find_null_returns [of i packet "length packet - 1"]
  by (auto simp: parse_data_def Let_def VARIANT_SEG_HAS_LEN_def VARIANT_SEG_IS_TERMINATOR_def VARIANT_SEG_HAS_TERMINATOR_def split: option.splits prod.splits)

lemma parse_seg_returns:
  assumes v: "v AND VARIANT_SEG_LEN_MASK \<noteq> 0" and i: "0 < i" "i \<le> length packet"
  shows "parse_seg v packet i \<noteq> None"
proof -
  have data: "parse_data (v AND VARIANT_SEG_LEN_MASK) packet k \<noteq> None" if "i \<le> k" "k \<le> length packet" for k
    using parse_data_returns [OF len_type_cases [OF v]] i(1) that by simp
  obtain q1 k1 where r1: "varu64_try_read packet i = (q1, k1)" by (metis surj_pair)
  have k1: "i \<le> k1" "k1 \<le> length packet" using read_forward(1) [OF r1 i(2)] by auto
  obtain q2 k2 where r2: "(if has_flag v VARIANT_SEG_FLAG_HAS_DOC_LEN then varusize_try_read packet k1 else (Some 0, k1)) = (q2, k2)" by (metis surj_pair)
  have k2: "i \<le> k2" "k2 \<le> length packet" using read_forward(2) [of packet k1 q2 k2] r2 k1 by (auto split: if_splits)
  obtain q3 k3 where r3: "(if has_flag v VARIANT_SEG_FLAG_HAS_SPECIAL_PARENT \<or> has_flag v VARIANT_SEG_FLAG_IS_FIRST
      then varu64_try_read packet k2 else (Some 0, k2)) = (q3, k3)" by (metis surj_pair)
  have k3: "i \<le> k3" "k3 \<le> length packet" using read_forward(1) [of packet k2 q3 k3] r3 k2 by (auto split: if_splits)
  obtain q4 k4 where r4: "(if \<not> has_flag v VARIANT_SEG_FLAG_IS_FIRST then varusize_try_read packet k3 else (Some 0, k3)) = (q4, k4)" by (metis surj_pair)
  have "i \<le> k4" "k4 \<le> length packet" using read_forward(2) [of packet k3 q4 k4] r4 k3 by (auto split: if_splits)
  then show ?thesis
    using data [of k4] unfolding parse_seg_def Let_def r1 prod.case r2 r3 r4 by (auto split: option.splits sum.splits)
qed

lemma recv_seg_was_parsed: "recv_seg v packet j s = Some (s', j', Inr u) \<Longrightarrow> \<exists>p. parse_seg v packet j = Some (Inr p, j')"
  by (auto simp: recv_seg_def Let_def split: option.splits sum.splits if_split_asm bind_splits)

lemma recv_packet_returns:
  "frames_ok packet j \<Longrightarrow> table_wf s \<Longrightarrow> bytes_ok mx x s \<Longrightarrow> links_ok {} X s \<Longrightarrow> has_tables s \<Longrightarrow> send_bytes_max s > 0 \<Longrightarrow>
    recv_packet packet j s \<noteq> None"
proof (induction packet j s rule: recv_packet.induct)
  case (1 packet j s)
  let ?v = "packet ! j"
  note ok = session_okI [OF 1(4-6)]
  show ?case
  proof (cases "j < length packet \<and> ?v \<noteq> VARIANT_NULL_TERMINATOR \<and> VARIANT_SEG_MIN \<le> ?v \<and> ?v \<le> VARIANT_SEG_MAX")
    case True
    have f: "?v AND VARIANT_SEG_LEN_MASK \<noteq> 0" "\<And>p k. parse_seg ?v packet (j + 1) = Some (Inr p, k) \<Longrightarrow>
        ps_seg_off p + length (ps_seg p) < usize_bound \<and> frames_ok packet k"
      using 1(3) True by (subst (asm) frames_ok.simps, simp add: Let_def)+
    obtain q k where p: "parse_seg ?v packet (j + 1) = Some (q, k)" using parse_seg_returns [OF f(1)] True by fastforce
    obtain s' k' r where r: "recv_seg ?v packet (j + 1) s = Some (s', k', r)"
      using recv_seg_returns [OF ok 1(7,8) p] f(2) p by blast
    show ?thesis
    proof (cases r)
      case (Inr u)
      have "frames_ok packet k'" using recv_seg_was_parsed [OF r [unfolded Inr]] f(2) by blast
      moreover have "links_ok {} X s'" using recv_seg_links [OF r ok] Inr by auto
      moreover have "has_tables s'" "send_bytes_max s' > 0" using recv_seg_frame [OF r] 1(7,8) by (auto simp: has_tables_def frame_def)
      ultimately have "recv_packet packet k' s' \<noteq> None"
        using 1(1) [OF _ refl] True r Inr recv_seg_wf [OF r 1(4)] recv_seg_bytes [OF r] 1(4,5) by force
      then show ?thesis using r Inr True by (subst recv_packet.simps) (simp add: Let_def)
    qed (use r True in \<open>subst recv_packet.simps, simp add: Let_def\<close>)
  next
    case False
    have "frames_ok packet (j + 1)" if "j < length packet" "?v \<noteq> VARIANT_NULL_TERMINATOR"
      using 1(3) False that by (subst (asm) frames_ok.simps) (auto simp: Let_def)
    then show ?thesis using False 1(2) [OF _ refl] 1(4-8) by (subst recv_packet.simps) (auto simp: Let_def)
  qed
qed

text \<open>A segment that would end behind the last address makes receiving panic.\<close>

lemma overflowing_segment_panics:
  "seg \<noteq> [] \<Longrightarrow> off + length seg \<ge> usize_bound \<Longrightarrow> recv_doc_seg d off seg h = None"
  by (simp add: recv_doc_seg_def checked_add_def)

section \<open>From a fresh session on\<close>

definition chan_fresh :: "open_channel option \<Rightarrow> bool" where
  "chan_fresh c = (case c of None \<Rightarrow> True | Some ch \<Rightarrow> ready_docs ch = [] \<and> reply_buffer ch = NoReply)"

text \<open>Nothing has been received yet.\<close>

definition fresh_session :: "session \<Rightarrow> bool" where
  "fresh_session s \<longleftrightarrow> has_tables s \<and> recv_bytes_total s \<le> recv_bytes_max s \<and> recv_bytes_max s < usize_bound \<and>
     list_all (\<lambda>e. rs_doc e = FinAck \<and> rs_adoptable_orphans e = [] \<and> chan_fresh (rs_channel e)) (recv_table s) \<and>
     list_all (\<lambda>e. chan_fresh (ss_channel e)) (send_table s)"

lemma sum_list_0: "(\<And>x. x \<in> set xs \<Longrightarrow> f x = (0 :: 'a :: comm_monoid_add)) \<Longrightarrow> (\<Sum>x\<leftarrow>xs. f x) = 0"
  by (induction xs) auto

lemma chan_fresh_held: "chan_fresh c \<Longrightarrow> chan_nos c = {#} \<and> chan_bytes c = 0 \<and> chan_plain c"
  by (auto simp: chan_fresh_def split: option.splits)

lemma fresh_session_ok:
  assumes "fresh_session s"
  shows "table_wf s" and "bytes_ok (recv_bytes_max s) 0 s" and "links_ok {} {#} s"
proof -
  have slot: "rs_doc e = FinAck" "slot_held e = {#}" "slot_bytes e = 0" "slot_plain e" if "e \<in> set (recv_table s)" for e
    using that assms chan_fresh_held [of "rs_channel e"]
    by (auto simp: fresh_session_def list_all_iff slot_held_def slot_bytes_def slot_plain_def)
  have chan: "chan_nos (ss_channel e) = {#}" "chan_bytes (ss_channel e) = 0" "chan_plain (ss_channel e)" if "e \<in> set (send_table s)" for e
    using that assms chan_fresh_held [of "ss_channel e"] by (auto simp: fresh_session_def list_all_iff)
  show "table_wf s" by (simp add: table_wf_def list_all_iff slot_wf_def slot)
  have "held_bytes s = 0" unfolding held_bytes_def using slot(3) chan(2) by (simp add: sum_list_0)
  then show "bytes_ok (recv_bytes_max s) 0 s"
    using assms slot(4) chan(3) by (simp add: bytes_ok_def no_reply_buffers_def list_all_iff fresh_session_def)
  have "held_nos s = {#}" unfolding held_nos_def using slot(2) chan(1) by (simp add: sum_list_0)
  then show "links_ok {} {#} s" using slot(1) by (auto simp: links_ok_def reserved_only_def)
qed



text \<open>
  The documents that a session holds are held once.  A finished document that waits for the
  application, in a channel or among the orphans of a slot, is in no second place, and its slot is
  finished or has gone on to a later document.
\<close>

lemma held_documents_unique:
  assumes "fresh_session s" and "plain_move\<^sup>*\<^sup>* s s'"
  shows "count (held_nos s') n \<le> 1 \<and> (n \<in># held_nos s' \<longrightarrow> doc_done s' n)"
  using plain_moves_links [OF assms(2) fresh_session_ok [OF assms(1)]] by (simp add: links_ok_def)

end
