(* ===== verification/Awaited.thy ===== *)
theory Awaited
  imports End_To_End Channel_Correct
begin

text \<open>
  From one application to the other.  A task waits on a channel for a document; the document is cut,
  sent in packets and received as in \<open>End_To_End\<close>; the task is woken and takes the document from its
  future.
\<close>

section \<open>Polling for a document\<close>

lemma recv_poll_waits:
  assumes "check_basic c s = Inr ()" and "parent_open (channel_doc_no c) k ch s" and "ready_docs ch = []"
  shows "recv_poll c w s =
    Some (set_send_slot k ((send_table s ! k)\<lparr> ss_channel := Some (ch\<lparr> ready_wakers := ready_wakers ch @ [w] \<rparr>) \<rparr>) s, Pending)"
  using assms by (simp add: recv_poll_def update_channel_def parent_open_def pop_ready_def set_send_slot_def)

lemma recv_poll_takes:
  assumes "check_basic c s = Inr ()" and "parent_open (channel_doc_no c) k ch s" and "ready_docs ch = ds @ [d]"
  shows "recv_poll c w s =
    (let (s', doc) = release_doc d (set_send_slot k ((send_table s ! k)\<lparr> ss_channel := Some (ch\<lparr> ready_docs := ds \<rparr>) \<rparr>) s)
     in Some (s', Ready (Inr doc)))"
  using assms by (simp add: recv_poll_def update_channel_def parent_open_def pop_ready_def set_send_slot_def)

lemma fetch_sub_add: "a + b < usize_bound \<Longrightarrow> fetch_sub (a + b) b = a"
  by (simp add: fetch_sub_def)

lemma check_basic_fields: "send_bytes_max s' = send_bytes_max s \<Longrightarrow> check_basic c s' = check_basic c s"
  by (simp add: check_basic_def)

text \<open>What a channel change leaves of the conditions for an arrival.\<close>

lemma arrival_conditions_set:
  assumes "parent_open q k ch s" and "slot_ready n len i s"
  shows "parent_open q k ch' (set_send_slot k ((send_table s ! k)\<lparr> ss_channel := Some ch' \<rparr>) s)"
    and "slot_ready n len i (set_send_slot k ((send_table s ! k)\<lparr> ss_channel := Some ch' \<rparr>) s)"
  using assms slot_idx_less [of q "send_table s" k]
  by (auto simp: parent_open_def slot_ready_def is_sending_def slot_idx_def set_send_slot_def split: if_splits)



end
