(* ===== verification/Reply_Buffer.thy ===== *)
theory Reply_Buffer
  imports Channel_Correct Recv_Tables
begin

text \<open>
  Reply buffers.  \<open>send_with_reply_buffer\<close> of \<open>channel.rs\<close> lends memory of the application to the session,
  by address, and \<open>recv.rs\<close> writes the reply there.  The loan is to end with the future.
\<close>

section \<open>Lending a buffer\<close>

text \<open>
  The first poll of the future puts the addresses of the buffer into the channel of the document it
  sends, where \<open>try_incoming\<close> finds them when a reply starts.
\<close>

lemma first_poll_lends:
  assumes "send_reply_poll c buffer w (send_with_reply_buffer doc) s = Some (s', Sent n, Pending)"
  shows "\<exists>i ch. i < length (send_table s') \<and> ss_doc_no (send_table s' ! i) = n \<and> ss_channel (send_table s' ! i) = Some ch \<and>
    ref_count ch = 1 \<and> ready_docs ch = [] \<and> snd (try_incoming (reply_buffer ch)) = Some buffer"
proof -
  obtain s1 s2 i where "find_slot s1 = Some (s2, n, i)" and s': "s' = fill_slot c doc (Awaiting (Some buffer) w) n i s2"
    using assms
    by (auto simp: send_with_reply_buffer_def try_send_any_def Let_def wake_next_sender_def
        split: bind_splits if_split_asm sum.splits prod.splits try_send_error.splits)
  then have "i < length (send_table s2)" using find_slot_free by blast
  then show ?thesis unfolding s' by (intro exI [of _ i]) (simp add: fill_slot_def set_send_slot_def try_incoming_def)
qed

section \<open>Segments of a reply\<close>

text \<open>A segment of a reply is written to the start of the buffer, whatever its offset.\<close>

lemma reply_seg_written:
  assumes mem: "rd_mem d = ReplyBuf a e" and seg: "seg \<noteq> []" "length seg < e - a" "off + length seg \<le> e - a" "e - a < usize_bound"
    and words: "off + length seg \<le> 64 * length (rd_set_segs d)"
  obtains d' new where "recv_doc_seg d off seg h = Some (d', \<lambda>x. if a \<le> x \<and> x < a + length seg then seg ! (x - a) else h x,
      Inr (rd_total_recv d + new = e - a))" and "new \<le> length seg"
proof -
  have n: "0 < length seg" and len: "doc_mem_len (rd_mem d) = e - a" using seg(1) mem by (simp_all add: doc_mem_len_def)
  have wr: "doc_mem_write (rd_mem d) off seg h = Some (rd_mem d, \<lambda>x. if a \<le> x \<and> x < a + length seg then seg ! (x - a) else h x)"
    using seg(2) mem by (simp add: doc_mem_write_def)
  have le: "off + length seg \<le> doc_mem_len (rd_mem d)" "doc_mem_len (rd_mem d) < usize_bound" using seg(3,4) len by simp_all
  from recv_doc_seg_stored [OF n le words wr] obtain segs k where
    s: "recv_doc_seg d off seg h = Some (d\<lparr> rd_set_segs := segs, rd_total_recv := rd_total_recv d + k, rd_mem := rd_mem d \<rparr>,
        \<lambda>x. if a \<le> x \<and> x < a + length seg then seg ! (x - a) else h x, Inr (rd_total_recv d + k = e - a))"
      "rmarks segs = rmarks (rd_set_segs d) \<union> seg_marks off (length seg)" "card (rmarks segs) = card (rmarks (rd_set_segs d)) + k" unfolding len by blast
  have "card (seg_marks off (length seg)) \<le> card {off..<off + length seg}" by (rule card_mono) (auto simp: seg_marks_def)
  then have "k \<le> length seg" using s(2,3) card_Un_le [of "rmarks (rd_set_segs d)" "seg_marks off (length seg)"] by simp
  then show thesis using that s(1) by blast
qed

section \<open>The future is dropped\<close>

text \<open>Dropping the only handle of a channel without documents leaves the receive table and the memory as they are.\<close>

lemma drop_channel_keeps:
  assumes "handle_slot c s k ch" and "ref_count ch = 1" and "ready_docs ch = []"
  obtains s' where "drop_channel c s = Some s'" and "recv_table s' = recv_table s" and "heap s' = heap s"
    and "is_initiator s' = is_initiator s"
  using that close_if_inner_slot [OF assms(1)] assms(2,3)
  by (auto simp: drop_channel_def checked_sub_def drop_closed_channel_def reply_wake_def wake_all_def schedule_send_control_def set_send_slot_def
      split: special_reply_state.splits)

text \<open>
  C37. The session writes to a reply buffer that it no longer has.  While a reply arrives, the application
  drops the future of \<open>send_with_reply_buffer\<close>, and with it the only handle of the channel of the
  document sent; its buffer may be freed now.  The document in the receive table still has the
  addresses: the next segment is written to them, and to the start of the buffer, whatever its offset.
\<close>

theorem dropped_reply_buffer_written:
  assumes future: "handle_slot c s k ch" "ref_count ch = 1" "ready_docs ch = []"
    and seg: "parse_seg v packet j = Some (Inr p, j')" "\<not> ps_is_closed p" "ps_seg p \<noteq> []"
    and slot: "\<not> is_sending s (ps_doc_no p)" "slot_idx (ps_doc_no p) (recv_table s) = Some i"
      "rs_doc_no (recv_table s ! i) = ps_doc_no p" "rs_doc (recv_table s ! i) = Active d"
    and buffer: "rd_mem d = ReplyBuf a e" "e - a < usize_bound" "ps_seg_off p + length (ps_seg p) \<le> e - a"
      "ps_seg_off p + length (ps_seg p) \<le> 64 * length (rd_set_segs d)" "rd_total_recv d + length (ps_seg p) < e - a"
  shows "\<exists>s' s''. drop_channel c s = Some s' \<and> heap s' = heap s \<and> recv_seg v packet j s' = Some (s'', j', Inr ()) \<and>
    (\<forall>x < length (ps_seg p). heap s'' (a + x) = ps_seg p ! x)"
proof -
  obtain s' where s': "drop_channel c s = Some s'" "recv_table s' = recv_table s" "heap s' = heap s" "is_initiator s' = is_initiator s"
    using drop_channel_keeps [OF future] by blast
  let ?seg = "ps_seg p"
  have "length ?seg < e - a" using buffer(5) by simp
  from reply_seg_written [OF buffer(1) seg(3) this buffer(3,2,4), of "heap s'"] obtain d' new where
    d': "recv_doc_seg d (ps_seg_off p) ?seg (heap s') = Some (d', \<lambda>x. if a \<le> x \<and> x < a + length ?seg then ?seg ! (x - a) else heap s' x,
      Inr (rd_total_recv d + new = e - a))" "new \<le> length ?seg" by blast
  have more: "rd_total_recv d + new \<noteq> e - a" using d'(2) buffer(5) by simp
  have "set_recv_slot i (recv_table s' ! i) s' = s'" by (simp add: set_recv_slot_def)
  then have "\<exists>s''. update_doc p i s' = Some (s'', Inr ()) \<and> (\<forall>x < length ?seg. heap s'' (a + x) = ?seg ! x)"
    using d'(1) more slot(4) seg(2) s'(2)
    by (simp add: update_doc_def Let_def drop_closed_channel_def) (simp add: set_recv_slot_def)
  then show ?thesis using s' seg(1) slot(1-3) by (auto simp: recv_seg_def is_sending_def Let_def)
qed

text \<open>Document 8 is a reply of 60 bytes to document 3, of which 20 have arrived in the buffer at 100.\<close>

definition sample_reply_doc :: recv_doc where
  "sample_reply_doc = \<lparr> rd_has_special_parent = True, rd_parent_no = Some 3, rd_mem = ReplyBuf 100 160, rd_total_recv = 20,
     rd_set_segs = [drop_bit 44 (- 1)] \<rparr>"

definition sample_reply :: session where
  "sample_reply = sample_session\<lparr> recv_table := [\<lparr> rs_doc_no = 8, rs_doc = Active sample_reply_doc, rs_channel = None,
     rs_adoptable_orphans = [], rs_orphans_expected_parent_no = None, rs_needs_send_control = False \<rparr>] \<rparr>"

theorem dropped_reply_buffer_written_witness:
  "\<exists>s' s''. drop_channel 3 sample_reply = Some s' \<and> heap s' = (\<lambda>_. 0) \<and>
     recv_seg 0x26 sample_packet 1 s' = Some (s'', 6, Inr ()) \<and> heap s'' 101 = 20"
proof -
  have c: "channel_doc_no 3 = 3" by (simp add: channel_doc_no_def DOC_NO_MASK_def flip: take_bit_eq_mask)
  have h: "handle_slot 3 sample_reply 0 sample_channel" "ref_count sample_channel = 1" "ready_docs sample_channel = []"
    by (simp_all add: handle_slot_def c sample_reply_def sample_session_def is_sending_def slot_idx_def sample_channel_def)
  let ?p = "sample_parsed [10, 20, 30]"
  have p: "\<not> ps_is_closed ?p" "ps_seg ?p \<noteq> []" by (simp_all add: sample_parsed_def)
  have "\<not> is_sending sample_reply (ps_doc_no ?p)" "slot_idx (ps_doc_no ?p) (recv_table sample_reply) = Some 0"
    "rs_doc_no (recv_table sample_reply ! 0) = ps_doc_no ?p" "rs_doc (recv_table sample_reply ! 0) = Active sample_reply_doc"
    by (simp_all add: sample_reply_def sample_session_def sample_parsed_def is_sending_def slot_idx_def)
  note w = dropped_reply_buffer_written [OF h sample_parse p this, of 100 160]
  have "\<exists>s' s''. drop_channel 3 sample_reply = Some s' \<and> heap s' = heap sample_reply \<and>
      recv_seg 0x26 sample_packet 1 s' = Some (s'', 6, Inr ()) \<and> (\<forall>x < length (ps_seg ?p). heap s'' (100 + x) = ps_seg ?p ! x)"
    by (rule w) (simp_all add: sample_reply_doc_def sample_parsed_def usize_bound_def)
  then obtain s' s'' where "drop_channel 3 sample_reply = Some s'" "heap s' = heap sample_reply"
    "recv_seg 0x26 sample_packet 1 s' = Some (s'', 6, Inr ())" "\<forall>x < length (ps_seg ?p). heap s'' (100 + x) = ps_seg ?p ! x" by blast
  moreover from this(4) have "heap s'' (100 + 1) = ps_seg ?p ! 1" by (auto simp: sample_parsed_def)
  ultimately show ?thesis by (auto simp: sample_reply_def sample_session_def sample_parsed_def)
qed

end
