(* ===== verification/Spec2Isabelle.thy ===== *)
theory Spec2Isabelle
  imports Doc_No Antireplay Ack_Runs_Correct Desegmenter_Correct Packet_Correct Recv_Correct Recv_Tables Channel_Correct Transmit_Correct Handshake Context_Correct End_To_End Acknowledged
    Session_Rewrite Mem_Types Session_Inv Recv_Bytes Held_Docs No_Panic Awaited Reply_Buffer
begin

text \<open>
  \<^bold>\<open>A verification of pqsnet\<close>

  pqsnet is a Rust library for documents over datagrams.  Two peers agree on keys by a post-quantum
  handshake (\<open>transport/\<close>); then they exchange documents of any length in encrypted packets
  (\<open>session/\<close>).  A document is cut into segments, segments are frames of packets, packets are
  acknowledged and sent again when they expire, and the receiver puts the documents together, in slots
  of a table, and hands them to the channel of their parent document.

  \<^bold>\<open>Theories and sources\<close>

  \<^item> \<open>Prelude\<close>: types of the machine integers, slices and panics as options, list and word lemmas
  that all components share.
  \<^item> \<open>Varint\<close>: \<open>varint.rs\<close>, the integers of variable length.  They are read back, by the
  equivalent readers, if they are not wider than the format allows.
  \<^item> \<open>Doc_No\<close>: \<open>doc_no.rs\<close>, packed document numbers.
  \<^item> \<open>Antireplay\<close>: \<open>antireplay.rs\<close>, the window of counters.  No counter is accepted twice, and
  counters inside the window are accepted.
  \<^item> \<open>Ack_Runs\<close>, \<open>Ack_Runs_Correct\<close>: \<open>ack_runs.rs\<close>, the run lengths of acknowledgements.
  Decoding gives back what was encoded.
  \<^item> \<open>Desegmenter\<close>, \<open>Desegmenter_Correct\<close>: \<open>desegmenter.rs\<close>, messages in segments.  The word
  bitmap refines the set of the bytes received: disjoint segments that cover the message complete it.
  \<^item> \<open>Transport_Protocol\<close>, \<open>Key_Bundle\<close>, \<open>Symmetric_State\<close>, \<open>Initiator\<close>,
  \<open>Responder\<close>, \<open>Handshake\<close>: the files of \<open>transport/src\<close> of the same names with \<open>protocol/\<close>,
  \<open>api.rs\<close> and \<open>error.rs\<close>.  Two honest peers complete the handshake with equal keys; whoever
  completes it has checked the certificate, the signature over the channel binding and the expected
  identity.
  \<^item> \<open>Session_Protocol\<close>, \<open>Packet_Builder\<close>, \<open>Packet_Correct\<close>: \<open>protocol/mod.rs\<close> and
  \<open>packet_builder.rs\<close>.  Cutting a document loses nothing, packets stay within the MTU, and a segment
  that is written is read back by the parser of the receiver.
  \<^item> \<open>Session_State\<close>, \<open>Recv_Parse\<close>, \<open>Session_Recv\<close>, \<open>Recv_Correct\<close>, \<open>Recv_Tables\<close>:
  the state of \<open>session copy.rs\<close> and \<open>recv.rs\<close>.  Receiving a document refines a set of received
  bytes; slots only advance; finished documents reach the channel of their parent, at once or by
  adoption.
  \<^item> \<open>End_To_End\<close>: a document from the sender's slot to the receiver's channel.  It composes cutting,
  packets, the parser and the tables: whatever the order of the packets, the document is delivered if
  its first segment comes first, and otherwise the session is abandoned.
  \<^item> \<open>Session_Rewrite\<close>: \<open>session.rs\<close>, the rewrite of \<open>session copy.rs\<close> with desegmenters for the
  documents that arrive.  Its operations refine those of \<open>Session_State\<close> and \<open>Session_Recv\<close>.
  \<^item> \<open>Channel\<close>, \<open>Channel_Correct\<close>: \<open>channel.rs\<close>, handles and futures.  Sending returns; the
  last handle closes the channel.
  \<^item> \<open>Transmit\<close>, \<open>Transmit_Correct\<close>: \<open>send.rs\<close> and \<open>send_now\<close>.  Sending again conserves
  the frames; \<open>transmit\<close> keeps to its budget.
  \<^item> \<open>Acknowledged\<close>: the acknowledgements of one peer at the other, from \<open>packet_builder.rs\<close> through
  \<open>ack_runs.rs\<close> to the queue of \<open>send.rs\<close>: what was acknowledged is not sent again.
  \<^item> \<open>Awaited\<close>: waiting for a document.  A task that found its channel empty is woken by the packets of
  the next document, and its next poll returns it.
  \<^item> \<open>Session_Inv\<close>: sessions as a transition system of all operations above, with the invariant that
  the counters of incoming documents are right.  \<open>plain_move\<close> has every operation but the one that lends a
  reply buffer, \<open>session_move\<close> that one too.  The locale \<open>received_invariant\<close> states what transmitting,
  flushing and cloning need of an invariant; it is interpreted for the four invariants that follow.
  \<^item> \<open>Recv_Bytes\<close>: the bytes of the documents a session holds.  \<open>recv_bytes_total\<close> covers them and
  stays below its limit.
  \<^item> \<open>Held_Docs\<close>, \<open>No_Panic\<close>: the finished documents a session holds for its application.  Each is in one
  place, and its slot is finished; so no assertion of the receiver fails, and packets do not make it panic.
  \<^item> \<open>Reply_Buffer\<close>: buffers for replies.  A session goes on writing to a buffer whose future was dropped.
  \<^item> \<open>Mem_Types\<close>: \<open>session/src/crypto/mem.rs\<close> and \<open>transport/src/crypto/mem.rs\<close>, the memories that hold
  messages.
  \<^item> \<open>Context\<close>, \<open>Context_Correct\<close>: \<open>context.rs\<close> and \<open>handshake_payload.rs\<close>.  It composes the
  varints, the desegmenter, the handshake and the receiver: reserved socket ids are kept, a handshake
  number is used once, and two contexts complete a handshake by their packets.

  \<^bold>\<open>Conventions\<close>

  A Rust integer is a word of its width; an index or length is a natural number, as \<open>usize\<close> has 64 bits
  and lengths of memory stay far below that.  The build is one with debug assertions and overflow checks:
  \<open>None\<close> stands for a panic where a function has no other result of that form, and errors are
  values of a sum.  Mutable arguments are returned.  In \<open>Context\<close>, where unfinished code is common, a
  call returns an outcome beside the state, so that what was done before a \<open>todo!()\<close> is kept.

  Loops are total functions, by structure or with a measure, except for the search of a free slot in
  \<open>try_send_any\<close>, a \<open>partial_function\<close>, which the code may run forever on a full table; that it returns
  is a theorem of \<open>Channel_Correct\<close>.  No fuel is used.  The loop that draws socket ids takes the drawn
  numbers as a list.

  What comes from outside is an argument: the cryptographic primitives, the allocator, the clock, random
  numbers, the serialisation of the payload, and the results of the congestion control.  What is assumed
  of them are named predicates: lengths of outputs, decryption inverts encryption (\<open>cipher_correct\<close>),
  verification accepts signatures, the allocator returns the length asked for.  A witness instantiates
  them with concrete functions.  Nothing is assumed about secrecy.

  Bounds in the theorems: lengths on the wire are below \<open>2 ^ 30\<close>, where varints of 32 bits end, and the
  MTU leaves room for the packet header and a frame, as the constants of \<open>protocol/mod.rs\<close> ask for.

  \<^bold>\<open>Not modelled\<close>

  \<^item> Concurrency.  Locks, atomics and condition variables are run by one thread; wakers are recorded.
  \<^item> \<open>unbound_recv.rs\<close>.  From its first implementation on it has the text of \<open>channel.rs\<close>; only its
  declarations differ, and of these the flags of handles are in \<open>Channel\<close>.
  \<^item> \<open>congestion.rs\<close>, \<open>stats.rs\<close>, \<open>socket.rs\<close> and the rest of \<open>session/src/crypto/\<close>: their bodies are
  \<open>todo!()\<close> or bind foreign code.  \<open>application_layer.rs\<close> has only declarations.
  \<^item> Zeroing of key memory, log output and the texts of errors.

  \<^bold>\<open>What is left\<close>

  Everything with a body is modelled.  The bounds on memory and the absence of panics hold for sessions
  without reply buffers.  With them they do not: a segment as long as its buffer fails an assertion of
  \<open>DocMem::write\<close>, and a reply whose parent was closed is counted off by the length of its buffer.
  What would need more code than there is: a receiver of control and
  acknowledgement frames in \<open>recv.rs\<close>, and the part of \<open>session.rs\<close> that is to use it.
\<close>

end
